(* ===== verification/Prelude.thy ===== *)
theory Prelude
  imports Main "HOL-Library.Word" "HOL-Library.Multiset"
begin

text \<open>
  Shared vocabulary of the development: the names of Rust's fixed-width integers, the
  saturating operations of the standard library, and the notion of a labelled transition
  system with its reachable states, which the concurrent components (limits, TCP relay, TCP
  listener, UDP listener) all instantiate.
\<close>

section \<open>Machine integers\<close>

type_synonym u8 = "8 word"
type_synonym u16 = "16 word"
type_synonym u32 = "32 word"
type_synonym u64 = "64 word"

named_theorems sat_unat \<open>how saturating word operations read as natural numbers\<close>

text \<open>Rust's \<open>saturating_sub\<close>, \<open>saturating_add\<close> and \<open>saturating_mul\<close> on unsigned integers.\<close>

definition sat_sub :: "'a::len word \<Rightarrow> 'a word \<Rightarrow> 'a word" where
  "sat_sub a b = (if a < b then 0 else a - b)"

definition sat_add :: "'a::len word \<Rightarrow> 'a word \<Rightarrow> 'a word" where
  "sat_add a b = (if unat a + unat b < 2 ^ LENGTH('a) then a + b else - 1)"

definition sat_mul :: "'a::len word \<Rightarrow> 'a word \<Rightarrow> 'a word" where
  "sat_mul a b = (if unat a * unat b < 2 ^ LENGTH('a) then a * b else - 1)"

text \<open>\<open>checked_mul\<close> and \<open>checked_add\<close>: \<open>None\<close> on overflow.\<close>

definition checked_mul :: "'a::len word \<Rightarrow> 'a word \<Rightarrow> 'a word option" where
  "checked_mul a b = (if unat a * unat b < 2 ^ LENGTH('a) then Some (a * b) else None)"

definition checked_add :: "'a::len word \<Rightarrow> 'a word \<Rightarrow> 'a word option" where
  "checked_add a b = (if unat a + unat b < 2 ^ LENGTH('a) then Some (a + b) else None)"

lemma unat_less_2p: "unat (a :: 'a::len word) < 2 ^ LENGTH('a)"
  by (rule unsigned_less)

lemma unat_max_word: "unat (- 1 :: 'a::len word) = 2 ^ LENGTH('a) - 1"
  by (simp add: unsigned_minus_1_eq_mask mask_eq_exp_minus_1)

lemma unat_sat_sub [sat_unat]: "unat (sat_sub a b) = unat a - unat b"
  by (auto simp: sat_sub_def word_less_nat_alt unat_sub word_le_nat_alt)

lemma unat_sat_add [sat_unat]:
  fixes a b :: "'a::len word"
  shows "unat (sat_add a b) = min (unat a + unat b) (2 ^ LENGTH('a) - 1)"
  by (auto simp: sat_add_def unat_word_ariths unat_max_word min_def)

lemma unat_sat_mul [sat_unat]:
  fixes a b :: "'a::len word"
  shows "unat (sat_mul a b) = min (unat a * unat b) (2 ^ LENGTH('a) - 1)"
  by (auto simp: sat_mul_def unat_word_ariths unat_max_word not_less min_absorb2)

lemma unat_max_of_words [sat_unat]: "unat (max a b) = max (unat a) (unat b)"
  by (simp add: max_def word_le_nat_alt)

lemma unat_min_of_words [sat_unat]: "unat (min a b) = min (unat a) (unat b)"
  by (simp add: min_def word_le_nat_alt)

lemma unat_u32_as_u64 [simp]: "unat (ucast (w :: u32) :: u64) = unat w"
  by (simp add: unsigned_ucast_eq take_bit_nat_eq_self unat_less_2p [THEN less_le_trans])

lemma pos_word_unat: "0 < (w :: 'a::len word) \<longleftrightarrow> 0 < unat w"
  by (simp add: word_less_nat_alt)

lemma word_zero_iff_unat: "a = 0 \<longleftrightarrow> unat a = 0"
  by (simp add: unat_eq_0)

lemma unat_u64_bound: "unat (a :: u64) \<le> 18446744073709551615"
  using unat_less_2p [of a] by simp

lemma unat_u32_bound: "unat (a :: u32) \<le> 4294967295"
  using unat_less_2p [of a] by simp

lemma unat_u16_bound: "unat (a :: u16) \<le> 65535"
  using unat_less_2p [of a] by simp

section \<open>Results\<close>

text \<open>
  A fallible operation returns \<open>Inl e\<close> or \<open>Inr x\<close>; \<open>bindE\<close> is the \<open>?\<close> operator followed by the
  rest of the function, \<open>map_err\<close> attaches a context to an error.
\<close>

definition bindE :: "'e + 'a \<Rightarrow> ('a \<Rightarrow> 'e + 'b) \<Rightarrow> 'e + 'b" where
  "bindE r f = (case r of Inl e \<Rightarrow> Inl e | Inr x \<Rightarrow> f x)"

definition map_err :: "('e \<Rightarrow> 'f) \<Rightarrow> 'e + 'a \<Rightarrow> 'f + 'a" where
  "map_err g r = (case r of Inl e \<Rightarrow> Inl (g e) | Inr x \<Rightarrow> Inr x)"

definition ok_or :: "'a option \<Rightarrow> 'e \<Rightarrow> 'e + 'a" where
  "ok_or x e = (case x of None \<Rightarrow> Inl e | Some v \<Rightarrow> Inr v)"

lemma bindE_simps [simp]: "bindE (Inl e) f = Inl e" "bindE (Inr x) f = f x"
  by (simp_all add: bindE_def)

lemma map_err_simps [simp]: "map_err g (Inl e) = Inl (g e)" "map_err g (Inr x) = Inr x"
  by (simp_all add: map_err_def)

lemma ok_or_simps [simp]: "ok_or None e = Inl e" "ok_or (Some v) e = Inr v"
  by (simp_all add: ok_or_def)

lemma bindE_eq_Inr: "bindE r f = Inr y \<longleftrightarrow> (\<exists>x. r = Inr x \<and> f x = Inr y)"
  by (cases r) simp_all

lemma bindE_eq_Inl: "bindE r f = Inl e \<longleftrightarrow> r = Inl e \<or> (\<exists>x. r = Inr x \<and> f x = Inl e)"
  by (cases r) simp_all

lemma map_err_eq_Inr [simp]: "map_err g r = Inr y \<longleftrightarrow> r = Inr y"
  by (cases r) simp_all

lemma ok_or_eq_Inr [simp]: "ok_or x e = Inr v \<longleftrightarrow> x = Some v"
  by (cases x) simp_all

section \<open>A list updated at one place\<close>

lemma filter_update:
  assumes "i < length ts" and "P (ts ! i)" and "\<not> P t"
  shows "Suc (length (filter P (ts[i := t]))) = length (filter P ts)"
  using assms
  by (subst (2) id_take_nth_drop [OF assms(1)]) (simp add: upd_conv_take_nth_drop)

lemma filter_update_same:
  assumes "i < length ts" and "P t = P (ts ! i)"
  shows "length (filter P (ts[i := t])) = length (filter P ts)"
  using assms
  by (subst (2) id_take_nth_drop [OF assms(1)]) (simp add: upd_conv_take_nth_drop)

lemma list_ex_update:
  assumes "i < length ts"
  shows "list_ex P (ts[i := t]) \<longleftrightarrow> P t \<or> list_ex P (take i ts @ drop (Suc i) ts)"
    and "list_ex P ts \<longleftrightarrow> P (ts ! i) \<or> list_ex P (take i ts @ drop (Suc i) ts)"
  using assms by (simp_all add: upd_conv_take_nth_drop disj_ac)
    (subst id_take_nth_drop [OF assms], auto)

lemma list_all_update: "list_all P ts \<Longrightarrow> P t \<Longrightarrow> list_all P (ts[i := t])"
  using set_update_subset_insert [of ts i t] by (auto simp: list_all_iff)

lemma sum_map_update:
  fixes f :: "'a \<Rightarrow> nat"
  shows "i < length xs \<Longrightarrow> sum_list (map f (xs[i := x])) + f (xs ! i) = sum_list (map f xs) + f x"
  by (induction xs arbitrary: i) (auto simp: nth_Cons split: nat.split)

lemma map_update_same: "i < length ts \<Longrightarrow> f t = f (ts ! i) \<Longrightarrow> map f (ts[i := t]) = map f ts"
  by (metis list_update_id map_update)

section \<open>Labelled transition systems\<close>

text \<open>
  A component whose steps interleave is a start predicate and a partial step function
  \<open>step e s\<close>: \<open>None\<close> when event \<open>e\<close> is not enabled in \<open>s\<close>. One event is one atomic action of
  the code (what runs between two points where another task can observe it).
\<close>

inductive reach :: "('s \<Rightarrow> bool) \<Rightarrow> ('e \<Rightarrow> 's \<Rightarrow> 's option) \<Rightarrow> 's \<Rightarrow> bool"
  for init :: "'s \<Rightarrow> bool" and step :: "'e \<Rightarrow> 's \<Rightarrow> 's option" where
  reach_init: "init s \<Longrightarrow> reach init step s"
| reach_step: "reach init step s \<Longrightarrow> step e s = Some t \<Longrightarrow> reach init step t"

fun run :: "('e \<Rightarrow> 's \<Rightarrow> 's option) \<Rightarrow> 'e list \<Rightarrow> 's \<Rightarrow> 's option" where
  "run step [] s = Some s"
| "run step (e # es) s = (case step e s of None \<Rightarrow> None | Some t \<Rightarrow> run step es t)"

lemma run_append:
  "run step (xs @ ys) s = (case run step xs s of None \<Rightarrow> None | Some t \<Rightarrow> run step ys t)"
  by (induction xs arbitrary: s) (auto split: option.splits)

lemma run_reach: "reach init step s \<Longrightarrow> run step es s = Some t \<Longrightarrow> reach init step t"
  by (induction es arbitrary: s) (auto split: option.splits intro: reach_step)

lemma reach_weaken: "reach init step s \<Longrightarrow> (\<And>s. init s \<Longrightarrow> init' s) \<Longrightarrow> reach init' step s"
  by (induction rule: reach.induct) (auto intro: reach.intros)

lemma reach_runD: "reach init step t \<Longrightarrow> \<exists>s es. init s \<and> run step es s = Some t"
proof (induction rule: reach.induct)
  case (reach_init s)
  then have "init s \<and> run step [] s = Some s" by simp
  then show ?case by blast
next
  case (reach_step s e t)
  then obtain s0 es where "init s0" "run step es s0 = Some s" by blast
  with reach_step.hyps have "init s0 \<and> run step (es @ [e]) s0 = Some t"
    by (simp add: run_append)
  then show ?case by blast
qed

text \<open>
  The contract every safety argument here discharges: an invariant that holds at the start and
  that each step keeps. What is proved once in the locale is then available at each component
  through its interpretation.
\<close>

locale invariant_system =
  fixes init :: "'s \<Rightarrow> bool"
    and step :: "'e \<Rightarrow> 's \<Rightarrow> 's option"
    and inv :: "'s \<Rightarrow> bool"
  assumes inv_start: "init s \<Longrightarrow> inv s"
    and inv_next: "inv s \<Longrightarrow> step e s = Some t \<Longrightarrow> inv t"
begin

lemma inv_reachable: "reach init step s \<Longrightarrow> inv s"
  by (induction rule: reach.induct) (auto intro: inv_start inv_next)

lemma inv_along_run: "inv s \<Longrightarrow> run step es s = Some t \<Longrightarrow> inv t"
  by (induction es arbitrary: s) (auto split: option.splits intro: inv_next)

end

text \<open>
  A system that refines another: every step is a (possibly empty) run of the abstract system between
  the abstractions, so the abstraction of a reachable state is reachable.
\<close>

locale refining_system = invariant_system init step inv
  for init :: "'s \<Rightarrow> bool" and step :: "'e \<Rightarrow> 's \<Rightarrow> 's option" and inv :: "'s \<Rightarrow> bool" +
  fixes init' :: "'a \<Rightarrow> bool"
    and step' :: "'f \<Rightarrow> 'a \<Rightarrow> 'a option"
    and abs' :: "'s \<Rightarrow> 'a"
  assumes abs_start: "init s \<Longrightarrow> init' (abs' s)"
    and abs_next: "inv s \<Longrightarrow> step e s = Some t \<Longrightarrow> \<exists>fs. run step' fs (abs' s) = Some (abs' t)"
begin

lemma abs_reachable: "reach init step s \<Longrightarrow> reach init' step' (abs' s)"
proof (induction rule: reach.induct)
  case (reach_init s)
  then show ?case by (intro reach.reach_init abs_start)
next
  case (reach_step s e t)
  obtain fs where "run step' fs (abs' s) = Some (abs' t)"
    using abs_next [OF inv_reachable [OF reach_step.hyps(1)] reach_step.hyps(2)] by blast
  then show ?case by (rule run_reach [OF reach_step.IH])
qed

end

text \<open>
  A system that can finish on its own: from a live state that is not final one of its own moves
  leads to a live state of a lower rank. So it reaches a final state by that many own moves at most.
\<close>

locale progress_system = invariant_system init step inv
  for init :: "'s \<Rightarrow> bool" and step :: "'e \<Rightarrow> 's \<Rightarrow> 's option" and inv :: "'s \<Rightarrow> bool" +
  fixes live :: "'s \<Rightarrow> bool" and final :: "'s \<Rightarrow> bool" and own :: "'e \<Rightarrow> bool" and rank :: "'s \<Rightarrow> nat"
  assumes progress: "inv s \<Longrightarrow> live s \<Longrightarrow> \<not> final s \<Longrightarrow>
    \<exists>e t. own e \<and> step e s = Some t \<and> live t \<and> rank t < rank s"
begin

lemma completes_live:
  "inv s \<Longrightarrow> live s \<Longrightarrow>
     \<exists>es t. run step es s = Some t \<and> final t \<and> live t \<and> list_all own es \<and> length es \<le> rank s"
proof (induction "rank s" arbitrary: s rule: less_induct)
  case less
  show ?case
  proof (cases "final s")
    case True
    then show ?thesis using less.prems by (intro exI [of _ "[]"] exI [of _ s]) simp
  next
    case False
    then obtain e u where u: "own e" "step e s = Some u" "live u" "rank u < rank s"
      using progress less.prems by blast
    then obtain es t where "run step es u = Some t" "final t" "live t" "list_all own es" "length es \<le> rank u"
      using less.hyps [of u] inv_next less.prems(1) by blast
    then show ?thesis using u by (intro exI [of _ "e # es"] exI [of _ t]) simp
  qed
qed

lemma completes:
  "inv s \<Longrightarrow> live s \<Longrightarrow>
     \<exists>es t. run step es s = Some t \<and> final t \<and> list_all own es \<and> length es \<le> rank s"
  using completes_live by blast

end

end
