(* ===== verification/Rust_Str.thy ===== *)
theory Rust_Str
  imports Prelude
begin

text \<open>
  The string operations of the standard library the program uses, on strings as lists of bytes
  (a Rust \<open>str\<close> is its UTF-8 bytes; every separator here is ASCII): parsing a \<open>u16\<close>, printing a
  \<open>usize\<close>, \<open>rsplit_once\<close> and \<open>split\<close>.
\<close>

section \<open>Decimal numbers\<close>

definition digit_val :: "char \<Rightarrow> nat option" where
  "digit_val c = (let n = of_char c :: nat in if 48 \<le> n \<and> n \<le> 57 then Some (n - 48) else None)"

definition is_digit :: "char \<Rightarrow> bool" where
  "is_digit c \<longleftrightarrow> digit_val c \<noteq> None"

text \<open>
  \<open>u16::from_str\<close>: the digit loop multiplies and adds with overflow checks; one leading \<open>+\<close> is
  accepted, an empty string and a lone sign are not.
\<close>

fun parse_digits_u16 :: "u16 \<Rightarrow> string \<Rightarrow> u16 option" where
  "parse_digits_u16 acc [] = Some acc"
| "parse_digits_u16 acc (c # cs) =
     (case digit_val c of
        None \<Rightarrow> None
      | Some d \<Rightarrow>
          (case checked_mul acc 10 of
             None \<Rightarrow> None
           | Some m \<Rightarrow>
               (case checked_add m (of_nat d) of
                  None \<Rightarrow> None
                | Some acc' \<Rightarrow> parse_digits_u16 acc' cs)))"

definition strip_plus :: "string \<Rightarrow> string" where
  "strip_plus s = (case s of [] \<Rightarrow> [] | c # cs \<Rightarrow> if c = CHR ''+'' then cs else s)"

definition parse_u16 :: "string \<Rightarrow> u16 option" where
  "parse_u16 s = (if strip_plus s = [] then None else parse_digits_u16 0 (strip_plus s))"

text \<open>The value of a digit string, as a natural number.\<close>

fun dec_val :: "nat \<Rightarrow> string \<Rightarrow> nat" where
  "dec_val n [] = n"
| "dec_val n (c # cs) = dec_val (10 * n + the (digit_val c)) cs"

lemma digit_val_less: "digit_val c = Some d \<Longrightarrow> d < 10"
  by (auto simp: digit_val_def Let_def split: if_splits)

lemma dec_val_mono: "n \<le> dec_val n cs"
proof (induction cs arbitrary: n)
  case (Cons c cs)
  have "n \<le> 10 * n + the (digit_val c)" by simp
  also have "\<dots> \<le> dec_val (10 * n + the (digit_val c)) cs" by (rule Cons)
  finally show ?case by simp
qed simp

lemma dec_val_append: "dec_val n (xs @ ys) = dec_val (dec_val n xs) ys"
  by (induction xs arbitrary: n) simp_all

lemma digit_val_Some [simp]: "digit_val c = Some d \<Longrightarrow> is_digit c"
  by (simp add: is_digit_def)

lemma digit_val_None [simp]: "digit_val c = None \<Longrightarrow> \<not> is_digit c"
  by (simp add: is_digit_def)

lemma parse_digits_step:
  assumes "digit_val c = Some d"
  shows "parse_digits_u16 acc (c # cs) =
    (if 10 * unat acc + d < 65536 then parse_digits_u16 (of_nat (10 * unat acc + d)) cs else None)"
proof (cases "unat acc * 10 < 65536")
  case True
  have d: "unat (of_nat d :: u16) = d"
    using digit_val_less [OF assms] by (simp add: unat_of_nat)
  have m: "unat (acc * 10) = unat acc * 10"
    using True by (simp add: unat_word_ariths)
  have e: "(of_nat (10 * unat acc + d) :: u16) = acc * 10 + of_nat d"
    by (simp add: mult.commute)
  have c: "10 * unat acc + d < 65536 \<longleftrightarrow> unat acc * 10 + d < 65536"
    by linarith
  show ?thesis
    unfolding c e using assms True by (simp add: checked_mul_def checked_add_def m d)
next
  case False
  then show ?thesis using assms by (simp add: checked_mul_def)
qed

lemma parse_digits_eq:
  "parse_digits_u16 acc cs =
     (if list_all is_digit cs \<and> dec_val (unat acc) cs < 65536
      then Some (of_nat (dec_val (unat acc) cs)) else None)"
proof (induction cs arbitrary: acc)
  case Nil
  then show ?case using unat_u16_bound [of acc] by simp
next
  case (Cons c cs)
  show ?case
  proof (cases "digit_val c")
    case None
    then show ?thesis by simp
  next
    case (Some d)
    let ?n = "10 * unat acc + d"
    have tail: "dec_val (unat acc) (c # cs) = dec_val ?n cs" "list_all is_digit (c # cs) = list_all is_digit cs"
      using Some by simp_all
    show ?thesis
    proof (cases "?n < 65536")
      case True
      have u: "unat (of_nat ?n :: u16) = ?n"
        using True by (simp only: unat_of_nat) simp
      show ?thesis
        unfolding tail parse_digits_step [OF Some] if_P [OF True] Cons.IH u ..
    next
      case False
      have "?n \<le> dec_val ?n cs" by (rule dec_val_mono)
      with False have "\<not> dec_val ?n cs < 65536" by linarith
      then show ?thesis
        unfolding tail parse_digits_step [OF Some] if_not_P [OF False] by simp
    qed
  qed
qed

lemma set_strip_plus: "set s \<subseteq> insert (CHR ''+'') (set (strip_plus s))"
  by (cases s) (auto simp: strip_plus_def)

lemma parse_u16_eq:
  "parse_u16 s =
     (if strip_plus s \<noteq> [] \<and> list_all is_digit (strip_plus s) \<and> dec_val 0 (strip_plus s) < 65536
      then Some (of_nat (dec_val 0 (strip_plus s))) else None)"
  by (simp add: parse_u16_def parse_digits_eq)

text \<open>\<open>Display\<close> of an unsigned integer.\<close>

fun show_nat :: "nat \<Rightarrow> string" where
  "show_nat n = (if n < 10 then [char_of (48 + n)] else show_nat (n div 10) @ [char_of (48 + n mod 10)])"

declare show_nat.simps [simp del]

lemma digit_val_char_of: "d < 10 \<Longrightarrow> digit_val (char_of (48 + d)) = Some d"
  by (simp add: digit_val_def Let_def)

lemma dec_val_show_nat: "dec_val 0 (show_nat n) = n"
proof (induction n rule: show_nat.induct)
  case (1 n)
  then show ?case
    by (subst show_nat.simps) (auto simp: dec_val_append digit_val_char_of)
qed

lemma show_nat_digits: "list_all is_digit (show_nat n)"
proof (induction n rule: show_nat.induct)
  case (1 n)
  then show ?case by (subst show_nat.simps) (simp add: digit_val_Some [OF digit_val_char_of])
qed

lemma show_nat_inject: "show_nat m = show_nat n \<Longrightarrow> m = n"
  by (metis dec_val_show_nat)

section \<open>Splitting\<close>

definition rsplit_once :: "char \<Rightarrow> string \<Rightarrow> (string \<times> string) option" where
  "rsplit_once c s =
     (case dropWhile (\<lambda>x. x \<noteq> c) (rev s) of
        [] \<Rightarrow> None
      | _ # h \<Rightarrow> Some (rev h, rev (takeWhile (\<lambda>x. x \<noteq> c) (rev s))))"

lemma dropWhile_neq_app: "c \<notin> set xs \<Longrightarrow> dropWhile (\<lambda>x. x \<noteq> c) (xs @ c # ys) = c # ys"
  by (induction xs) auto

lemma takeWhile_neq_app: "c \<notin> set xs \<Longrightarrow> takeWhile (\<lambda>x. x \<noteq> c) (xs @ c # ys) = xs"
  by (induction xs) auto

lemma rsplit_once_app: "c \<notin> set p \<Longrightarrow> rsplit_once c (h @ c # p) = Some (h, p)"
  using dropWhile_neq_app [of c "rev p" "rev h"] takeWhile_neq_app [of c "rev p" "rev h"]
  by (simp add: rsplit_once_def)

lemma rsplit_once_None: "rsplit_once c s = None \<longleftrightarrow> c \<notin> set s"
proof -
  have "rsplit_once c s = None \<longleftrightarrow> dropWhile (\<lambda>x. x \<noteq> c) (rev s) = []"
    by (simp add: rsplit_once_def split: list.split del: dropWhile_eq_Nil_conv)
  then show ?thesis by (auto simp: dropWhile_eq_Nil_conv)
qed

lemma rsplit_once_Some:
  "rsplit_once c s = Some (h, p) \<longleftrightarrow> s = h @ c # p \<and> c \<notin> set p"
proof
  assume "rsplit_once c s = Some (h, p)"
  moreover from this have "c \<in> set s"
    by (metis option.distinct(1) rsplit_once_None)
  then obtain h' p' where "s = h' @ c # p'" "c \<notin> set p'"
    by (meson split_list_last)
  ultimately show "s = h @ c # p \<and> c \<notin> set p"
    by (simp add: rsplit_once_app)
qed (simp add: rsplit_once_app)

text \<open>\<open>str::split\<close> by one character: always at least one piece.\<close>

fun split_on :: "char \<Rightarrow> string \<Rightarrow> string list" where
  "split_on c [] = [[]]"
| "split_on c (x # xs) =
     (if x = c then [] # split_on c xs
      else (case split_on c xs of [] \<Rightarrow> [[x]] | y # ys \<Rightarrow> (x # y) # ys))"

text \<open>\<open>str::contains\<close> of a string, also on code points and on bytes.\<close>

fun str_contains :: "'a list \<Rightarrow> 'a list \<Rightarrow> bool" where
  "str_contains [] pat \<longleftrightarrow> pat = []"
| "str_contains (c # cs) pat \<longleftrightarrow> take (length pat) (c # cs) = pat \<or> str_contains cs pat"

lemma str_contains_app: "str_contains (xs @ pat @ ys) pat"
proof (induction xs)
  case Nil
  show ?case by (cases pat; cases ys) simp_all
qed simp

lemma str_contains_later: "str_contains s pat \<Longrightarrow> str_contains (xs @ s) pat"
  by (induction xs) simp_all

end
