(* ===== verification/Cli.thy ===== *)
theory Cli
  imports Rust_Str
begin

text \<open>
  The command line of \<open>src/cli.rs\<close>: the parsed arguments \<open>Args\<close> (clap fills them in), the expansion
  of a bare listen port, and the validation of a log filter. The two parsers of the tracing
  crates that the validation calls are parameters.
\<close>

section \<open>Arguments\<close>

datatype Protocol = Tcp | Udp

record Args =
  arg_config :: "string option"
  arg_listen :: "string option"
  arg_target :: "string option"
  arg_protocol :: Protocol
  arg_connect_timeout :: u64
  arg_keepalive_idle :: u64
  arg_keepalive_interval :: u64
  arg_keepalive_retries :: u32
  arg_user_timeout_ms :: u32
  arg_idle_timeout :: u64
  arg_half_close_timeout :: u64
  arg_max_connections :: u32
  arg_max_per_ip :: u32
  arg_proxy_protocol :: bool
  arg_shutdown_grace :: "u64 option"
  arg_metrics_listen :: "string option"
  arg_log_level :: string

section \<open>Listen addresses\<close>

definition expand_listen :: "string \<Rightarrow> string" where
  "expand_listen s = (if parse_u16 s \<noteq> None then ''0.0.0.0:'' @ s else s)"

lemma digit_not_punct: "is_digit c \<Longrightarrow> c \<noteq> CHR '':'' \<and> c \<noteq> CHR ''.''"
  by (auto simp: is_digit_def digit_val_def Let_def split: if_splits)

lemma parse_u16_no_colon: "parse_u16 s = Some p \<Longrightarrow> CHR '':'' \<notin> set s"
proof
  assume "parse_u16 s = Some p" and "CHR '':'' \<in> set s"
  then have "CHR '':'' \<in> set (strip_plus s)" and "list_all is_digit (strip_plus s)"
    using set_strip_plus [of s] by (auto simp: parse_u16_eq split: if_splits)
  then have "is_digit (CHR '':'')" by (simp add: list_all_iff)
  then show False by (auto dest: digit_not_punct)
qed

lemma parse_u16_with_colon: "CHR '':'' \<in> set s \<Longrightarrow> parse_u16 s = None"
  using parse_u16_no_colon by (cases "parse_u16 s") auto

section \<open>Log filters\<close>

text \<open>
  \<open>parse_log_level\<close>: every bare word between commas must be a level; then the whole value must be
  a filter. \<open>level_ok\<close> stands for \<open>LevelFilter::from_str\<close> succeeding, \<open>filter_err\<close> for the error
  \<open>EnvFilter::try_new\<close> returns, if any.
\<close>

datatype log_level_error = UnknownLevel string | BadFilter string

definition is_bare :: "string \<Rightarrow> bool" where
  "is_bare d \<longleftrightarrow> d \<noteq> [] \<and> CHR ''='' \<notin> set d"

fun check_directives :: "(string \<Rightarrow> bool) \<Rightarrow> string list \<Rightarrow> log_level_error + unit" where
  "check_directives level_ok [] = Inr ()"
| "check_directives level_ok (d # ds) =
     (if CHR ''='' \<notin> set d \<and> \<not> level_ok d then Inl (UnknownLevel d)
      else check_directives level_ok ds)"

definition parse_log_level ::
    "(string \<Rightarrow> bool) \<Rightarrow> (string \<Rightarrow> string option) \<Rightarrow> string \<Rightarrow> log_level_error + string" where
  "parse_log_level level_ok filter_err s =
     bindE (check_directives level_ok (filter (\<lambda>d. d \<noteq> []) (split_on CHR '','' s)))
       (\<lambda>_. case filter_err s of None \<Rightarrow> Inr s | Some e \<Rightarrow> Inl (BadFilter e))"

lemma check_directives_ok:
  "check_directives level_ok ds = Inr () \<longleftrightarrow> (\<forall>d\<in>set ds. CHR ''='' \<in> set d \<or> level_ok d)"
  by (induction ds) auto

lemma check_directives_err:
  "check_directives level_ok ds = Inl e \<Longrightarrow>
     \<exists>d\<in>set ds. e = UnknownLevel d \<and> CHR ''='' \<notin> set d \<and> \<not> level_ok d"
  by (induction ds) (auto split: if_splits)

section \<open>Properties\<close>

text \<open>
  Expanding a listen address is idempotent, and it leaves every string that already names a
  host and a port alone.
\<close>

theorem expand_listen_stable:
  "expand_listen (expand_listen s) = expand_listen s \<and> expand_listen (h @ CHR '':'' # p) = h @ CHR '':'' # p"
  by (simp add: expand_listen_def parse_u16_with_colon)

text \<open>
  A log filter is accepted exactly when every bare directive in it is a known level and the
  filter crate accepts the whole value, and then it is passed on unchanged; a misspelt bare
  level is refused whatever the filter crate would have made of it.
\<close>

theorem parse_log_level_exact:
  "parse_log_level level_ok filter_err s = Inr v \<longleftrightarrow>
     v = s \<and> filter_err s = None \<and>
     (\<forall>d\<in>set (split_on CHR '','' s). is_bare d \<longrightarrow> level_ok d)"
proof -
  have "check_directives level_ok (filter (\<lambda>d. d \<noteq> []) (split_on CHR '','' s)) = Inr () \<longleftrightarrow>
      (\<forall>d\<in>set (split_on CHR '','' s). is_bare d \<longrightarrow> level_ok d)"
    by (auto simp: check_directives_ok is_bare_def)
  then show ?thesis
    by (auto simp: parse_log_level_def bindE_eq_Inr split: option.splits)
qed

theorem parse_log_level_exact_witness:
  "parse_log_level (\<lambda>d. d = ''warn'') (\<lambda>_. None) ''warn,a=trace'' = Inr ''warn,a=trace'' \<and>
   parse_log_level (\<lambda>d. d = ''warn'') (\<lambda>_. None) ''warn,bogus'' \<noteq> Inr ''warn,bogus''"
  by (simp add: parse_log_level_exact is_bare_def)

end
