(* ===== verification/Config.thy ===== *)
theory Config
  imports Cli
begin

text \<open>
  Configuration of \<open>src/config.rs\<close>: the resolved \<open>ProxyConfig\<close>, its construction from the command line
  and from a TOML entry (per-proxy value, then \<open>[defaults]\<close>, then the built-in constant), its
  validation, and the loader with its checks across proxies. Reading the file and the TOML parser
  are parameters of \<open>load\<close>. Errors are values, one constructor per \<open>bail!\<close> or context.
\<close>

section \<open>Defaults\<close>

definition CONNECT_TIMEOUT_SECS :: u64 where "CONNECT_TIMEOUT_SECS = 3"
definition KEEPALIVE_IDLE_SECS :: u64 where "KEEPALIVE_IDLE_SECS = 60"
definition KEEPALIVE_INTERVAL_SECS :: u64 where "KEEPALIVE_INTERVAL_SECS = 10"
definition KEEPALIVE_RETRIES :: u32 where "KEEPALIVE_RETRIES = 6"
definition USER_TIMEOUT_MS :: u32 where "USER_TIMEOUT_MS = 90000"
definition IDLE_TIMEOUT_SECS :: u64 where "IDLE_TIMEOUT_SECS = 300"
definition HALF_CLOSE_TIMEOUT_SECS :: u64 where "HALF_CLOSE_TIMEOUT_SECS = 30"
definition SHUTDOWN_GRACE_SECS :: u64 where "SHUTDOWN_GRACE_SECS = 10"
definition MAX_CONNECTIONS :: u32 where "MAX_CONNECTIONS = 32000"
definition MAX_PER_IP :: u32 where "MAX_PER_IP = 320"

lemmas default_consts = CONNECT_TIMEOUT_SECS_def KEEPALIVE_IDLE_SECS_def KEEPALIVE_INTERVAL_SECS_def
  KEEPALIVE_RETRIES_def USER_TIMEOUT_MS_def IDLE_TIMEOUT_SECS_def HALF_CLOSE_TIMEOUT_SECS_def
  SHUTDOWN_GRACE_SECS_def MAX_CONNECTIONS_def MAX_PER_IP_def

section \<open>Data\<close>

record ProxyConfig =
  cfg_name :: string
  cfg_listen :: string
  cfg_target :: string
  cfg_protocol :: Protocol
  connect_timeout_secs :: u64
  keepalive_idle_secs :: u64
  keepalive_interval_secs :: u64
  keepalive_retries :: u32
  user_timeout_ms :: u32
  idle_timeout_secs :: u64
  half_close_timeout_secs :: u64
  max_connections :: u32
  cfg_max_per_ip :: u32
  cfg_proxy_protocol :: bool

text \<open>The \<open>[defaults]\<close> table and one \<open>[[proxy]]\<close> entry, as the macro \<open>tuning_knobs!\<close> declares them.\<close>

record TomlTuning =
  d_connect_timeout :: "u64 option"
  d_keepalive_idle :: "u64 option"
  d_keepalive_interval :: "u64 option"
  d_keepalive_retries :: "u32 option"
  d_user_timeout_ms :: "u32 option"
  d_idle_timeout :: "u64 option"
  d_half_close_timeout :: "u64 option"
  d_max_connections :: "u32 option"
  d_max_per_ip :: "u32 option"
  d_proxy_protocol :: "bool option"

record TomlProxy =
  p_name :: "string option"
  p_listen :: string
  p_target :: string
  p_protocol :: Protocol
  p_connect_timeout :: "u64 option"
  p_keepalive_idle :: "u64 option"
  p_keepalive_interval :: "u64 option"
  p_keepalive_retries :: "u32 option"
  p_user_timeout_ms :: "u32 option"
  p_idle_timeout :: "u64 option"
  p_half_close_timeout :: "u64 option"
  p_max_connections :: "u32 option"
  p_max_per_ip :: "u32 option"
  p_proxy_protocol :: "bool option"

record TomlFile =
  f_defaults :: TomlTuning
  f_metrics_listen :: "string option"
  f_shutdown_grace :: "u64 option"
  f_proxies :: "TomlProxy list"

record LoadedConfig =
  lc_proxies :: "ProxyConfig list"
  lc_metrics_listen :: "string option"
  lc_shutdown_grace :: "u64 option"

datatype addr_error = MissingPort string | MissingHost string | InvalidPort string string

datatype config_error =
    ListenRequired
  | TargetRequired
  | InvalidListen string addr_error
  | InvalidTarget string addr_error
  | TargetPortZero string
  | ConnectTimeoutZero string
  | KnobTooLarge string string u64
  | ReadingFailed string string
  | ParsingFailed string string
  | NoProxies
  | DuplicateName string
  | DuplicateListen string

section \<open>Validation\<close>

definition MAX_KEEPALIVE_SECS :: u64 where "MAX_KEEPALIVE_SECS = 32767"
definition MAX_KEEPALIVE_RETRIES :: u64 where "MAX_KEEPALIVE_RETRIES = 127"

definition check_host_port :: "string \<Rightarrow> addr_error + u16" where
  "check_host_port s =
     bindE (ok_or (rsplit_once (CHR '':'') s) (MissingPort s))
       (\<lambda>(host, port). if host = [] then Inl (MissingHost s)
                       else ok_or (parse_u16 port) (InvalidPort s port))"

fun check_knobs :: "string \<Rightarrow> (string \<times> u64 \<times> u64) list \<Rightarrow> config_error + unit" where
  "check_knobs nm [] = Inr ()"
| "check_knobs nm ((key, v, mx) # ks) =
     (if mx < v then Inl (KnobTooLarge nm key mx) else check_knobs nm ks)"

definition validate :: "ProxyConfig \<Rightarrow> config_error + unit" where
  "validate c =
     bindE (map_err (InvalidListen (cfg_name c)) (check_host_port (cfg_listen c))) (\<lambda>_.
     bindE (map_err (InvalidTarget (cfg_name c)) (check_host_port (cfg_target c))) (\<lambda>target_port.
       if target_port = 0 then Inl (TargetPortZero (cfg_name c))
       else if connect_timeout_secs c = 0 then Inl (ConnectTimeoutZero (cfg_name c))
       else check_knobs (cfg_name c)
         [(''keepalive_idle'', keepalive_idle_secs c, MAX_KEEPALIVE_SECS),
          (''keepalive_interval'', keepalive_interval_secs c, MAX_KEEPALIVE_SECS),
          (''keepalive_retries'', ucast (keepalive_retries c), MAX_KEEPALIVE_RETRIES)]))"

section \<open>Construction\<close>

definition from_cli :: "Args \<Rightarrow> config_error + ProxyConfig" where
  "from_cli args =
     bindE (ok_or (map_option expand_listen (arg_listen args)) ListenRequired) (\<lambda>listen.
     bindE (ok_or (arg_target args) TargetRequired) (\<lambda>target.
       let cfg = \<lparr>cfg_name = listen @ '' -> '' @ target, cfg_listen = listen, cfg_target = target,
                  cfg_protocol = arg_protocol args,
                  connect_timeout_secs = arg_connect_timeout args,
                  keepalive_idle_secs = arg_keepalive_idle args,
                  keepalive_interval_secs = arg_keepalive_interval args,
                  keepalive_retries = arg_keepalive_retries args,
                  user_timeout_ms = arg_user_timeout_ms args,
                  idle_timeout_secs = arg_idle_timeout args,
                  half_close_timeout_secs = arg_half_close_timeout args,
                  max_connections = arg_max_connections args,
                  cfg_max_per_ip = arg_max_per_ip args,
                  cfg_proxy_protocol = arg_proxy_protocol args\<rparr>
       in bindE (validate cfg) (\<lambda>_. Inr cfg)))"

text \<open>\<open>p.knob.or(base.knob).unwrap_or(default)\<close>.\<close>

definition knob :: "'a option \<Rightarrow> 'a option \<Rightarrow> 'a \<Rightarrow> 'a" where
  "knob own base dflt = (case (case own of None \<Rightarrow> base | Some v \<Rightarrow> Some v) of
     None \<Rightarrow> dflt | Some v \<Rightarrow> v)"

definition from_toml :: "nat \<Rightarrow> TomlProxy \<Rightarrow> TomlTuning \<Rightarrow> ProxyConfig" where
  "from_toml index p base =
     (let listen = expand_listen (p_listen p);
          nm = (case p_name p of Some n \<Rightarrow> n
                | None \<Rightarrow> ''proxy-'' @ show_nat index @ '': '' @ listen @ '' -> '' @ p_target p)
      in \<lparr>cfg_name = nm, cfg_listen = listen, cfg_target = p_target p, cfg_protocol = p_protocol p,
          connect_timeout_secs = knob (p_connect_timeout p) (d_connect_timeout base) CONNECT_TIMEOUT_SECS,
          keepalive_idle_secs = knob (p_keepalive_idle p) (d_keepalive_idle base) KEEPALIVE_IDLE_SECS,
          keepalive_interval_secs =
            knob (p_keepalive_interval p) (d_keepalive_interval base) KEEPALIVE_INTERVAL_SECS,
          keepalive_retries = knob (p_keepalive_retries p) (d_keepalive_retries base) KEEPALIVE_RETRIES,
          user_timeout_ms = knob (p_user_timeout_ms p) (d_user_timeout_ms base) USER_TIMEOUT_MS,
          idle_timeout_secs = knob (p_idle_timeout p) (d_idle_timeout base) IDLE_TIMEOUT_SECS,
          half_close_timeout_secs =
            knob (p_half_close_timeout p) (d_half_close_timeout base) HALF_CLOSE_TIMEOUT_SECS,
          max_connections = knob (p_max_connections p) (d_max_connections base) MAX_CONNECTIONS,
          cfg_max_per_ip = knob (p_max_per_ip p) (d_max_per_ip base) MAX_PER_IP,
          cfg_proxy_protocol = knob (p_proxy_protocol p) (d_proxy_protocol base) False\<rparr>)"

section \<open>Loading\<close>

text \<open>The loop over the resolved proxies, with the names and the listen addresses seen so far.\<close>

fun check_proxies ::
    "string set \<Rightarrow> (Protocol \<times> string) set \<Rightarrow> ProxyConfig list \<Rightarrow> config_error + unit" where
  "check_proxies names listens [] = Inr ()"
| "check_proxies names listens (p # ps) =
     bindE (validate p) (\<lambda>_.
       if cfg_name p \<in> names then Inl (DuplicateName (cfg_name p))
       else if (cfg_protocol p, cfg_listen p) \<in> listens then Inl (DuplicateListen (cfg_listen p))
       else check_proxies (insert (cfg_name p) names)
              (insert (cfg_protocol p, cfg_listen p) listens) ps)"

definition resolve_proxies :: "TomlFile \<Rightarrow> ProxyConfig list" where
  "resolve_proxies file =
     map (\<lambda>(i, p). from_toml i p (f_defaults file)) (enumerate 0 (f_proxies file))"

definition load ::
    "(string \<Rightarrow> string + string) \<Rightarrow> (string \<Rightarrow> string + TomlFile) \<Rightarrow> string \<Rightarrow>
     config_error + LoadedConfig" where
  "load read_to_string from_str path =
     bindE (map_err (ReadingFailed path) (read_to_string path)) (\<lambda>txt.
     bindE (map_err (ParsingFailed path) (from_str txt)) (\<lambda>file.
       if f_proxies file = [] then Inl NoProxies
       else
         let proxies = resolve_proxies file in
         bindE (check_proxies {} {} proxies) (\<lambda>_.
           Inr \<lparr>lc_proxies = proxies, lc_metrics_listen = f_metrics_listen file,
                lc_shutdown_grace = f_shutdown_grace file\<rparr>)))"

section \<open>Messages\<close>

text \<open>
  What the user reads, as \<open>{:#}\<close> prints it: the contexts from the outside in, separated by colons.
  The messages of the operating system and of the TOML crate come with the error.
\<close>

definition quoted :: "string \<Rightarrow> string" where
  "quoted s = [CHR 0x22] @ s @ [CHR 0x22]"

definition show_addr_error :: "addr_error \<Rightarrow> string" where
  "show_addr_error e =
     (case e of
        MissingPort s \<Rightarrow> quoted s @ '' is missing a :port''
      | MissingHost s \<Rightarrow> quoted s @ '' is missing a host''
      | InvalidPort s port \<Rightarrow> quoted s @ '' has an invalid port '' @ quoted port)"

definition show_config_error :: "config_error \<Rightarrow> string" where
  "show_config_error e =
     (case e of
        ListenRequired \<Rightarrow> ''--listen required in single-proxy mode''
      | TargetRequired \<Rightarrow> ''--target required in single-proxy mode''
      | InvalidListen nm a \<Rightarrow> ''proxy '' @ quoted nm @ '': invalid listen address: '' @ show_addr_error a
      | InvalidTarget nm a \<Rightarrow> ''proxy '' @ quoted nm @ '': invalid target address: '' @ show_addr_error a
      | TargetPortZero nm \<Rightarrow> ''proxy '' @ quoted nm @ '': target port must not be 0''
      | ConnectTimeoutZero nm \<Rightarrow> ''proxy '' @ quoted nm @ '': connect_timeout must be at least 1 second''
      | KnobTooLarge nm key mx \<Rightarrow>
          ''proxy '' @ quoted nm @ '': '' @ key @ '' must be at most '' @ show_nat (unat mx)
      | ReadingFailed path msg \<Rightarrow> ''reading '' @ path @ '': '' @ msg
      | ParsingFailed path msg \<Rightarrow> ''parsing '' @ path @ '': '' @ msg
      | NoProxies \<Rightarrow> ''config file defines no [[proxy]] entries''
      | DuplicateName nm \<Rightarrow> ''duplicate proxy name '' @ quoted nm
      | DuplicateListen l \<Rightarrow> ''duplicate listen address '' @ quoted l)"

section \<open>Lemmas\<close>

lemma check_host_port_iff:
  "check_host_port s = Inr p \<longleftrightarrow>
     (\<exists>host port. s = host @ CHR '':'' # port \<and> host \<noteq> [] \<and> parse_u16 port = Some p)"
proof -
  have "check_host_port s = Inr p \<longleftrightarrow>
      (\<exists>host port. rsplit_once (CHR '':'') s = Some (host, port) \<and> host \<noteq> [] \<and> parse_u16 port = Some p)"
    by (auto simp: check_host_port_def bindE_eq_Inr split: if_splits)
  then show ?thesis
    unfolding rsplit_once_Some using parse_u16_no_colon by blast
qed

lemma check_knobs_iff: "check_knobs nm ks = Inr () \<longleftrightarrow> (\<forall>(key, v, mx)\<in>set ks. v \<le> mx)"
  by (induction nm ks rule: check_knobs.induct) (auto simp: not_less)

text \<open>What a valid configuration is.\<close>

definition valid_config :: "ProxyConfig \<Rightarrow> bool" where
  "valid_config c \<longleftrightarrow>
     (\<exists>p. check_host_port (cfg_listen c) = Inr p) \<and>
     (\<exists>p. check_host_port (cfg_target c) = Inr p \<and> 0 < unat p) \<and>
     1 \<le> unat (connect_timeout_secs c) \<and>
     unat (keepalive_idle_secs c) \<le> 32767 \<and>
     unat (keepalive_interval_secs c) \<le> 32767 \<and>
     unat (keepalive_retries c) \<le> 127"

lemma validate_iff: "validate c = Inr () \<longleftrightarrow> valid_config c"
proof -
  have knobs: "check_knobs nm
        [(''keepalive_idle'', a, MAX_KEEPALIVE_SECS), (''keepalive_interval'', b, MAX_KEEPALIVE_SECS),
         (''keepalive_retries'', ucast r, MAX_KEEPALIVE_RETRIES)] = Inr () \<longleftrightarrow>
      unat a \<le> 32767 \<and> unat b \<le> 32767 \<and> unat r \<le> 127" for nm a b and r :: u32
    by (simp add: check_knobs_iff MAX_KEEPALIVE_SECS_def MAX_KEEPALIVE_RETRIES_def word_le_nat_alt
        del: check_knobs.simps)
  have zero: "w \<noteq> 0 \<longleftrightarrow> 0 < unat w" for w :: "'a::len word"
    by (simp add: unat_gt_0)
  have one: "0 < unat w \<longleftrightarrow> 1 \<le> unat w" for w :: u64
    by linarith
  show ?thesis
    unfolding validate_def valid_config_def bindE_eq_Inr map_err_eq_Inr
    using knobs by (auto simp: zero one [symmetric] split: if_splits)
qed

text \<open>What the loop over the proxies accepts, for any names and addresses seen before.\<close>

lemma check_proxies_iff:
  "check_proxies names listens ps = Inr () \<longleftrightarrow>
     (\<forall>p\<in>set ps. valid_config p) \<and>
     distinct (map cfg_name ps) \<and> cfg_name ` set ps \<inter> names = {} \<and>
     distinct (map (\<lambda>p. (cfg_protocol p, cfg_listen p)) ps) \<and>
     (\<lambda>p. (cfg_protocol p, cfg_listen p)) ` set ps \<inter> listens = {}"
proof (induction ps arbitrary: names listens)
  case (Cons p ps)
  show ?case
  proof (cases "validate p = Inr ()")
    case True
    then show ?thesis
      using validate_iff [of p] by (auto simp: Cons)
  next
    case False
    then obtain e where "validate p = Inl e" by (cases "validate p") auto
    then show ?thesis using validate_iff [of p] by simp
  qed
qed simp

lemma check_proxies_error:
  "check_proxies names listens ps = Inl e \<longleftrightarrow>
     (\<exists>before p after. ps = before @ p # after \<and> check_proxies names listens before = Inr () \<and>
        (validate p = Inl e \<or>
         validate p = Inr () \<and> cfg_name p \<in> names \<union> cfg_name ` set before \<and>
           e = DuplicateName (cfg_name p) \<or>
         validate p = Inr () \<and> cfg_name p \<notin> names \<union> cfg_name ` set before \<and>
           (cfg_protocol p, cfg_listen p) \<in>
             listens \<union> (\<lambda>p. (cfg_protocol p, cfg_listen p)) ` set before \<and>
           e = DuplicateListen (cfg_listen p)))"
    (is "?L names listens ps \<longleftrightarrow> (\<exists>before p after. ?R names listens ps before p after)")
proof (induction ps arbitrary: names listens)
  case (Cons q ps)
  show ?case
  proof (cases "validate q = Inr () \<and> cfg_name q \<notin> names \<and> (cfg_protocol q, cfg_listen q) \<notin> listens")
    case True
    let ?ns = "insert (cfg_name q) names" and ?ls = "insert (cfg_protocol q, cfg_listen q) listens"
    have "?L names listens (q # ps) \<longleftrightarrow> (\<exists>before p after. ?R ?ns ?ls ps before p after)"
      using True by (simp add: Cons)
    also have "\<dots> \<longleftrightarrow> (\<exists>before p after. ?R names listens (q # ps) (q # before) p after)"
      using True by simp
    also have "\<dots> \<longleftrightarrow> (\<exists>before p after. ?R names listens (q # ps) before p after)"
      (is "?X \<longleftrightarrow> ?Y")
    proof
      assume ?Y
      then obtain before p after where r: "?R names listens (q # ps) before p after" by blast
      show ?X
      proof (cases before)
        case Nil
        then show ?thesis using r True by auto
      next
        case (Cons x xs)
        with r have "x = q" by simp
        with r Cons have "?R names listens (q # ps) (q # xs) p after" by (simp only:)
        then show ?thesis by blast
      qed
    qed blast
    finally show ?thesis .
  next
    case False
    have later: "\<not> ?R names listens (q # ps) (x # before) p after" for x before p after
      using False by (auto simp: bindE_eq_Inr)
    have here: "?L names listens (q # ps) \<longleftrightarrow> ?R names listens (q # ps) [] q ps"
      using False by (cases "validate q") auto
    show ?thesis
    proof
      assume "\<exists>before p after. ?R names listens (q # ps) before p after"
      then obtain before p after where r: "?R names listens (q # ps) before p after" by blast
      with later have "before = []" by (cases before) blast+
      with r have "p = q \<and> after = ps" by simp
      with r \<open>before = []\<close> have "?R names listens (q # ps) [] q ps" by blast
      then show "?L names listens (q # ps)" by (rule here [THEN iffD2])
    qed (use here in blast)
  qed
qed simp

lemma check_proxies_error_empty:
  "check_proxies {} {} ps = Inl e \<longleftrightarrow>
     (\<exists>before p after. ps = before @ p # after \<and> check_proxies {} {} before = Inr () \<and>
        (validate p = Inl e \<or>
         validate p = Inr () \<and> cfg_name p \<in> set (map cfg_name before) \<and> e = DuplicateName (cfg_name p) \<or>
         validate p = Inr () \<and> cfg_name p \<notin> set (map cfg_name before) \<and>
           (cfg_protocol p, cfg_listen p) \<in> set (map (\<lambda>p. (cfg_protocol p, cfg_listen p)) before) \<and>
           e = DuplicateListen (cfg_listen p)))"
  by (simp only: check_proxies_error set_map Un_empty_left)

lemma length_resolve_proxies [simp]: "length (resolve_proxies f) = length (f_proxies f)"
  by (simp add: resolve_proxies_def)

lemma resolve_proxies_nth:
  "i < length (f_proxies f) \<Longrightarrow> resolve_proxies f ! i = from_toml i (f_proxies f ! i) (f_defaults f)"
  by (simp add: resolve_proxies_def nth_enumerate_eq)

lemma expand_bare_port: "parse_u16 s = Some p \<Longrightarrow> check_host_port (expand_listen s) = Inr p"
proof -
  assume "parse_u16 s = Some p"
  then have "expand_listen s = ''0.0.0.0'' @ CHR '':'' # s" by (simp add: expand_listen_def)
  with \<open>parse_u16 s = Some p\<close> show ?thesis
    unfolding check_host_port_iff by blast
qed

lemma auto_name_index:
  assumes "show_nat i @ CHR '':'' # r = show_nat j @ CHR '':'' # r'"
  shows "i = j"
proof -
  have no: "CHR '':'' \<notin> set (show_nat n)" for n
    using show_nat_digits [of n] by (auto simp: list_all_iff dest: digit_not_punct)
  have "takeWhile (\<lambda>x. x \<noteq> CHR '':'') (show_nat i @ CHR '':'' # r) =
      takeWhile (\<lambda>x. x \<noteq> CHR '':'') (show_nat j @ CHR '':'' # r')"
    using assms by simp
  then have "show_nat i = show_nat j"
    by (simp only: takeWhile_neq_app [OF no])
  then show ?thesis by (rule show_nat_inject)
qed

text \<open>What the two constructors guarantee of their results.\<close>

lemma load_ok:
  assumes "load read_to_string from_str path = Inr lc"
  shows "lc_proxies lc \<noteq> [] \<and> check_proxies {} {} (lc_proxies lc) = Inr ()"
proof -
  obtain tf where "f_proxies tf \<noteq> []" and "check_proxies {} {} (resolve_proxies tf) = Inr ()"
      and "lc_proxies lc = resolve_proxies tf"
    using assms by (auto simp: load_def bindE_eq_Inr Let_def split: if_splits)
  then show ?thesis by (metis length_0_conv length_resolve_proxies)
qed

lemma from_cli_ok: "from_cli a = Inr c \<Longrightarrow> validate c = Inr ()"
  by (auto simp: from_cli_def bindE_eq_Inr Let_def)

text \<open>Only \<open>from_cli\<close> reports a missing flag, and only for a flag that is missing.\<close>

definition missing_flag :: "config_error \<Rightarrow> bool" where
  "missing_flag e \<longleftrightarrow> e = ListenRequired \<or> e = TargetRequired"

lemma check_knobs_flag: "check_knobs nm ks = Inl e \<Longrightarrow> \<not> missing_flag e"
  by (induction ks) (auto simp: missing_flag_def split: if_splits)

lemma validate_flag: "validate c = Inl e \<Longrightarrow> \<not> missing_flag e"
  by (auto simp: validate_def bindE_eq_Inl map_err_def dest: check_knobs_flag
      split: if_splits sum.splits) (simp_all add: missing_flag_def)

lemma check_proxies_flag: "check_proxies ns ls ps = Inl e \<Longrightarrow> \<not> missing_flag e"
  by (induction ps arbitrary: ns ls)
    (auto simp: bindE_eq_Inl validate_flag split: if_splits, simp_all add: missing_flag_def)

lemma load_flag: "load read_to_string from_str path = Inl e \<Longrightarrow> \<not> missing_flag e"
  by (auto simp: load_def bindE_eq_Inl map_err_def Let_def dest: check_proxies_flag
      split: if_splits sum.splits) (simp_all add: missing_flag_def)

lemma from_cli_flag:
  "arg_listen a \<noteq> None \<Longrightarrow> arg_target a \<noteq> None \<Longrightarrow> from_cli a = Inl e \<Longrightarrow> \<not> missing_flag e"
  by (auto simp: from_cli_def bindE_eq_Inl Let_def dest: validate_flag)

section \<open>Properties\<close>

text \<open>
  C25: \<open>validate\<close> accepts exactly the configurations that can work: both addresses are a non-empty host
  and a port, the target port is not 0, the connect timeout is at least a second, and the
  keepalive values are within what the kernel takes.
\<close>

theorem validate_exact:
  "validate c = Inr () \<longleftrightarrow>
     (\<exists>h q p. cfg_listen c = h @ CHR '':'' # q \<and> h \<noteq> [] \<and> parse_u16 q = Some p) \<and>
     (\<exists>h q p. cfg_target c = h @ CHR '':'' # q \<and> h \<noteq> [] \<and> parse_u16 q = Some p \<and> 0 < unat p) \<and>
     1 \<le> unat (connect_timeout_secs c) \<and> unat (keepalive_idle_secs c) \<le> 32767 \<and>
     unat (keepalive_interval_secs c) \<le> 32767 \<and> unat (keepalive_retries c) \<le> 127"
  unfolding validate_iff valid_config_def check_host_port_iff by blast

text \<open>
  A bare port number is a usable listen address: whatever parses as a \<open>u16\<close> expands to an
  address on all IPv4 interfaces that \<open>check_host_port\<close> accepts with that very port.
\<close>

theorem bare_port_listens:
  assumes "parse_u16 s = Some p"
  shows "expand_listen s = ''0.0.0.0:'' @ s \<and> check_host_port (expand_listen s) = Inr p"
  using expand_bare_port [OF assms] assms by (simp add: expand_listen_def)

theorem bare_port_listens_witness:
  "expand_listen ''587'' = ''0.0.0.0:'' @ ''587'' \<and> check_host_port (expand_listen ''587'') = Inr 587"
proof -
  have "parse_u16 ''587'' = Some 587"
    by (simp add: parse_u16_eq strip_plus_def is_digit_def digit_val_def)
  then show ?thesis by (rule bare_port_listens)
qed

text \<open>
  C36: The loader succeeds exactly when the file can be read and parsed and has a proxy, every
  resolved proxy is valid, no two share a name and no two share a protocol and a listen address;
  it then returns the resolved proxies in the file's order and the two global settings.
\<close>

theorem load_exact:
  "load read_to_string from_str path = Inr lc \<longleftrightarrow>
     (\<exists>txt file. read_to_string path = Inr txt \<and> from_str txt = Inr file \<and> f_proxies file \<noteq> [] \<and>
        lc = \<lparr>lc_proxies = resolve_proxies file, lc_metrics_listen = f_metrics_listen file,
              lc_shutdown_grace = f_shutdown_grace file\<rparr> \<and>
        list_all (\<lambda>p. validate p = Inr ()) (resolve_proxies file) \<and>
        distinct (map cfg_name (resolve_proxies file)) \<and>
        distinct (map (\<lambda>p. (cfg_protocol p, cfg_listen p)) (resolve_proxies file)))"
proof -
  have "check_proxies {} {} ps = Inr () \<longleftrightarrow> list_all (\<lambda>p. validate p = Inr ()) ps \<and>
      distinct (map cfg_name ps) \<and> distinct (map (\<lambda>p. (cfg_protocol p, cfg_listen p)) ps)" for ps
    by (simp add: check_proxies_iff validate_iff list_all_iff)
  then show ?thesis
    by (auto simp: load_def bindE_eq_Inr Let_def split: if_splits)
qed

text \<open>
  Every tuning knob of a resolved proxy is the entry's own value if it has one, else the value of
  the \<open>[defaults]\<close> table if that has one, else the documented constant.
\<close>

theorem knob_precedence:
  assumes "i < length (f_proxies file)"
  defines "p \<equiv> f_proxies file ! i" and "b \<equiv> f_defaults file" and "c \<equiv> resolve_proxies file ! i"
  shows "connect_timeout_secs c = knob (p_connect_timeout p) (d_connect_timeout b) 3 \<and>
    keepalive_idle_secs c = knob (p_keepalive_idle p) (d_keepalive_idle b) 60 \<and>
    keepalive_interval_secs c = knob (p_keepalive_interval p) (d_keepalive_interval b) 10 \<and>
    keepalive_retries c = knob (p_keepalive_retries p) (d_keepalive_retries b) 6 \<and>
    user_timeout_ms c = knob (p_user_timeout_ms p) (d_user_timeout_ms b) 90000 \<and>
    idle_timeout_secs c = knob (p_idle_timeout p) (d_idle_timeout b) 300 \<and>
    half_close_timeout_secs c = knob (p_half_close_timeout p) (d_half_close_timeout b) 30 \<and>
    max_connections c = knob (p_max_connections p) (d_max_connections b) 32000 \<and>
    cfg_max_per_ip c = knob (p_max_per_ip p) (d_max_per_ip b) 320 \<and>
    cfg_proxy_protocol c = knob (p_proxy_protocol p) (d_proxy_protocol b) False \<and>
    knob (Some v) base dflt = v \<and> knob None (Some w) dflt = w \<and> knob None None dflt = dflt"
  using assms(1) unfolding p_def b_def c_def
  by (simp add: resolve_proxies_nth from_toml_def Let_def default_consts knob_def)

definition no_defaults :: TomlTuning where
  "no_defaults =
     \<lparr>d_connect_timeout = None, d_keepalive_idle = None, d_keepalive_interval = None,
      d_keepalive_retries = None, d_user_timeout_ms = None, d_idle_timeout = None,
      d_half_close_timeout = None, d_max_connections = None, d_max_per_ip = None,
      d_proxy_protocol = None\<rparr>"

text \<open>A file with one proxy without a name, which overrides only the connect timeout.\<close>

definition small_file :: TomlFile where
  "small_file =
     \<lparr>f_defaults = no_defaults\<lparr>d_connect_timeout := Some 5, d_max_per_ip := Some 7\<rparr>,
      f_metrics_listen = None, f_shutdown_grace = Some 42,
      f_proxies =
        [\<lparr>p_name = None, p_listen = ''8080'', p_target = ''a:1'', p_protocol = Tcp,
          p_connect_timeout = Some 99, p_keepalive_idle = None, p_keepalive_interval = None,
          p_keepalive_retries = None, p_user_timeout_ms = None, p_idle_timeout = None,
          p_half_close_timeout = None, p_max_connections = None, p_max_per_ip = None,
          p_proxy_protocol = None\<rparr>]\<rparr>"

theorem knob_precedence_witness:
  "connect_timeout_secs (resolve_proxies small_file ! 0) = 99 \<and>
   cfg_max_per_ip (resolve_proxies small_file ! 0) = 7 \<and>
   idle_timeout_secs (resolve_proxies small_file ! 0) = 300"
proof -
  have "0 < length (f_proxies small_file)" by (simp add: small_file_def)
  note eqs = knob_precedence [OF this]
  have "f_proxies small_file ! 0 = hd (f_proxies small_file)" by (simp add: small_file_def)
  with eqs show ?thesis by (simp add: small_file_def no_defaults_def knob_def)
qed

text \<open>
  Two entries without a name never get the same generated name, wherever they stand in the file
  and whatever their addresses: the loader never refuses a file because of a generated name's
  clash with another generated one.
\<close>

theorem generated_names_distinct:
  assumes "p_name p = None" and "p_name q = None" and "i \<noteq> j"
  shows "cfg_name (from_toml i p base) \<noteq> cfg_name (from_toml j q base')"
proof
  assume "cfg_name (from_toml i p base) = cfg_name (from_toml j q base')"
  then have "\<exists>r r'. show_nat i @ CHR '':'' # r = show_nat j @ CHR '':'' # r'"
    using assms(1,2) by (auto simp: from_toml_def Let_def)
  then show False using auto_name_index assms(3) by blast
qed

theorem generated_names_distinct_witness:
  "cfg_name (from_toml 1 (f_proxies small_file ! 0) no_defaults) \<noteq>
   cfg_name (from_toml 11 (f_proxies small_file ! 0) no_defaults)"
  by (rule generated_names_distinct) (simp_all add: small_file_def)

text \<open>
  The loader reports the first offending proxy: everything before it is fine, and the error is
  its own validation error, or else its name or its listen address, which an earlier proxy has.
\<close>

theorem load_reports_first_offender:
  "check_proxies {} {} ps = Inl e \<longleftrightarrow>
     (\<exists>before p after. ps = before @ p # after \<and> check_proxies {} {} before = Inr () \<and>
        (validate p = Inl e \<or>
         validate p = Inr () \<and> cfg_name p \<in> set (map cfg_name before) \<and> e = DuplicateName (cfg_name p) \<or>
         validate p = Inr () \<and> cfg_name p \<notin> set (map cfg_name before) \<and>
           (cfg_protocol p, cfg_listen p) \<in> set (map (\<lambda>p. (cfg_protocol p, cfg_listen p)) before) \<and>
           e = DuplicateListen (cfg_listen p)))"
  by (rule check_proxies_error_empty)

text \<open>
  Every complaint of the validation starts by naming the proxy it is about, so that a file with many
  entries can be corrected.
\<close>

theorem validation_names_proxy:
  assumes "validate c = Inl e"
  shows "\<exists>complaint. show_config_error e = ''proxy '' @ quoted (cfg_name c) @ '': '' @ complaint"
proof -
  have knobs: "check_knobs nm ks = Inl e \<Longrightarrow> \<exists>key mx. e = KnobTooLarge nm key mx" for nm ks
    by (induction nm ks rule: check_knobs.induct) (auto split: if_splits)
  show ?thesis
  proof (cases "check_host_port (cfg_listen c)")
    case (Inl a)
    then show ?thesis using assms by (auto simp: validate_def show_config_error_def)
  next
    case listen: (Inr p)
    show ?thesis
    proof (cases "check_host_port (cfg_target c)")
      case (Inl a)
      then show ?thesis using assms listen by (auto simp: validate_def show_config_error_def)
    next
      case (Inr q)
      then show ?thesis
        using assms listen
        by (auto simp: validate_def show_config_error_def simp del: check_knobs.simps split: if_splits
            dest!: knobs)
    qed
  qed
qed

definition default_config :: ProxyConfig where
  "default_config =
     \<lparr>cfg_name = ''n'', cfg_listen = ''0.0.0.0:1'', cfg_target = ''a:1'', cfg_protocol = Tcp,
      connect_timeout_secs = 3, keepalive_idle_secs = 60, keepalive_interval_secs = 10,
      keepalive_retries = 6, user_timeout_ms = 90000, idle_timeout_secs = 300,
      half_close_timeout_secs = 30, max_connections = 32000, cfg_max_per_ip = 320,
      cfg_proxy_protocol = False\<rparr>"

theorem validation_names_proxy_witness:
  "\<exists>complaint. show_config_error (InvalidListen ''n'' (MissingPort ''web'')) =
     ''proxy '' @ quoted ''n'' @ '': '' @ complaint"
proof -
  have "validate (default_config\<lparr>cfg_listen := ''web''\<rparr>) = Inl (InvalidListen ''n'' (MissingPort ''web''))"
    by (simp add: validate_def check_host_port_def rsplit_once_def default_config_def)
  from validation_names_proxy [OF this] show ?thesis by (simp add: default_config_def)
qed

text \<open>
  C40: Single-proxy mode and config mode agree: a configuration built from the command line is the one
  the loader resolves from an entry that spells out the same name, addresses and knobs, whatever
  the \<open>[defaults]\<close> table says; and it is valid.
\<close>

definition entry_of_args :: "string \<Rightarrow> string \<Rightarrow> string \<Rightarrow> Args \<Rightarrow> TomlProxy" where
  "entry_of_args nm listen target a =
     \<lparr>p_name = Some nm, p_listen = listen, p_target = target, p_protocol = arg_protocol a,
      p_connect_timeout = Some (arg_connect_timeout a),
      p_keepalive_idle = Some (arg_keepalive_idle a),
      p_keepalive_interval = Some (arg_keepalive_interval a),
      p_keepalive_retries = Some (arg_keepalive_retries a),
      p_user_timeout_ms = Some (arg_user_timeout_ms a),
      p_idle_timeout = Some (arg_idle_timeout a),
      p_half_close_timeout = Some (arg_half_close_timeout a),
      p_max_connections = Some (arg_max_connections a),
      p_max_per_ip = Some (arg_max_per_ip a),
      p_proxy_protocol = Some (arg_proxy_protocol a)\<rparr>"

theorem cli_and_toml_agree:
  "from_cli a = Inr c \<longleftrightarrow>
     (\<exists>l t. arg_listen a = Some l \<and> arg_target a = Some t \<and> validate c = Inr () \<and>
        c = from_toml i (entry_of_args (expand_listen l @ '' -> '' @ t) l t a) base)"
proof -
  have "from_cli a = Inr c \<longleftrightarrow>
     (\<exists>l t. arg_listen a = Some l \<and> arg_target a = Some t \<and>
        from_toml i (entry_of_args (expand_listen l @ '' -> '' @ t) l t a) base = c \<and> validate c = Inr ())"
    by (auto simp: from_cli_def bindE_eq_Inr Let_def from_toml_def entry_of_args_def knob_def)
  then show ?thesis by auto
qed

end
