(* ===== verification/Cli_Args.thy ===== *)
theory Cli_Args
  imports Config
begin

text \<open>
  The declarations on \<open>Args\<close> in \<open>src/cli.rs\<close>: the required group \<open>mode\<close>, what conflicts with \<open>--config\<close>,
  what \<open>--listen\<close> and \<open>--target\<close> require, and the default of every flag. clap reads them; it is a
  parameter of what is proved here, with its documented contract on these declarations.
\<close>

section \<open>Declarations\<close>

text \<open>The flags given on a command line, each with its parsed value; a switch is given or not.\<close>

record given_args =
  g_config :: "string option"
  g_listen :: "string option"
  g_target :: "string option"
  g_protocol :: "Protocol option"
  g_connect_timeout :: "u64 option"
  g_keepalive_idle :: "u64 option"
  g_keepalive_interval :: "u64 option"
  g_keepalive_retries :: "u32 option"
  g_user_timeout_ms :: "u32 option"
  g_idle_timeout :: "u64 option"
  g_half_close_timeout :: "u64 option"
  g_max_connections :: "u32 option"
  g_max_per_ip :: "u32 option"
  g_proxy_protocol :: bool
  g_shutdown_grace :: "u64 option"
  g_metrics_listen :: "string option"
  g_log_level :: "string option"

definition mode_group :: "string list" where
  "mode_group = [''config'', ''listen'']"

definition config_conflicts :: "string list" where
  "config_conflicts =
     [''listen'', ''target'', ''protocol'', ''connect_timeout'', ''keepalive_idle'', ''keepalive_interval'',
      ''keepalive_retries'', ''user_timeout_ms'', ''idle_timeout'', ''half_close_timeout'',
      ''max_connections'', ''max_per_ip'', ''proxy_protocol'']"

definition requires :: "(string \<times> string) list" where
  "requires = [(''listen'', ''target''), (''target'', ''listen'')]"

text \<open>The ids of the flags given explicitly: a default is not given.\<close>

definition presences :: "given_args \<Rightarrow> (string \<times> bool) list" where
  "presences g =
     [(''config'', g_config g \<noteq> None), (''listen'', g_listen g \<noteq> None), (''target'', g_target g \<noteq> None),
      (''protocol'', g_protocol g \<noteq> None), (''connect_timeout'', g_connect_timeout g \<noteq> None),
      (''keepalive_idle'', g_keepalive_idle g \<noteq> None),
      (''keepalive_interval'', g_keepalive_interval g \<noteq> None),
      (''keepalive_retries'', g_keepalive_retries g \<noteq> None),
      (''user_timeout_ms'', g_user_timeout_ms g \<noteq> None), (''idle_timeout'', g_idle_timeout g \<noteq> None),
      (''half_close_timeout'', g_half_close_timeout g \<noteq> None),
      (''max_connections'', g_max_connections g \<noteq> None), (''max_per_ip'', g_max_per_ip g \<noteq> None),
      (''proxy_protocol'', g_proxy_protocol g), (''shutdown_grace'', g_shutdown_grace g \<noteq> None),
      (''metrics_listen'', g_metrics_listen g \<noteq> None), (''log_level'', g_log_level g \<noteq> None)]"

definition is_given :: "given_args \<Rightarrow> string \<Rightarrow> bool" where
  "is_given g x \<longleftrightarrow> map_of (presences g) x = Some True"

text \<open>
  What the declarations allow: exactly one flag of the group (it is required and not \<open>multiple\<close>), no
  conflict, and every requirement met.
\<close>

definition allowed :: "given_args \<Rightarrow> bool" where
  "allowed g \<longleftrightarrow>
     length (filter (is_given g) mode_group) = 1 \<and>
     (is_given g ''config'' \<longrightarrow> list_all (\<lambda>x. \<not> is_given g x) config_conflicts) \<and>
     list_all (\<lambda>(x, y). is_given g x \<longrightarrow> is_given g y) requires"

section \<open>Defaults\<close>

definition or_default :: "'a option \<Rightarrow> 'a \<Rightarrow> 'a" where
  "or_default v d = (case v of Some x \<Rightarrow> x | None \<Rightarrow> d)"

text \<open>\<open>env\<close> is the value of \<open>RUST_LOG\<close>, if it is set.\<close>

definition fill_args :: "string option \<Rightarrow> given_args \<Rightarrow> Args" where
  "fill_args env g =
     \<lparr>arg_config = g_config g, arg_listen = g_listen g, arg_target = g_target g,
      arg_protocol = or_default (g_protocol g) Tcp,
      arg_connect_timeout = or_default (g_connect_timeout g) CONNECT_TIMEOUT_SECS,
      arg_keepalive_idle = or_default (g_keepalive_idle g) KEEPALIVE_IDLE_SECS,
      arg_keepalive_interval = or_default (g_keepalive_interval g) KEEPALIVE_INTERVAL_SECS,
      arg_keepalive_retries = or_default (g_keepalive_retries g) KEEPALIVE_RETRIES,
      arg_user_timeout_ms = or_default (g_user_timeout_ms g) USER_TIMEOUT_MS,
      arg_idle_timeout = or_default (g_idle_timeout g) IDLE_TIMEOUT_SECS,
      arg_half_close_timeout = or_default (g_half_close_timeout g) HALF_CLOSE_TIMEOUT_SECS,
      arg_max_connections = or_default (g_max_connections g) MAX_CONNECTIONS,
      arg_max_per_ip = or_default (g_max_per_ip g) MAX_PER_IP,
      arg_proxy_protocol = g_proxy_protocol g,
      arg_shutdown_grace = g_shutdown_grace g,
      arg_metrics_listen = g_metrics_listen g,
      arg_log_level = or_default (g_log_level g) (or_default env ''info'')\<rparr>"

text \<open>
  The contract of the parser: an accepted command line meets the declarations, its missing flags have
  their defaults, and its log level went through \<open>parse_log_level\<close>.
\<close>

definition clap_contract ::
    "(string \<Rightarrow> bool) \<Rightarrow> (string \<Rightarrow> string option) \<Rightarrow> string option \<Rightarrow>
     (given_args \<Rightarrow> 'e + Args) \<Rightarrow> bool" where
  "clap_contract level_ok filter_err env clap \<longleftrightarrow>
     (\<forall>g a. clap g = Inr a \<longrightarrow> allowed g \<and> a = fill_args env g \<and>
        parse_log_level level_ok filter_err (arg_log_level a) = Inr (arg_log_level a))"

section \<open>Lemmas\<close>

lemma is_given_simps [simp]:
  "is_given g ''config'' \<longleftrightarrow> g_config g \<noteq> None"
  "is_given g ''listen'' \<longleftrightarrow> g_listen g \<noteq> None"
  "is_given g ''target'' \<longleftrightarrow> g_target g \<noteq> None"
  "is_given g ''protocol'' \<longleftrightarrow> g_protocol g \<noteq> None"
  "is_given g ''connect_timeout'' \<longleftrightarrow> g_connect_timeout g \<noteq> None"
  "is_given g ''keepalive_idle'' \<longleftrightarrow> g_keepalive_idle g \<noteq> None"
  "is_given g ''keepalive_interval'' \<longleftrightarrow> g_keepalive_interval g \<noteq> None"
  "is_given g ''keepalive_retries'' \<longleftrightarrow> g_keepalive_retries g \<noteq> None"
  "is_given g ''user_timeout_ms'' \<longleftrightarrow> g_user_timeout_ms g \<noteq> None"
  "is_given g ''idle_timeout'' \<longleftrightarrow> g_idle_timeout g \<noteq> None"
  "is_given g ''half_close_timeout'' \<longleftrightarrow> g_half_close_timeout g \<noteq> None"
  "is_given g ''max_connections'' \<longleftrightarrow> g_max_connections g \<noteq> None"
  "is_given g ''max_per_ip'' \<longleftrightarrow> g_max_per_ip g \<noteq> None"
  "is_given g ''proxy_protocol'' \<longleftrightarrow> g_proxy_protocol g"
  by (simp_all add: is_given_def presences_def)

text \<open>Everything but the file and the global flags, as it is when no such flag is given.\<close>

definition config_only :: "given_args \<Rightarrow> bool" where
  "config_only g \<longleftrightarrow>
     g_listen g = None \<and> g_target g = None \<and> g_protocol g = None \<and> g_connect_timeout g = None \<and>
     g_keepalive_idle g = None \<and> g_keepalive_interval g = None \<and> g_keepalive_retries g = None \<and>
     g_user_timeout_ms g = None \<and> g_idle_timeout g = None \<and> g_half_close_timeout g = None \<and>
     g_max_connections g = None \<and> g_max_per_ip g = None \<and> \<not> g_proxy_protocol g"

lemma allowed_iff:
  "allowed g \<longleftrightarrow>
     (if g_config g = None then g_listen g \<noteq> None \<and> g_target g \<noteq> None else config_only g)"
  by (auto simp: allowed_def mode_group_def config_conflicts_def requires_def config_only_def)

end
