(* ===== verification/Metrics.thy ===== *)
theory Metrics
  imports Config
begin

text \<open>
  The metric families of \<open>src/metrics.rs\<close> and the calls the proxies make on them. The registry is the
  prometheus crate's; here a component yields the list of its calls (\<open>metric_op\<close>), and
  \<open>counted\<close> and \<open>gauge\<close> read from such a list what the crate documents: a counter child is the sum
  of its increments, a gauge child the last value set, moved by \<open>inc\<close> and \<open>dec\<close>. The crate's
  \<open>with_label_values\<close> panics on a wrong number of label values, \<open>well_labelled\<close> says it does not.
  The gauges that \<open>run_graceful\<close> of \<open>src/proxy/mod.rs\<close> publishes are here too.
\<close>

section \<open>Families\<close>

datatype family =
    ConnectionsTotal | ConnectionsRejected | ConnectFailures | ConnectTimeouts | BytesTotal
  | ConnectionsClosed | Active | LimitMaxConnections | LimitMaxPerIp

datatype metric_kind = IntCounter | IntGauge

record Opts =
  metric_kind :: metric_kind
  metric_name :: string
  metric_help :: string
  metric_labels :: "string list"

fun family_opts :: "family \<Rightarrow> Opts" where
  "family_opts ConnectionsTotal =
     \<lparr>metric_kind = IntCounter, metric_name = ''oxiduct_connections_total'',
      metric_help = ''Connections accepted / UDP sessions opened'',
      metric_labels = [''proxy'', ''protocol'']\<rparr>"
| "family_opts ConnectionsRejected =
     \<lparr>metric_kind = IntCounter, metric_name = ''oxiduct_connections_rejected_total'',
      metric_help = ''Connections refused by the connection limiter'',
      metric_labels = [''proxy'', ''reason'']\<rparr>"
| "family_opts ConnectFailures =
     \<lparr>metric_kind = IntCounter, metric_name = ''oxiduct_connect_failures_total'',
      metric_help = ''Upstream TCP connect failures'', metric_labels = [''proxy'']\<rparr>"
| "family_opts ConnectTimeouts =
     \<lparr>metric_kind = IntCounter, metric_name = ''oxiduct_connect_timeouts_total'',
      metric_help = ''Upstream TCP connect timeouts'', metric_labels = [''proxy'']\<rparr>"
| "family_opts BytesTotal =
     \<lparr>metric_kind = IntCounter, metric_name = ''oxiduct_bytes_total'',
      metric_help = ''Bytes relayed'', metric_labels = [''proxy'', ''direction'']\<rparr>"
| "family_opts ConnectionsClosed =
     \<lparr>metric_kind = IntCounter, metric_name = ''oxiduct_connections_closed_total'',
      metric_help = ''Connections / sessions closed, by reason'',
      metric_labels = [''proxy'', ''reason'']\<rparr>"
| "family_opts Active =
     \<lparr>metric_kind = IntGauge, metric_name = ''oxiduct_active_connections'',
      metric_help = ''Currently active connections / sessions'', metric_labels = [''proxy'']\<rparr>"
| "family_opts LimitMaxConnections =
     \<lparr>metric_kind = IntGauge, metric_name = ''oxiduct_max_connections'',
      metric_help = ''Configured total connection cap (0 = unlimited)'',
      metric_labels = [''proxy'']\<rparr>"
| "family_opts LimitMaxPerIp =
     \<lparr>metric_kind = IntGauge, metric_name = ''oxiduct_max_per_ip'',
      metric_help = ''Configured per-source-IP connection cap (0 = unlimited)'',
      metric_labels = [''proxy'']\<rparr>"

text \<open>
  \<open>Metrics::new\<close>: registers the families one after the other; \<open>register\<close> stands for the
  registry's answer to one more name, and \<open>None\<close> for the panic of \<open>expect\<close>.
\<close>

definition families :: "family list" where
  "families = [ConnectionsTotal, ConnectionsRejected, ConnectFailures, ConnectTimeouts, BytesTotal,
     ConnectionsClosed, Active, LimitMaxConnections, LimitMaxPerIp]"

fun register_all :: "('r \<Rightarrow> Opts \<Rightarrow> 'r option) \<Rightarrow> 'r \<Rightarrow> family list \<Rightarrow> 'r option" where
  "register_all register r [] = Some r"
| "register_all register r (f # fs) =
     (case register r (family_opts f) of
        None \<Rightarrow> None
      | Some r' \<Rightarrow> register_all register r' fs)"

definition new_metrics :: "('r \<Rightarrow> Opts \<Rightarrow> 'r option) \<Rightarrow> 'r \<Rightarrow> 'r option" where
  "new_metrics register r0 = register_all register r0 families"

section \<open>Calls\<close>

text \<open>One call on the child a family has for some label values.\<close>

datatype metric_op =
    Inc family "string list"
  | IncBy family "string list" u64
  | Dec family "string list"
  | Set family "string list" int

fun op_family :: "metric_op \<Rightarrow> family" where
  "op_family (Inc f ls) = f"
| "op_family (IncBy f ls n) = f"
| "op_family (Dec f ls) = f"
| "op_family (Set f ls v) = f"

fun op_labels :: "metric_op \<Rightarrow> string list" where
  "op_labels (Inc f ls) = ls"
| "op_labels (IncBy f ls n) = ls"
| "op_labels (Dec f ls) = ls"
| "op_labels (Set f ls v) = ls"

text \<open>The call names a child: as many values as the family has labels; counters never go down.\<close>

definition well_labelled :: "metric_op \<Rightarrow> bool" where
  "well_labelled op \<longleftrightarrow>
     length (op_labels op) = length (metric_labels (family_opts (op_family op))) \<and>
     (metric_kind (family_opts (op_family op)) = IntCounter \<longrightarrow>
        (case op of Inc _ _ \<Rightarrow> True | IncBy _ _ _ \<Rightarrow> True | _ \<Rightarrow> False))"

text \<open>A call of one proxy: every family the proxies use has the proxy's name as its first label.\<close>

definition proxy_op :: "string \<Rightarrow> metric_op \<Rightarrow> bool" where
  "proxy_op nm op \<longleftrightarrow> well_labelled op \<and> hd (op_labels op) = nm"

fun amount :: "family \<Rightarrow> string list \<Rightarrow> metric_op \<Rightarrow> nat" where
  "amount f ls (Inc g ms) = (if g = f \<and> ms = ls then 1 else 0)"
| "amount f ls (IncBy g ms n) = (if g = f \<and> ms = ls then unat n else 0)"
| "amount f ls (Dec g ms) = 0"
| "amount f ls (Set g ms v) = 0"

definition counted :: "family \<Rightarrow> string list \<Rightarrow> metric_op list \<Rightarrow> nat" where
  "counted f ls ops = sum_list (map (amount f ls) ops)"

lemma counted_simps [simp]:
  "counted f ls [] = 0"
  "counted f ls (op # ops) = amount f ls op + counted f ls ops"
  "counted f ls (ops @ ops') = counted f ls ops + counted f ls ops'"
  by (simp_all add: counted_def)

fun gauge_step :: "family \<Rightarrow> string list \<Rightarrow> int \<Rightarrow> metric_op \<Rightarrow> int" where
  "gauge_step f ls x (Inc g ms) = (if g = f \<and> ms = ls then x + 1 else x)"
| "gauge_step f ls x (IncBy g ms n) = (if g = f \<and> ms = ls then x + int (unat n) else x)"
| "gauge_step f ls x (Dec g ms) = (if g = f \<and> ms = ls then x - 1 else x)"
| "gauge_step f ls x (Set g ms v) = (if g = f \<and> ms = ls then v else x)"

definition gauge :: "family \<Rightarrow> string list \<Rightarrow> int \<Rightarrow> metric_op list \<Rightarrow> int" where
  "gauge f ls x ops = foldl (gauge_step f ls) x ops"

lemma gauge_simps [simp]:
  "gauge f ls x [] = x"
  "gauge f ls x (op # ops) = gauge f ls (gauge_step f ls x op) ops"
  "gauge f ls x (ops @ ops') = gauge f ls (gauge f ls x ops) ops'"
  by (simp_all add: gauge_def)

section \<open>The limits as gauges\<close>

definition publish_limits :: "ProxyConfig \<Rightarrow> metric_op list" where
  "publish_limits cfg =
     [Set LimitMaxConnections [cfg_name cfg] (int (unat (max_connections cfg))),
      Set LimitMaxPerIp [cfg_name cfg] (int (unat (cfg_max_per_ip cfg)))]"

text \<open>Which of the two proxies \<open>run_graceful\<close> of \<open>src/proxy/mod.rs\<close> starts after that.\<close>

definition proxy_run ::
    "(ProxyConfig \<Rightarrow> 'r) \<Rightarrow> (ProxyConfig \<Rightarrow> 'r) \<Rightarrow> ProxyConfig \<Rightarrow> metric_op list \<times> 'r" where
  "proxy_run tcp_run udp_run cfg =
     (publish_limits cfg,
      (case cfg_protocol cfg of Tcp \<Rightarrow> tcp_run cfg | Udp \<Rightarrow> udp_run cfg))"

section \<open>Registering\<close>

text \<open>
  What the crate documents of a registry whose registered names are \<open>names r\<close>: a description with a
  new name is taken.
\<close>

definition takes_fresh :: "('r \<Rightarrow> string set) \<Rightarrow> ('r \<Rightarrow> Opts \<Rightarrow> 'r option) \<Rightarrow> bool" where
  "takes_fresh names register \<longleftrightarrow>
     (\<forall>r fo. metric_name fo \<notin> names r \<longrightarrow>
        (\<exists>r'. register r fo = Some r' \<and> names r' = insert (metric_name fo) (names r)))"

lemma register_all_ok:
  assumes "takes_fresh names register"
  shows "distinct (map (metric_name \<circ> family_opts) fs) \<Longrightarrow>
   (metric_name \<circ> family_opts) ` set fs \<inter> names r = {} \<Longrightarrow>
   \<exists>r'. register_all register r fs = Some r' \<and>
     names r' = names r \<union> (metric_name \<circ> family_opts) ` set fs"
proof (induction fs arbitrary: r)
  case (Cons f fs)
  obtain r1 where r1: "register r (family_opts f) = Some r1"
      "names r1 = insert (metric_name (family_opts f)) (names r)"
    using assms Cons.prems unfolding takes_fresh_def by force
  have "(metric_name \<circ> family_opts) ` set fs \<inter> names r1 = {}"
    using Cons.prems r1 by auto
  then show ?case using Cons.IH [of r1] Cons.prems r1 by auto
qed simp

text \<open>
  \<open>Metrics::new\<close> never panics: on an empty registry that takes every new name, all nine
  registrations succeed (the names are pairwise distinct), and every family is registered.
\<close>

theorem new_metrics_registers:
  assumes "takes_fresh names register" and "names r0 = {}"
  shows "\<exists>r. new_metrics register r0 = Some r \<and>
    names r = range (metric_name \<circ> family_opts)"
proof -
  have d: "distinct (map (metric_name \<circ> family_opts) families)"
    by (simp add: families_def)
  have all: "UNIV = set families"
    using family.exhaust by (auto simp: families_def)
  show ?thesis
    using register_all_ok [OF assms(1) d, of r0] assms(2) by (simp add: new_metrics_def all)
qed

text \<open>A registry as the list of the descriptions registered so far, refusing a duplicate name.\<close>

definition list_register :: "Opts list \<Rightarrow> Opts \<Rightarrow> Opts list option" where
  "list_register r fo =
     (if metric_name fo \<in> set (map metric_name r) then None else Some (r @ [fo]))"

theorem new_metrics_registers_witness:
  "\<exists>r. new_metrics list_register [] = Some r \<and>
     set (map metric_name r) = range (metric_name \<circ> family_opts)"
  by (rule new_metrics_registers [where names = "\<lambda>r. set (map metric_name r)"])
    (simp_all add: takes_fresh_def list_register_def)

end
