(* ===== verification/Tcp_Watchdog.thy ===== *)
theory Tcp_Watchdog
  imports Prelude
begin

text \<open>
  The watchdog of a TCP connection, \<open>watchdog\<close> in \<open>src/proxy/tcp.rs\<close>, with the clock of
  \<open>src/clock.rs\<close>: it enforces the idle timeout (L3) and the half-close grace (L4), forwards the
  global shutdown, and names the reason the connection ended. One turn of its loop is a check of
  the deadlines (\<open>wd_check\<close>) and then a \<open>select!\<close> (\<open>wd_select\<close>) on shutdown, a completion of one
  copy direction, or a sleep up to the nearest deadline.
\<close>

section \<open>Clock\<close>

text \<open>
  \<open>now_ms\<close>: the milliseconds since the first call, cut to \<open>u64\<close>. \<open>elapsed\<close> is what \<open>Instant::elapsed\<close>
  measures.
\<close>

definition now_ms :: "nat \<Rightarrow> u64" where
  "now_ms elapsed = of_nat elapsed"

lemma now_ms_exact: "elapsed < 2 ^ 64 \<Longrightarrow> unat (now_ms elapsed) = elapsed"
  by (simp add: now_ms_def unat_of_nat)

section \<open>State\<close>

datatype Dir = Up | Down

definition dir_label :: "Dir \<Rightarrow> string" where
  "dir_label d = (case d of Up \<Rightarrow> ''up'' | Down \<Rightarrow> ''down'')"

text \<open>How a copy loop ended: \<open>Eof\<close> for a clean end of stream, \<open>Err\<close> for a read or write error.\<close>

datatype End = Eof | Err

record wd_state =
  up_done :: bool
  down_done :: bool
  channel_open :: bool
  half_close_since :: "u64 option"

definition wd_start :: wd_state where
  "wd_start = \<lparr>up_done = False, down_done = False, channel_open = True, half_close_since = None\<rparr>"

text \<open>\<open>WATCHDOG_TICK\<close> in milliseconds, and the floor of a sleep.\<close>

definition WATCHDOG_TICK_MS :: u64 where "WATCHDOG_TICK_MS = 5000"
definition MIN_SLEEP_MS :: u64 where "MIN_SLEEP_MS = 20"

text \<open>What the loop returns: the reason, and whether it called \<open>cancel.cancel()\<close> first.\<close>

type_synonym wd_return = "string \<times> bool"

section \<open>One turn of the loop\<close>

definition wd_check :: "u64 \<Rightarrow> u64 \<Rightarrow> u64 \<Rightarrow> u64 \<Rightarrow> wd_state \<Rightarrow> wd_return + (wd_state \<times> u64)" where
  "wd_check idle_secs half_close_secs now act w =
     (let idle_ms = sat_mul idle_secs 1000;
          half_close_ms = sat_mul half_close_secs 1000 in
      if up_done w \<and> down_done w then Inl (''eof'', False)
      else
        let left = sat_sub (sat_add act idle_ms) now in
        if 0 < idle_secs \<and> left = 0 then Inl (''idle_timeout'', True)
        else
          let wake = (if 0 < idle_secs then min WATCHDOG_TICK_MS left else WATCHDOG_TICK_MS) in
          if 0 < half_close_secs \<and> (up_done w \<or> down_done w) then
            let since = (case half_close_since w of None \<Rightarrow> now | Some t \<Rightarrow> t);
                hleft = sat_sub (sat_add (max since act) half_close_ms) now in
            if hleft = 0 then Inl (''half_close_timeout'', True)
            else Inr (w\<lparr>half_close_since := Some since\<rparr>, min wake hleft)
          else Inr (w, wake))"

text \<open>How long the turn sleeps if nothing else happens.\<close>

definition sleep_ms :: "u64 \<Rightarrow> u64" where
  "sleep_ms wake = max wake MIN_SLEEP_MS"

datatype wd_event = ShutdownSeen | Recv Dir End | ChannelClosed | Slept

fun wd_select :: "wd_event \<Rightarrow> wd_state \<Rightarrow> wd_return + wd_state" where
  "wd_select ShutdownSeen w = Inl (''shutdown'', True)"
| "wd_select (Recv d Err) w = Inl (''reset'', True)"
| "wd_select (Recv Up Eof) w = Inr (w\<lparr>up_done := True\<rparr>)"
| "wd_select (Recv Down Eof) w = Inr (w\<lparr>down_done := True\<rparr>)"
| "wd_select ChannelClosed w = Inr (w\<lparr>channel_open := False\<rparr>)"
| "wd_select Slept w = Inr w"

section \<open>The loop\<close>

text \<open>
  The loop over what its turns see: the time of the turn, the last activity it loads, and the branch
  of the \<open>select!\<close> that fires. It yields the return value and the time of the turn that
  returned, or nothing when the input is used up and the watchdog still waits.
\<close>

type_synonym wd_turn = "u64 \<times> u64 \<times> wd_event"

fun watchdog :: "u64 \<Rightarrow> u64 \<Rightarrow> wd_state \<Rightarrow> wd_turn list \<Rightarrow> (wd_return \<times> u64) option" where
  "watchdog idle_secs half_close_secs w [] = None"
| "watchdog idle_secs half_close_secs w ((now, act, ev) # turns) =
     (case wd_check idle_secs half_close_secs now act w of
        Inl r \<Rightarrow> Some (r, now)
      | Inr (w', wake) \<Rightarrow>
          (case wd_select ev w' of
             Inl r \<Rightarrow> Some (r, now)
           | Inr w'' \<Rightarrow> watchdog idle_secs half_close_secs w'' turns))"

section \<open>Deadlines as natural numbers\<close>

text \<open>
  A timer of \<open>secs\<close> seconds on a time stamp runs out at \<open>deadline t secs\<close>. The code saturates at
  \<open>u64::MAX\<close>; below that clock value (some 584 million years) it decides exactly this.
\<close>

definition deadline :: "u64 \<Rightarrow> u64 \<Rightarrow> nat" where
  "deadline t secs = unat t + 1000 * unat secs"

abbreviation clock_max :: nat where "clock_max \<equiv> 18446744073709551615"

definition time_left :: "u64 \<Rightarrow> u64 \<Rightarrow> u64 \<Rightarrow> u64" where
  "time_left t secs now = sat_sub (sat_add t (sat_mul secs 1000)) now"

lemma unat_time_left:
  "unat (time_left t secs now) =
     min (unat t + min (1000 * unat secs) clock_max) clock_max - unat now"
  by (simp add: time_left_def sat_unat mult.commute)

lemma time_left_zero:
  assumes "unat now < clock_max"
  shows "time_left t secs now = 0 \<longleftrightarrow> deadline t secs \<le> unat now"
  using assms by (auto simp: word_zero_iff_unat unat_time_left deadline_def min_def)

lemma time_left_bound:
  "unat now + unat (time_left t secs now) \<le> max (unat now) (deadline t secs)"
  by (simp add: unat_time_left deadline_def)

text \<open>When the check of a turn returns, and what it leaves when it does not.\<close>

definition idle_due :: "u64 \<Rightarrow> u64 \<Rightarrow> u64 \<Rightarrow> bool" where
  "idle_due idle now act \<longleftrightarrow> 0 < unat idle \<and> deadline act idle \<le> unat now"

definition armed_at :: "u64 \<Rightarrow> wd_state \<Rightarrow> u64" where
  "armed_at now w = (case half_close_since w of None \<Rightarrow> now | Some t \<Rightarrow> t)"

definition half_close_due :: "u64 \<Rightarrow> u64 \<Rightarrow> u64 \<Rightarrow> wd_state \<Rightarrow> bool" where
  "half_close_due hc now act w \<longleftrightarrow>
     0 < unat hc \<and> (up_done w \<or> down_done w) \<and>
     deadline (max (armed_at now w) act) hc \<le> unat now"

text \<open>The check, with its arithmetic behind \<open>time_left\<close>.\<close>

lemma wd_check_unfold:
  "wd_check idle hc now act w =
     (if up_done w \<and> down_done w then Inl (''eof'', False)
      else if 0 < idle \<and> time_left act idle now = 0 then Inl (''idle_timeout'', True)
      else
        let wake = (if 0 < idle then min WATCHDOG_TICK_MS (time_left act idle now)
                    else WATCHDOG_TICK_MS) in
        if 0 < hc \<and> (up_done w \<or> down_done w) then
          (let hleft = time_left (max (armed_at now w) act) hc now in
           if hleft = 0 then Inl (''half_close_timeout'', True)
           else Inr (w\<lparr>half_close_since := Some (armed_at now w)\<rparr>, min wake hleft))
        else Inr (w, wake))"
  unfolding wd_check_def time_left_def armed_at_def Let_def ..

lemma wd_check_eq:
  assumes "unat now < clock_max"
  shows "wd_check idle hc now act w =
    (if up_done w \<and> down_done w then Inl (''eof'', False)
     else if idle_due idle now act then Inl (''idle_timeout'', True)
     else if half_close_due hc now act w then Inl (''half_close_timeout'', True)
     else wd_check idle hc now act w)"
  using assms
  by (simp add: wd_check_unfold Let_def idle_due_def half_close_due_def time_left_zero
      pos_word_unat)

lemma wd_check_Inr:
  assumes clk: "unat now < clock_max" and chk: "wd_check idle hc now act w = Inr (w', wake)"
  shows "\<not> (up_done w \<and> down_done w)" and "\<not> idle_due idle now act"
    and "\<not> half_close_due hc now act w"
    and "w' = (if 0 < hc \<and> (up_done w \<or> down_done w)
               then w\<lparr>half_close_since := Some (armed_at now w)\<rparr> else w)"
    and "unat wake \<le> 5000"
    and "0 < unat idle \<Longrightarrow> unat now + unat wake \<le> deadline act idle"
    and "0 < unat hc \<Longrightarrow> up_done w \<or> down_done w \<Longrightarrow>
         unat now + unat wake \<le> deadline (max (armed_at now w) act) hc"
proof -
  show a: "\<not> (up_done w \<and> down_done w)" and b: "\<not> idle_due idle now act"
    and c: "\<not> half_close_due hc now act w"
    using chk wd_check_eq [OF clk, of idle hc act w] by (auto split: if_splits)
  let ?half = "0 < hc \<and> (up_done w \<or> down_done w)"
  let ?w1 = "if 0 < idle then min WATCHDOG_TICK_MS (time_left act idle now) else WATCHDOG_TICK_MS"
  let ?hl = "time_left (max (armed_at now w) act) hc now"
  have res: "w' = (if ?half then w\<lparr>half_close_since := Some (armed_at now w)\<rparr> else w) \<and>
      wake = (if ?half then min ?w1 ?hl else ?w1)"
    using chk unfolding wd_check_unfold Let_def by (cases ?half) (auto split: if_split_asm)
  then show "w' = (if ?half then w\<lparr>half_close_since := Some (armed_at now w)\<rparr> else w)" by blast
  have pick: "x = (if b then min y z else y) \<Longrightarrow> unat x \<le> unat y \<and> (b \<longrightarrow> unat x \<le> unat z)"
    for x y z :: u64 and b
    by (simp add: sat_unat)
  have wake: "unat wake \<le> unat ?w1" "?half \<Longrightarrow> unat wake \<le> unat ?hl"
    using pick [OF conjunct2 [OF res]] by blast+
  have w1: "unat ?w1 \<le> 5000" "0 < idle \<Longrightarrow> unat ?w1 \<le> unat (time_left act idle now)"
    by (simp_all add: WATCHDOG_TICK_MS_def sat_unat)
  show "unat wake \<le> 5000" using wake(1) w1(1) by (rule le_trans)
  show "unat now + unat wake \<le> deadline act idle" if "0 < unat idle"
  proof -
    have "unat wake \<le> unat (time_left act idle now)"
      using wake(1) w1(2) that by (simp add: pos_word_unat)
    then show ?thesis
      using time_left_bound [of now act idle] b that by (simp add: idle_due_def)
  qed
  show "unat now + unat wake \<le> deadline (max (armed_at now w) act) hc"
    if "0 < unat hc" "up_done w \<or> down_done w"
    using wake(2) time_left_bound [of now "max (armed_at now w) act" hc] c that
    by (simp add: half_close_due_def pos_word_unat)
qed

section \<open>Time\<close>

text \<open>
  How the turns follow each other in time, for a timer that is at most \<open>d\<close> ms late: the clock does
  not go back, a turn lasts at most its sleep and the timer's delay, and one that ended by the
  timer lasted at least its sleep.
\<close>

definition turn_follows :: "nat \<Rightarrow> u64 \<Rightarrow> u64 \<Rightarrow> wd_event \<Rightarrow> wd_turn list \<Rightarrow> bool" where
  "turn_follows d now wake ev turns =
     (case turns of
        [] \<Rightarrow> True
      | (now', _, _) # _ \<Rightarrow>
          unat now \<le> unat now' \<and> unat now' \<le> unat now + unat (sleep_ms wake) + d \<and>
          (ev = Slept \<longrightarrow> unat now + unat (sleep_ms wake) \<le> unat now'))"

fun paced :: "nat \<Rightarrow> u64 \<Rightarrow> u64 \<Rightarrow> wd_state \<Rightarrow> wd_turn list \<Rightarrow> bool" where
  "paced d idle hc w [] = True"
| "paced d idle hc w ((now, act, ev) # turns) =
     (unat now < clock_max \<and>
      (case wd_check idle hc now act w of
         Inl _ \<Rightarrow> True
       | Inr (w', wake) \<Rightarrow>
           (case wd_select ev w' of
              Inl _ \<Rightarrow> True
            | Inr w'' \<Rightarrow> turn_follows d now wake ev turns \<and> paced d idle hc w'' turns)))"

text \<open>A silent stretch: the last activity stays at \<open>L\<close> and only the timer fires.\<close>

definition silent :: "u64 \<Rightarrow> wd_turn list \<Rightarrow> bool" where
  "silent L turns = list_all (\<lambda>(now, act, ev). act = L \<and> ev = Slept) turns"

lemma sleep_ms_unat: "unat (sleep_ms wake) = max (unat wake) 20"
  by (simp add: sleep_ms_def MIN_SLEEP_MS_def sat_unat)

text \<open>
  What the two timers share: while \<open>P\<close> holds of the loop's state, the check returns from the
  deadline \<open>D\<close> on, and before it the turn sleeps no further than \<open>D\<close>.
\<close>

locale deadline_watch =
  fixes idle hc L :: u64
    and P :: "wd_state \<Rightarrow> bool"
    and D :: nat
  assumes fires: "P w \<Longrightarrow> unat now < clock_max \<Longrightarrow> D \<le> unat now \<Longrightarrow>
      \<exists>r. wd_check idle hc now L w = Inl r"
    and waits: "P w \<Longrightarrow> unat now < clock_max \<Longrightarrow> wd_check idle hc now L w = Inr (w', wake) \<Longrightarrow>
      P w' \<and> unat now + unat wake \<le> D"
begin

lemma closes_in_time:
  assumes "P w" and "silent L ((now, L, ev) # turns)" and "paced d idle hc w ((now, L, ev) # turns)"
    and "D \<le> unat now + 20 * length turns"
  shows "\<exists>r t. watchdog idle hc w ((now, L, ev) # turns) = Some (r, t) \<and>
    unat t \<le> max (unat now) (D + 20 + d)"
  using assms
proof (induction turns arbitrary: w now ev)
  case Nil
  then have "\<exists>r. wd_check idle hc now L w = Inl r" by (intro fires) auto
  then show ?case by auto
next
  case (Cons turn turns)
  obtain now' ev' where turn: "turn = (now', L, ev')"
    using Cons.prems(2) by (auto simp: silent_def)
  have ev: "ev = Slept" and silent': "silent L ((now', L, ev') # turns)"
    using Cons.prems(2) turn by (auto simp: silent_def)
  show ?case
  proof (cases "wd_check idle hc now L w")
    case (Inl r)
    then show ?thesis by auto
  next
    case (Inr p)
    obtain w' wake where p: "p = (w', wake)" by (cases p)
    have clk: "unat now < clock_max" using Cons.prems(3) by simp
    note wt = waits [OF Cons.prems(1) clk, of w' wake]
    have follows: "unat now + max (unat wake) 20 \<le> unat now'"
        "unat now' \<le> unat now + max (unat wake) 20 + d"
      and paced': "paced d idle hc w' ((now', L, ev') # turns)"
      using Cons.prems(3) Inr p ev turn by (simp_all add: turn_follows_def sleep_ms_unat)
    have "unat now' \<le> D + 20 + d" and "D \<le> unat now' + 20 * length turns"
      using follows wt Inr p Cons.prems(4) by auto
    then show ?thesis
      using Cons.IH [OF _ silent' paced'] wt Inr p ev turn by auto
  qed
qed

end

interpretation idle_watch: deadline_watch idle hc L
    "\<lambda>w. 0 < unat idle \<and> \<not> (up_done w \<and> down_done w)" "deadline L idle" for idle hc L
proof unfold_locales
  show "\<exists>r. wd_check idle hc now L w = Inl r"
    if "0 < unat idle \<and> \<not> (up_done w \<and> down_done w)" "unat now < clock_max" "deadline L idle \<le> unat now"
    for w now
    using that wd_check_eq [of now idle hc L w] by (auto simp: idle_due_def)
  show "(0 < unat idle \<and> \<not> (up_done w' \<and> down_done w')) \<and> unat now + unat wake \<le> deadline L idle"
    if "0 < unat idle \<and> \<not> (up_done w \<and> down_done w)" "unat now < clock_max"
      "wd_check idle hc now L w = Inr (w', wake)" for w now w' wake
    using that wd_check_Inr [OF that(2,3)] by (auto split: if_splits)
qed

interpretation half_close_watch: deadline_watch idle hc L
    "\<lambda>w. 0 < unat hc \<and> up_done w \<noteq> down_done w \<and> half_close_since w = Some since"
    "deadline (max since L) hc" for idle hc L since
proof unfold_locales
  show "\<exists>r. wd_check idle hc now L w = Inl r"
    if "0 < unat hc \<and> up_done w \<noteq> down_done w \<and> half_close_since w = Some since"
      "unat now < clock_max" "deadline (max since L) hc \<le> unat now" for w now
  proof -
    have "half_close_due hc now L w" and "\<not> (up_done w \<and> down_done w)"
      using that by (auto simp: half_close_due_def armed_at_def)
    then show ?thesis
      using wd_check_eq [OF that(2), of idle hc L w] by (cases "idle_due idle now L") auto
  qed
  show "(0 < unat hc \<and> up_done w' \<noteq> down_done w' \<and> half_close_since w' = Some since) \<and>
      unat now + unat wake \<le> deadline (max since L) hc"
    if "0 < unat hc \<and> up_done w \<noteq> down_done w \<and> half_close_since w = Some since"
      "unat now < clock_max" "wd_check idle hc now L w = Inr (w', wake)" for w now w' wake
    using that wd_check_Inr [OF that(2,3)] by (auto simp: armed_at_def split: if_splits)
qed

section \<open>What the reason means\<close>

definition events :: "wd_turn list \<Rightarrow> wd_event set" where
  "events turns = (\<lambda>(now, act, ev). ev) ` set turns"

lemma events_Cons [simp]: "events ((now, act, ev) # turns) = insert ev (events turns)"
  by (simp add: events_def)

definition reason_ok :: "u64 \<Rightarrow> u64 \<Rightarrow> wd_state \<Rightarrow> wd_turn list \<Rightarrow> string \<Rightarrow> bool" where
  "reason_ok idle hc w turns reason \<longleftrightarrow>
     reason = ''eof'' \<and> (up_done w \<or> Recv Up Eof \<in> events turns) \<and>
       (down_done w \<or> Recv Down Eof \<in> events turns) \<or>
     reason = ''reset'' \<and> (\<exists>d. Recv d Err \<in> events turns) \<or>
     reason = ''shutdown'' \<and> ShutdownSeen \<in> events turns \<or>
     reason = ''idle_timeout'' \<and> 0 < unat idle \<or>
     reason = ''half_close_timeout'' \<and> 0 < unat hc \<and>
       (up_done w \<or> down_done w \<or> (\<exists>d. Recv d Eof \<in> events turns))"

lemma reason_ok_Cons:
  assumes "reason_ok idle hc w'' turns reason"
    and "up_done w'' = (up_done w \<or> ev = Recv Up Eof)"
    and "down_done w'' = (down_done w \<or> ev = Recv Down Eof)"
  shows "reason_ok idle hc w ((now, act, ev) # turns) reason"
proof -
  have half: "(up_done w \<or> down_done w \<or> (\<exists>d. Recv d Eof \<in> events ((now, act, ev) # turns))) \<longleftrightarrow>
      (up_done w'' \<or> down_done w'' \<or> (\<exists>d. Recv d Eof \<in> events turns))"
    using assms(2,3) by (auto, (metis Dir.exhaust)+)
  show ?thesis
    using assms(1) unfolding reason_ok_def half by (elim disjE) (simp_all add: assms(2,3), auto)
qed

lemma wd_check_Inl:
  assumes "wd_check idle hc now act w = Inl r"
  shows "r = (''eof'', False) \<and> up_done w \<and> down_done w \<or>
    r = (''idle_timeout'', True) \<and> 0 < unat idle \<or>
    r = (''half_close_timeout'', True) \<and> 0 < unat hc \<and> (up_done w \<or> down_done w)"
  using assms by (auto simp: wd_check_unfold Let_def pos_word_unat split: if_split_asm)

lemma wd_check_flags:
  "wd_check idle hc now act w = Inr (w', wake) \<Longrightarrow>
     up_done w' = up_done w \<and> down_done w' = down_done w \<and> channel_open w' = channel_open w"
  by (auto simp: wd_check_unfold Let_def split: if_split_asm)

lemma watchdog_reason:
  "watchdog idle hc w turns = Some ((reason, cancelled), t) \<Longrightarrow>
     reason_ok idle hc w turns reason \<and> cancelled = (reason \<noteq> ''eof'')"
proof (induction idle hc w turns rule: watchdog.induct)
  case (2 idle hc w now act ev turns)
  show ?case
  proof (cases "wd_check idle hc now act w")
    case (Inl r)
    then show ?thesis
      using "2.prems" wd_check_Inl [OF Inl] by (auto simp: reason_ok_def)
  next
    case chk: (Inr p)
    obtain w' wake where p: "p = (w', wake)" by (cases p)
    note flags = wd_check_flags [OF chk [unfolded p]]
    show ?thesis
    proof (cases "wd_select ev w'")
      case (Inl r)
      then have "ev = ShutdownSeen \<and> r = (''shutdown'', True) \<or> (\<exists>d. ev = Recv d Err \<and> r = (''reset'', True))"
        by (cases "(ev, w')" rule: wd_select.cases) auto
      moreover have "r = (reason, cancelled)" using "2.prems" chk Inl p by simp
      ultimately have "ev = ShutdownSeen \<and> reason = ''shutdown'' \<and> cancelled \<or>
          (\<exists>d. ev = Recv d Err) \<and> reason = ''reset'' \<and> cancelled"
        by blast
      then show ?thesis
      proof
        assume "ev = ShutdownSeen \<and> reason = ''shutdown'' \<and> cancelled"
        then show ?thesis by (simp add: reason_ok_def)
      next
        assume "(\<exists>d. ev = Recv d Err) \<and> reason = ''reset'' \<and> cancelled"
        then show ?thesis by (auto simp: reason_ok_def)
      qed
    next
      case (Inr w'')
      have ups: "up_done w'' = (up_done w' \<or> ev = Recv Up Eof) \<and> down_done w'' = (down_done w' \<or> ev = Recv Down Eof)"
        using Inr by (cases "(ev, w')" rule: wd_select.cases) auto
      have "watchdog idle hc w'' turns = Some ((reason, cancelled), t)"
        using "2.prems" chk p Inr by simp
      then have "reason_ok idle hc w'' turns reason \<and> cancelled = (reason \<noteq> ''eof'')"
        using "2.IH" [OF chk p [symmetric] Inr] by blast
      then show ?thesis
        using reason_ok_Cons [of idle hc w'' turns reason w ev] flags ups by simp
    qed
  qed
qed simp

lemma wd_check_Inl_due:
  assumes "unat now < clock_max" and "wd_check idle hc now act w = Inl r"
  shows "up_done w \<and> down_done w \<or> idle_due idle now act \<or> half_close_due hc now act w"
  using assms
  by (auto simp: wd_check_unfold Let_def idle_due_def half_close_due_def time_left_zero
      pos_word_unat split: if_split_asm)

lemma watchdog_active:
  assumes "watchdog idle hc w turns = Some ((reason, cancelled), t)"
    and "\<And>now act ev. (now, act, ev) \<in> set turns \<Longrightarrow>
      unat now < clock_max \<and> unat now < deadline act idle \<and> unat now < deadline act hc"
  shows "reason \<noteq> ''idle_timeout'' \<and> reason \<noteq> ''half_close_timeout''"
  using assms
proof (induction idle hc w turns rule: watchdog.induct)
  case (2 idle hc w now act ev turns)
  have b: "unat now < clock_max" "unat now < deadline act idle" "unat now < deadline act hc"
    using "2.prems"(2) by auto
  have "deadline act hc \<le> deadline (max (armed_at now w) act) hc"
    by (simp add: deadline_def sat_unat)
  with b have no: "\<not> idle_due idle now act" "\<not> half_close_due hc now act w"
    by (auto simp: idle_due_def half_close_due_def)
  show ?case
  proof (cases "wd_check idle hc now act w")
    case (Inl r)
    have "up_done w \<and> down_done w"
    proof (rule ccontr)
      assume "\<not> (up_done w \<and> down_done w)"
      then show False
        using wd_check_Inl_due [OF b(1) Inl] no by blast
    qed
    then have "r = (''eof'', False)" using Inl by (simp add: wd_check_unfold)
    then show ?thesis using "2.prems"(1) Inl by auto
  next
    case chk: (Inr p)
    obtain w' wake where p: "p = (w', wake)" by (cases p)
    show ?thesis
    proof (cases "wd_select ev w'")
      case (Inl r)
      then show ?thesis
        using "2.prems"(1) chk p by (cases "(ev, w')" rule: wd_select.cases) auto
    next
      case (Inr w'')
      have "watchdog idle hc w'' turns = Some ((reason, cancelled), t)"
        using "2.prems"(1) chk p Inr by simp
      then show ?thesis
        by (rule "2.IH" [OF chk p [symmetric] Inr]) (use "2.prems"(2) in auto)
    qed
  qed
qed simp

section \<open>Properties\<close>

text \<open>Evaluation of the loop on concrete turns.\<close>

lemmas wd_eval = wd_check_def wd_start_def Let_def sat_add_def sat_mul_def sat_sub_def
  WATCHDOG_TICK_MS_def sleep_ms_def MIN_SLEEP_MS_def turn_follows_def word_le_nat_alt
  word_less_nat_alt min_def max_def

text \<open>
  The check of a turn, in exact arithmetic (below the saturation of the clock). It returns
  \<open>eof\<close> when both directions finished, else \<open>idle_timeout\<close> exactly when an enabled idle deadline
  has passed, else \<open>half_close_timeout\<close> exactly when a direction finished and the grace has
  passed since both the last activity and the arming. Otherwise the turn's wait does not exceed the
  5 s tick and reaches beyond no enabled deadline.
\<close>

theorem watchdog_turn_exact:
  assumes "unat now < clock_max"
  shows "case wd_check idle hc now act w of
    Inl r \<Rightarrow>
      r = (if up_done w \<and> down_done w then (''eof'', False)
           else if idle_due idle now act then (''idle_timeout'', True)
           else (''half_close_timeout'', True)) \<and>
      (up_done w \<and> down_done w \<or> idle_due idle now act \<or> half_close_due hc now act w)
  | Inr (w', wake) \<Rightarrow>
      \<not> (up_done w \<and> down_done w) \<and> \<not> idle_due idle now act \<and> \<not> half_close_due hc now act w \<and>
      w' = (if 0 < hc \<and> (up_done w \<or> down_done w)
            then w\<lparr>half_close_since := Some (armed_at now w)\<rparr> else w) \<and>
      unat wake \<le> 5000 \<and>
      (0 < unat idle \<longrightarrow> unat now + unat wake \<le> deadline act idle) \<and>
      (0 < unat hc \<and> (up_done w \<or> down_done w) \<longrightarrow>
        unat now + unat wake \<le> deadline (max (armed_at now w) act) hc)"
proof (cases "wd_check idle hc now act w")
  case (Inl r)
  have "r = (if up_done w \<and> down_done w then (''eof'', False)
           else if idle_due idle now act then (''idle_timeout'', True)
           else (''half_close_timeout'', True))"
    using Inl wd_check_eq [OF assms, of idle hc act w] wd_check_Inl_due [OF assms Inl]
    by (auto split: if_split_asm)
  then show ?thesis using Inl wd_check_Inl_due [OF assms Inl] by simp
next
  case (Inr p)
  obtain w' wake where p: "p = (w', wake)" by (cases p)
  note r = wd_check_Inr [OF assms Inr [unfolded p]]
  show ?thesis
    unfolding Inr p sum.case prod.case
    by (intro conjI impI) (use r in \<open>blast+\<close>)
qed

theorem watchdog_turn_exact_witness:
  "wd_check 2 3 4000 3500 (wd_start\<lparr>up_done := True\<rparr>) =
     Inr (wd_start\<lparr>up_done := True, half_close_since := Some 4000\<rparr>, 1500) \<and>
   \<not> idle_due 2 4000 3500"
proof -
  let ?w = "wd_start\<lparr>up_done := True\<rparr>"
  have c: "wd_check 2 3 4000 3500 ?w = Inr (?w\<lparr>half_close_since := Some 4000\<rparr>, 1500)"
    by (simp add: wd_eval)
  show ?thesis
    using watchdog_turn_exact [where now = 4000 and idle = 2 and hc = 3 and act = 3500 and w = ?w] unfolding c by simp
qed

text \<open>
  C26: An idle connection is closed. From a turn on where nothing but the timer happens and the last
  activity stays at \<open>L\<close>, with a timer at most \<open>d\<close> ms late, the watchdog returns no later than 20 ms
  (the sleep's floor) and the timer's delay after the idle deadline \<open>L + 1000 * idle\<close>; enough turns
  are 20 ms each up to that deadline.
\<close>

theorem idle_connection_closed:
  assumes "0 < unat idle" and "\<not> (up_done w \<and> down_done w)"
    and "silent L ((now, L, ev) # turns)" and "paced d idle hc w ((now, L, ev) # turns)"
    and "deadline L idle \<le> unat now + 20 * length turns"
  shows "\<exists>r t. watchdog idle hc w ((now, L, ev) # turns) = Some (r, t) \<and>
    unat t \<le> max (unat now) (deadline L idle + 20 + d)"
  using idle_watch.closes_in_time [OF _ assms(3,4,5)] assms(1,2) by blast

theorem idle_connection_closed_witness:
  "\<exists>r t. watchdog 1 0 wd_start ((990, 0, Slept) # [(1012, 0, Slept)]) = Some (r, t) \<and>
     unat t \<le> max (unat (990 :: u64)) (deadline 0 1 + 20 + 2)"
proof (rule idle_connection_closed)
  show "paced 2 1 0 wd_start ((990, 0, Slept) # [(1012, 0, Slept)])" by (simp add: wd_eval)
qed (simp_all add: wd_start_def silent_def deadline_def)

text \<open>
  C20: A half-open connection that went silent is closed. Once one direction finished and the grace is
  armed at \<open>since\<close>, a stretch without activity ends no later than 20 ms and the timer's delay
  after \<open>max since L + 1000 * hc\<close>.
\<close>

theorem half_open_connection_closed:
  assumes "0 < unat hc" and "up_done w \<noteq> down_done w" and "half_close_since w = Some since"
    and "silent L ((now, L, ev) # turns)" and "paced d idle hc w ((now, L, ev) # turns)"
    and "deadline (max since L) hc \<le> unat now + 20 * length turns"
  shows "\<exists>r t. watchdog idle hc w ((now, L, ev) # turns) = Some (r, t) \<and>
    unat t \<le> max (unat now) (deadline (max since L) hc + 20 + d)"
  using half_close_watch.closes_in_time [OF _ assms(4,5,6)] assms(1-3) by blast

theorem half_open_connection_closed_witness:
  "\<exists>r t. watchdog 0 1 (wd_start\<lparr>down_done := True, half_close_since := Some 500\<rparr>)
       ((1690, 700, Slept) # [(1711, 700, Slept)]) = Some (r, t) \<and>
     unat t \<le> max (unat (1690 :: u64)) (deadline (max 500 700) 1 + 20 + 1)"
proof (rule half_open_connection_closed)
  show "paced 1 0 1 (wd_start\<lparr>down_done := True, half_close_since := Some 500\<rparr>)
      ((1690, 700, Slept) # [(1711, 700, Slept)])" by (simp add: wd_eval)
qed (simp_all add: wd_start_def silent_def deadline_def max_def word_le_nat_alt)

text \<open>
  The close reason is honest. Whatever the turns see, a watchdog that returns reports \<open>eof\<close> only
  after both directions ended cleanly, \<open>reset\<close> only after an error, \<open>shutdown\<close> only after the token
  fired, the two timeouts only when they are enabled (and the half-close one after some direction
  finished); and it cancels the copy loops in every case but \<open>eof\<close>.
\<close>

theorem watchdog_reason_sound:
  assumes "watchdog idle hc wd_start turns = Some ((reason, cancelled), t)"
  shows "reason_ok idle hc wd_start turns reason \<and> cancelled = (reason \<noteq> ''eof'')"
  using assms by (rule watchdog_reason)

theorem watchdog_reason_sound_witness:
  "reason_ok 300 30 wd_start [(0, 0, Recv Up Eof), (5, 4, Recv Down Err)] ''reset'' \<and>
   True = (''reset'' \<noteq> ''eof'')"
  by (rule watchdog_reason_sound [where t = 5]) (simp add: wd_eval)

text \<open>
  A connection that moves data is never killed. While at every turn the last activity lies less
  than either timeout back, the watchdog reports neither timeout, half-open or not.
\<close>

theorem active_connection_survives:
  assumes "watchdog idle hc wd_start turns = Some ((reason, cancelled), t)"
    and "\<And>now act ev. (now, act, ev) \<in> set turns \<Longrightarrow>
      unat now < clock_max \<and> unat now < deadline act idle \<and> unat now < deadline act hc"
  shows "reason \<noteq> ''idle_timeout'' \<and> reason \<noteq> ''half_close_timeout''"
  using assms by (rule watchdog_active)

theorem active_connection_survives_witness:
  "''eof'' \<noteq> ''idle_timeout'' \<and> ''eof'' \<noteq> ''half_close_timeout''"
proof (rule active_connection_survives)
  show "watchdog 2 1 wd_start [(1000, 900, Recv Up Eof), (3000, 2500, Recv Down Eof), (3001, 2999, Slept)]
      = Some ((''eof'', False), 3001)" by (simp add: wd_eval)
qed (auto simp: deadline_def)

end
