(* ===== verification/Tcp_Copy.thy ===== *)
theory Tcp_Copy
  imports Metrics Tcp_Watchdog
begin

text \<open>
  One direction of a TCP relay, \<open>copy_dir\<close> in \<open>src/proxy/tcp.rs\<close>, as a step function: every await
  point of the task is a phase, and a step is one poll. The two \<open>select!\<close> are biased, so a poll
  first looks at the cancellation token and only then at the socket (\<open>Poll\<close> before a read or a
  write). What both directions, the watchdog and the relay share (the token, the activity clock,
  the completion channel, the metrics) is the record \<open>shared\<close>, passed explicitly.
\<close>

section \<open>State\<close>

definition BUF_SIZE :: nat where "BUF_SIZE = 16384"

record shared =
  cancelled :: bool
  last_activity :: u64
  done_chan :: "(Dir \<times> End) list"
  rx_dropped :: bool
  metric_ops :: "metric_op list"

datatype copy_phase =
    Selecting
  | ReadReady
  | WriteSelect "u8 list" "u8 list"
  | WriteReady "u8 list" "u8 list"
  | ShuttingDown End
  | Reporting End
  | Finished

text \<open>
  The task's locals, and of its two sockets what the peers see: the bytes read so far, the bytes the
  write side took, and whether \<open>shutdown()\<close> was called on it and awaited to its end. (The code ignores
  what that call answers, so \<open>write_shut\<close> says nothing of its success.)
\<close>

record copy_state =
  phase :: copy_phase
  end_is :: End
  total_copied :: u64
  bytes_in :: "u8 list"
  bytes_out :: "u8 list"
  write_shut :: bool

definition copy_start :: copy_state where
  "copy_start = \<lparr>phase = Selecting, end_is = Eof, total_copied = 0, bytes_in = [], bytes_out = [],
     write_shut = False\<rparr>"

section \<open>Steps\<close>

text \<open>
  \<open>Poll\<close> is the first branch of a \<open>select!\<close>; \<open>Pending\<close> that no branch was ready; a read answers
  \<open>Ok(0)\<close>, \<open>Ok(n)\<close> with the bytes, or an error; \<open>write_all\<close> takes the chunk in pieces (\<open>Took k\<close>) or
  fails; \<open>ShutDone\<close> ends \<open>writer.shutdown()\<close> with whatever result; \<open>Report\<close> is the send on the
  completion channel.
\<close>

datatype copy_event =
    Poll
  | Pending
  | ReadEof
  | ReadOk "u8 list" u64
  | ReadErr
  | Took nat
  | WriteErr
  | ShutDone
  | Report

definition count_chunk :: "string \<Rightarrow> Dir \<Rightarrow> nat \<Rightarrow> copy_state \<Rightarrow> shared \<Rightarrow> copy_state \<times> shared" where
  "count_chunk nm d n c sh =
     (c\<lparr>phase := Selecting, total_copied := total_copied c + of_nat n\<rparr>,
      sh\<lparr>metric_ops := metric_ops sh @ [IncBy BytesTotal [nm, dir_label d] (of_nat n)]\<rparr>)"

text \<open>The break of a \<open>select!\<close> on cancellation leaves the loop with \<open>end\<close> as it is.\<close>

fun copy_step ::
    "string \<Rightarrow> Dir \<Rightarrow> copy_event \<Rightarrow> copy_state \<times> shared \<Rightarrow> (copy_state \<times> shared) option" where
  "copy_step nm d Poll (c, sh) =
     (case phase c of
        Selecting \<Rightarrow>
          Some (c\<lparr>phase := (if cancelled sh then Reporting (end_is c) else ReadReady)\<rparr>, sh)
      | WriteSelect chunk rest \<Rightarrow>
          Some (c\<lparr>phase := (if cancelled sh then Reporting (end_is c) else WriteReady chunk rest)\<rparr>, sh)
      | _ \<Rightarrow> None)"
| "copy_step nm d Pending (c, sh) =
     (case phase c of
        ReadReady \<Rightarrow> Some (c\<lparr>phase := Selecting\<rparr>, sh)
      | WriteReady chunk rest \<Rightarrow> Some (c\<lparr>phase := WriteSelect chunk rest\<rparr>, sh)
      | _ \<Rightarrow> None)"
| "copy_step nm d ReadEof (c, sh) =
     (case phase c of
        ReadReady \<Rightarrow> Some (c\<lparr>phase := ShuttingDown Eof\<rparr>, sh)
      | _ \<Rightarrow> None)"
| "copy_step nm d (ReadOk chunk now) (c, sh) =
     (case phase c of
        ReadReady \<Rightarrow>
          if chunk \<noteq> [] \<and> length chunk \<le> BUF_SIZE then
            Some (c\<lparr>phase := WriteSelect chunk chunk, bytes_in := bytes_in c @ chunk\<rparr>,
                  sh\<lparr>last_activity := now\<rparr>)
          else None
      | _ \<Rightarrow> None)"
| "copy_step nm d ReadErr (c, sh) =
     (case phase c of
        ReadReady \<Rightarrow> Some (c\<lparr>phase := ShuttingDown Err\<rparr>, sh)
      | _ \<Rightarrow> None)"
| "copy_step nm d (Took k) (c, sh) =
     (case phase c of
        WriteReady chunk rest \<Rightarrow>
          if 0 < k \<and> k \<le> length rest then
            let c' = c\<lparr>bytes_out := bytes_out c @ take k rest\<rparr> in
            if k = length rest then Some (count_chunk nm d (length chunk) c' sh)
            else Some (c'\<lparr>phase := WriteReady chunk (drop k rest)\<rparr>, sh)
          else None
      | _ \<Rightarrow> None)"
| "copy_step nm d WriteErr (c, sh) =
     (case phase c of
        WriteReady chunk rest \<Rightarrow> Some (c\<lparr>phase := Reporting Err, end_is := Err\<rparr>, sh)
      | _ \<Rightarrow> None)"
| "copy_step nm d ShutDone (c, sh) =
     (case phase c of
        ShuttingDown e \<Rightarrow> Some (c\<lparr>phase := Reporting e, end_is := e, write_shut := True\<rparr>, sh)
      | _ \<Rightarrow> None)"
| "copy_step nm d Report (c, sh) =
     (case phase c of
        Reporting e \<Rightarrow>
          Some (c\<lparr>phase := Finished\<rparr>,
                if rx_dropped sh then sh else sh\<lparr>done_chan := done_chan sh @ [(d, e)]\<rparr>)
      | _ \<Rightarrow> None)"

section \<open>What one direction keeps\<close>

text \<open>
  The bytes of the chunk being written that the write side has not taken yet, and the bytes counted
  as relayed: those of the chunks written in full.
\<close>

fun unsent :: "copy_phase \<Rightarrow> u8 list" where
  "unsent (WriteSelect chunk rest) = rest"
| "unsent (WriteReady chunk rest) = rest"
| "unsent _ = []"

fun in_chunk :: "copy_phase \<Rightarrow> nat" where
  "in_chunk (WriteSelect chunk rest) = length chunk - length rest"
| "in_chunk (WriteReady chunk rest) = length chunk - length rest"
| "in_chunk _ = 0"

text \<open>The task's own end: after the loop, or finished.\<close>

fun left_loop :: "copy_phase \<Rightarrow> bool" where
  "left_loop (Reporting e) = True"
| "left_loop Finished = True"
| "left_loop _ = False"

definition delivered_all :: "copy_state \<Rightarrow> bool" where
  "delivered_all c \<longleftrightarrow> bytes_out c = bytes_in c \<and> write_shut c"

fun chunk_ok :: "copy_phase \<Rightarrow> bool" where
  "chunk_ok (WriteSelect chunk rest) = (rest \<noteq> [] \<and> length rest \<le> length chunk \<and> length chunk \<le> BUF_SIZE)"
| "chunk_ok (WriteReady chunk rest) = (rest \<noteq> [] \<and> length rest \<le> length chunk \<and> length chunk \<le> BUF_SIZE)"
| "chunk_ok _ = True"

text \<open>
  The invariant of one direction under its shared state; \<open>n\<close> is the number of bytes counted so far.
  In the loop everything read is written but the rest of the current chunk; after it, what is
  written is a prefix of what was read, and a clean end without cancellation means all of it.
\<close>

definition copy_inv :: "string \<Rightarrow> Dir \<Rightarrow> copy_state \<times> shared \<Rightarrow> nat \<Rightarrow> bool" where
  "copy_inv nm d cs n \<longleftrightarrow>
     (let c = fst cs; sh = snd cs in
      total_copied c = of_nat n \<and>
      counted BytesTotal [nm, dir_label d] (metric_ops sh) = n \<and>
      n \<le> length (bytes_out c) \<and> length (bytes_out c) \<le> n + BUF_SIZE \<and>
      chunk_ok (phase c) \<and>
      (\<not> left_loop (phase c) \<longrightarrow>
         end_is c = Eof \<and> \<not> write_shut c \<and> bytes_in c = bytes_out c @ unsent (phase c) \<and>
         length (bytes_out c) = n + in_chunk (phase c)) \<and>
      (\<exists>lost. bytes_in c = bytes_out c @ lost) \<and>
      (left_loop (phase c) \<and> end_is c = Eof \<longrightarrow>
         delivered_all c \<and> length (bytes_out c) = n \<or> cancelled sh) \<and>
      (\<forall>e. phase c = Reporting e \<longrightarrow> end_is c = e))"

lemma copy_start_inv:
  "counted BytesTotal [nm, dir_label d] (metric_ops sh) = 0 \<Longrightarrow> copy_inv nm d (copy_start, sh) 0"
  by (simp add: copy_inv_def copy_start_def)

lemma unat_of_chunk: "k \<le> BUF_SIZE \<Longrightarrow> unat (of_nat k :: u64) = k"
  by (simp add: BUF_SIZE_def unat_of_nat)

lemma copy_step_inv:
  assumes inv: "copy_inv nm d (c, sh) n" and step: "copy_step nm d ev (c, sh) = Some (c', sh')"
  shows "\<exists>n'\<ge>n. copy_inv nm d (c', sh') n'"
proof (cases ev)
  case Poll
  then have "copy_inv nm d (c', sh') n"
    using step inv by (auto simp: copy_inv_def Let_def split: copy_phase.splits if_splits)
  then show ?thesis by blast
next
  case Pending
  then have "copy_inv nm d (c', sh') n"
    using step inv by (auto simp: copy_inv_def Let_def split: copy_phase.splits)
  then show ?thesis by blast
next
  case ReadEof
  then have "copy_inv nm d (c', sh') n"
    using step inv by (auto simp: copy_inv_def Let_def split: copy_phase.splits)
  then show ?thesis by blast
next
  case (ReadOk chunk now)
  then have "copy_inv nm d (c', sh') n"
    using step inv by (auto simp: copy_inv_def Let_def split: copy_phase.splits if_splits)
  then show ?thesis by blast
next
  case ReadErr
  then have "copy_inv nm d (c', sh') n"
    using step inv by (auto simp: copy_inv_def Let_def split: copy_phase.splits)
  then show ?thesis by blast
next
  case (Took k)
  then obtain chunk rest where ph: "phase c = WriteReady chunk rest" and k: "0 < k" "k \<le> length rest"
    using step by (auto split: copy_phase.splits if_splits)
  have i: "rest \<noteq> []" "length rest \<le> length chunk" "length chunk \<le> BUF_SIZE"
      "bytes_in c = bytes_out c @ rest" "length (bytes_out c) = n + (length chunk - length rest)"
      "total_copied c = of_nat n" "counted BytesTotal [nm, dir_label d] (metric_ops sh) = n"
      "end_is c = Eof" "\<not> write_shut c"
    using inv ph by (auto simp: copy_inv_def Let_def)
  show ?thesis
  proof (cases "k = length rest")
    case True
    then have "copy_inv nm d (c', sh') (n + length chunk)"
      using step Took ph k i
      by (auto simp: copy_inv_def Let_def count_chunk_def unat_of_chunk)
    then show ?thesis by (intro exI [of _ "n + length chunk"]) simp
  next
    case False
    have "\<exists>lost. rest = take k rest @ lost" by (metis append_take_drop_id)
    with False have "copy_inv nm d (c', sh') n"
      using step Took ph k i by (auto simp: copy_inv_def Let_def)
    then show ?thesis by blast
  qed
next
  case WriteErr
  then have "copy_inv nm d (c', sh') n"
    using step inv by (auto simp: copy_inv_def Let_def split: copy_phase.splits)
  then show ?thesis by blast
next
  case ShutDone
  then have "copy_inv nm d (c', sh') n"
    using step inv by (auto simp: copy_inv_def Let_def delivered_all_def split: copy_phase.splits)
  then show ?thesis by blast
next
  case Report
  then have "copy_inv nm d (c', sh') n"
    using step inv by (auto simp: copy_inv_def Let_def delivered_all_def split: copy_phase.splits if_splits)
  then show ?thesis by blast
qed

text \<open>The metric calls of one connection's relay: of two counters, all for its own proxy.\<close>

definition relay_op :: "string \<Rightarrow> metric_op \<Rightarrow> bool" where
  "relay_op nm op \<longleftrightarrow>
     well_labelled op \<and> op_family op \<in> {BytesTotal, ConnectionsClosed} \<and> hd (op_labels op) = nm"

text \<open>What the rest of the connection may do to a direction: cancel it, and count other things.\<close>

lemma copy_inv_frame:
  assumes "copy_inv nm d (c, sh) n" and "cancelled sh \<Longrightarrow> cancelled sh'"
    and "counted BytesTotal [nm, dir_label d] (metric_ops sh') =
      counted BytesTotal [nm, dir_label d] (metric_ops sh)"
  shows "copy_inv nm d (c, sh') n"
  using assms by (auto simp: copy_inv_def Let_def)

lemma copy_step_shared:
  assumes "copy_step nm d ev (c, sh) = Some (c', sh')"
  shows "cancelled sh' = cancelled sh" and "rx_dropped sh' = rx_dropped sh"
    and "d' \<noteq> d \<Longrightarrow> counted BytesTotal [nm, dir_label d'] (metric_ops sh') =
      counted BytesTotal [nm, dir_label d'] (metric_ops sh)"
    and "counted ConnectionsClosed ls (metric_ops sh') = counted ConnectionsClosed ls (metric_ops sh)"
    and "done_chan sh' = done_chan sh \<or>
      (\<exists>e. phase c = Reporting e \<and> phase c' = Finished \<and> done_chan sh' = done_chan sh @ [(d, e)])"
    and "list_all (relay_op nm) (metric_ops sh) \<Longrightarrow> list_all (relay_op nm) (metric_ops sh')"
  using assms
  by (cases ev; auto simp: count_chunk_def dir_label_def relay_op_def well_labelled_def Let_def
      split: copy_phase.splits if_splits Dir.splits)+

section \<open>Termination after cancellation\<close>

text \<open>How many polls a direction can still make once the token is cancelled.\<close>

fun copy_rank :: "copy_phase \<Rightarrow> nat" where
  "copy_rank Finished = 0"
| "copy_rank (Reporting e) = 1"
| "copy_rank (ShuttingDown e) = 2"
| "copy_rank Selecting = 2"
| "copy_rank (WriteSelect chunk rest) = 2"
| "copy_rank ReadReady = 3"
| "copy_rank (WriteReady chunk rest) = 2 + length rest"

lemma copy_rank_decreases:
  assumes "copy_step nm d ev (c, sh) = Some (c', sh')" and "cancelled sh" and "chunk_ok (phase c)"
  shows "copy_rank (phase c') < copy_rank (phase c)"
  using assms
  by (cases ev) (auto simp: count_chunk_def Let_def Suc_le_eq split: copy_phase.splits if_splits)

lemma copy_can_step:
  assumes "phase c \<noteq> Finished"
  shows "\<exists>ev. copy_step nm d ev (c, sh) \<noteq> None"
proof (cases "phase c")
  case Selecting then show ?thesis by (intro exI [of _ Poll]) simp
next
  case ReadReady then show ?thesis by (intro exI [of _ Pending]) simp
next
  case WriteSelect then show ?thesis by (intro exI [of _ Poll]) simp
next
  case WriteReady then show ?thesis by (intro exI [of _ Pending]) simp
next
  case ShuttingDown then show ?thesis by (intro exI [of _ ShutDone]) simp
next
  case Reporting then show ?thesis by (intro exI [of _ Report]) simp
qed (use assms in simp)

end
