(* ===== verification/Socket_Opts.thy ===== *)
theory Socket_Opts
  imports Config
begin

text \<open>
  \<open>src/socket_opts.rs\<close>: the liveness options put on a TCP socket (L1 keepalive, L2
  \<open>TCP_USER_TIMEOUT\<close>). The socket layer is outside the program, so the model is the sequence of
  setter calls with their arguments, and what each call returns is a parameter; a failing setter
  is logged and swallowed.
\<close>

section \<open>The calls\<close>

text \<open>
  \<open>set_tcp_keepalive\<close> takes a \<open>TcpKeepalive\<close>: the idle time, and the interval and the retries when
  \<open>with_interval\<close> and \<open>with_retries\<close> were called on it. Times are in seconds, the user timeout in
  milliseconds.
\<close>

datatype setter =
    SetTcpKeepalive u64 "u64 option" "u32 option"
  | SetTcpUserTimeout u64

text \<open>The log line of a setter that failed.\<close>

datatype opt_warning = WarnKeepalive string | WarnUserTimeout string

definition keepalive_calls :: "ProxyConfig \<Rightarrow> setter list" where
  "keepalive_calls cfg =
     (if 0 < keepalive_idle_secs cfg then
        [SetTcpKeepalive (keepalive_idle_secs cfg)
           (if 0 < keepalive_interval_secs cfg then Some (keepalive_interval_secs cfg) else None)
           (if 0 < keepalive_retries cfg then Some (keepalive_retries cfg) else None)]
      else [])"

text \<open>\<open>linux\<close>: the target is Linux or Android, so the second block is compiled in.\<close>

definition user_timeout_calls :: "bool \<Rightarrow> ProxyConfig \<Rightarrow> setter list" where
  "user_timeout_calls linux cfg =
     (if linux \<and> 0 < user_timeout_ms cfg then [SetTcpUserTimeout (ucast (user_timeout_ms cfg))] else [])"

fun warn_of :: "setter \<Rightarrow> string \<Rightarrow> opt_warning" where
  "warn_of (SetTcpKeepalive _ _ _) e = WarnKeepalive e"
| "warn_of (SetTcpUserTimeout _) e = WarnUserTimeout e"

definition apply_tcp ::
    "bool \<Rightarrow> (setter \<Rightarrow> string option) \<Rightarrow> ProxyConfig \<Rightarrow> setter list \<times> opt_warning list" where
  "apply_tcp linux result cfg =
     (let calls = keepalive_calls cfg @ user_timeout_calls linux cfg
      in (calls, List.map_filter (\<lambda>c. map_option (warn_of c) (result c)) calls))"

section \<open>The values\<close>

text \<open>
  What \<open>validate\<close> promises of the values that reach a setter: keepalive times between 1 and
  \<open>MAX_KEEPALIVE_SECS\<close>, probes between 1 and \<open>MAX_KEEPALIVE_RETRIES\<close>. A user timeout is only known not to be 0;
  the program puts no other bound on it.
\<close>

fun setter_bounded :: "setter \<Rightarrow> bool" where
  "setter_bounded (SetTcpKeepalive t iv r) \<longleftrightarrow>
     1 \<le> unat t \<and> unat t \<le> unat MAX_KEEPALIVE_SECS \<and>
     (case iv of None \<Rightarrow> True | Some v \<Rightarrow> 1 \<le> unat v \<and> unat v \<le> unat MAX_KEEPALIVE_SECS) \<and>
     (case r of None \<Rightarrow> True | Some n \<Rightarrow> 1 \<le> unat n \<and> unat n \<le> unat MAX_KEEPALIVE_RETRIES)"
| "setter_bounded (SetTcpUserTimeout t) \<longleftrightarrow> t \<noteq> 0"

lemma valid_calls_bounded:
  assumes "valid_config cfg"
  shows "list_all setter_bounded (keepalive_calls cfg @ user_timeout_calls linux cfg)"
proof -
  have one: "0 < w \<longleftrightarrow> 1 \<le> unat w" for w :: "'a::len word"
    by (auto simp: pos_word_unat)
  have timeout: "ucast w \<noteq> (0 :: u64)" if "0 < w" for w :: u32
    using that by (simp add: word_zero_iff_unat pos_word_unat)
  show ?thesis
    using assms timeout
    by (simp add: valid_config_def keepalive_calls_def user_timeout_calls_def MAX_KEEPALIVE_SECS_def
        MAX_KEEPALIVE_RETRIES_def one)
qed

lemma validated_calls_bounded:
  "validate cfg = Inr () \<Longrightarrow> list_all setter_bounded (fst (apply_tcp linux result cfg))"
  using valid_calls_bounded by (simp add: apply_tcp_def Let_def validate_iff)

lemma default_config_valid: "validate default_config = Inr ()"
proof -
  have p: "parse_u16 ''1'' = Some 1"
    by (simp add: parse_u16_eq strip_plus_def is_digit_def digit_val_def)
  have "check_host_port (''0.0.0.0'' @ CHR '':'' # ''1'') = Inr 1"
       "check_host_port (''a'' @ CHR '':'' # ''1'') = Inr 1"
    using p unfolding check_host_port_iff by blast+
  then show ?thesis
    by (simp add: validate_iff valid_config_def default_config_def)
qed

lemma default_config_calls:
  "fst (apply_tcp True (\<lambda>_. None) default_config) =
     [SetTcpKeepalive 60 (Some 10) (Some 6), SetTcpUserTimeout 90000]"
  by (simp add: apply_tcp_def keepalive_calls_def user_timeout_calls_def default_config_def
      word_less_nat_alt)

end
