(* ===== verification/Tcp_Relay.thy ===== *)
theory Tcp_Relay
  imports Tcp_Copy Socket_Opts
begin

text \<open>
  The relay of one TCP connection, \<open>relay\<close> in \<open>src/proxy/tcp.rs\<close>: the two copy tasks and the
  watchdog run side by side over the shared state, in any interleaving, then the relay awaits both
  tasks and counts the close. A step is one poll of a task; the watchdog's turn is the
  check and the select of \<open>Tcp_Watchdog\<close>, here fed by the relay's own clock stamps and channel.
\<close>

section \<open>State\<close>

text \<open>The watchdog between two awaits: about to check its deadlines, in its \<open>select!\<close>, or returned.\<close>

datatype wd_phase = WdTop wd_state | WdSelect wd_state | WdReturned string

record relay_sys =
  r_shared :: shared
  r_up :: copy_state
  r_down :: copy_state
  r_wd :: wd_phase
  r_shutdown :: bool
  r_closed :: "(u64 \<times> u64 \<times> string) option"

definition relay_start :: "u64 \<Rightarrow> relay_sys" where
  "relay_start now =
     \<lparr>r_shared = \<lparr>cancelled = False, last_activity = now, done_chan = [], rx_dropped = False,
                   metric_ops = []\<rparr>,
      r_up = copy_start, r_down = copy_start, r_wd = WdTop wd_start, r_shutdown = False,
      r_closed = None\<rparr>"

section \<open>Steps\<close>

text \<open>
  \<open>TokenFires\<close> is the environment cancelling the shutdown token. \<open>WdTurn now\<close> is a check of the
  deadlines at that time. \<open>Close\<close> is the end of \<open>relay\<close>: both join handles are ready.
\<close>

datatype relay_event =
    Copy Dir copy_event
  | TokenFires
  | WdTurn u64
  | WdEvent wd_event
  | Close

fun dir_copy :: "Dir \<Rightarrow> relay_sys \<Rightarrow> copy_state" where
  "dir_copy Up s = r_up s"
| "dir_copy Down s = r_down s"

fun set_copy :: "Dir \<Rightarrow> copy_state \<Rightarrow> relay_sys \<Rightarrow> relay_sys" where
  "set_copy Up c s = s\<lparr>r_up := c\<rparr>"
| "set_copy Down c s = s\<lparr>r_down := c\<rparr>"

text \<open>Returning drops the receiver; \<open>cancel.cancel()\<close> came first except for \<open>eof\<close>.\<close>

definition wd_returns :: "wd_return \<Rightarrow> relay_sys \<Rightarrow> relay_sys" where
  "wd_returns r s =
     s\<lparr>r_wd := WdReturned (fst r),
       r_shared := (r_shared s)\<lparr>cancelled := cancelled (r_shared s) \<or> snd r, rx_dropped := True\<rparr>\<rparr>"

text \<open>Which branch of the watchdog's \<open>select!\<close> can fire, and what it takes from the channel.\<close>

definition select_ready :: "relay_sys \<Rightarrow> wd_state \<Rightarrow> wd_event \<Rightarrow> bool" where
  "select_ready s w ev =
     (case ev of
        ShutdownSeen \<Rightarrow> r_shutdown s
      | Recv d e \<Rightarrow> channel_open w \<and> done_chan (r_shared s) \<noteq> [] \<and> hd (done_chan (r_shared s)) = (d, e)
      | ChannelClosed \<Rightarrow>
          channel_open w \<and> done_chan (r_shared s) = [] \<and>
          phase (r_up s) = Finished \<and> phase (r_down s) = Finished
      | Slept \<Rightarrow> True)"

definition select_takes :: "wd_event \<Rightarrow> relay_sys \<Rightarrow> relay_sys" where
  "select_takes ev s =
     (case ev of
        Recv d e \<Rightarrow> s\<lparr>r_shared := (r_shared s)\<lparr>done_chan := tl (done_chan (r_shared s))\<rparr>\<rparr>
      | _ \<Rightarrow> s)"

fun relay_step :: "ProxyConfig \<Rightarrow> relay_event \<Rightarrow> relay_sys \<Rightarrow> relay_sys option" where
  "relay_step cfg (Copy d ev) s =
     (case copy_step (cfg_name cfg) d ev (dir_copy d s, r_shared s) of
        None \<Rightarrow> None
      | Some (c, sh) \<Rightarrow> Some (set_copy d c (s\<lparr>r_shared := sh\<rparr>)))"
| "relay_step cfg TokenFires s = (if r_shutdown s then None else Some (s\<lparr>r_shutdown := True\<rparr>))"
| "relay_step cfg (WdTurn now) s =
     (case r_wd s of
        WdTop w \<Rightarrow>
          (case wd_check (idle_timeout_secs cfg) (half_close_timeout_secs cfg) now
                  (last_activity (r_shared s)) w of
             Inl r \<Rightarrow> Some (wd_returns r s)
           | Inr (w', wake) \<Rightarrow> Some (s\<lparr>r_wd := WdSelect w'\<rparr>))
      | _ \<Rightarrow> None)"
| "relay_step cfg (WdEvent ev) s =
     (case r_wd s of
        WdSelect w \<Rightarrow>
          if select_ready s w ev then
            (case wd_select ev w of
               Inl r \<Rightarrow> Some (wd_returns r (select_takes ev s))
             | Inr w' \<Rightarrow> Some (select_takes ev s\<lparr>r_wd := WdTop w'\<rparr>))
          else None
      | _ \<Rightarrow> None)"
| "relay_step cfg Close s =
     (case r_wd s of
        WdReturned reason \<Rightarrow>
          if phase (r_up s) = Finished \<and> phase (r_down s) = Finished \<and> r_closed s = None then
            Some (s\<lparr>r_closed := Some (total_copied (r_up s), total_copied (r_down s), reason),
                    r_shared := (r_shared s)\<lparr>metric_ops := metric_ops (r_shared s) @
                      [Inc ConnectionsClosed [cfg_name cfg, reason]]\<rparr>\<rparr>)
          else None
      | _ \<Rightarrow> None)"

section \<open>Invariant\<close>

fun dir_done :: "Dir \<Rightarrow> wd_state \<Rightarrow> bool" where
  "dir_done Up w = up_done w"
| "dir_done Down w = down_done w"

definition dir_ended :: "Dir \<Rightarrow> relay_sys \<Rightarrow> bool" where
  "dir_ended d s \<longleftrightarrow> phase (dir_copy d s) = Finished"

definition dir_complete :: "Dir \<Rightarrow> relay_sys \<Rightarrow> bool" where
  "dir_complete d s \<longleftrightarrow>
     dir_ended d s \<and> end_is (dir_copy d s) = Eof \<and> delivered_all (dir_copy d s)"

text \<open>What must have happened for each reason; no other reason exists.\<close>

definition reason_holds :: "ProxyConfig \<Rightarrow> string \<Rightarrow> relay_sys \<Rightarrow> bool" where
  "reason_holds cfg r s \<longleftrightarrow>
     r = ''eof'' \<and> (\<forall>d. dir_complete d s) \<or>
     r = ''reset'' \<and> (\<exists>d. dir_ended d s \<and> end_is (dir_copy d s) = Err) \<or>
     r = ''shutdown'' \<and> r_shutdown s \<or>
     r = ''idle_timeout'' \<and> 0 < unat (idle_timeout_secs cfg) \<or>
     r = ''half_close_timeout'' \<and> 0 < unat (half_close_timeout_secs cfg) \<and> (\<exists>d. dir_complete d s)"

definition copies_inv :: "ProxyConfig \<Rightarrow> relay_sys \<Rightarrow> bool" where
  "copies_inv cfg s \<longleftrightarrow> (\<forall>d. \<exists>n. copy_inv (cfg_name cfg) d (dir_copy d s, r_shared s) n)"

definition chan_inv :: "relay_sys \<Rightarrow> bool" where
  "chan_inv s \<longleftrightarrow>
     (\<forall>(d, e)\<in>set (done_chan (r_shared s)). dir_ended d s \<and> end_is (dir_copy d s) = e)"

definition wd_waits :: "wd_state \<Rightarrow> relay_sys \<Rightarrow> bool" where
  "wd_waits w s \<longleftrightarrow>
     \<not> cancelled (r_shared s) \<and> \<not> rx_dropped (r_shared s) \<and> r_closed s = None \<and>
     (\<forall>d. dir_done d w \<longrightarrow> dir_complete d s)"

definition wd_inv :: "ProxyConfig \<Rightarrow> relay_sys \<Rightarrow> bool" where
  "wd_inv cfg s \<longleftrightarrow>
     (case r_wd s of
        WdTop w \<Rightarrow> wd_waits w s
      | WdSelect w \<Rightarrow> wd_waits w s
      | WdReturned r \<Rightarrow>
          rx_dropped (r_shared s) \<and> cancelled (r_shared s) = (r \<noteq> ''eof'') \<and> reason_holds cfg r s)"

definition closed_inv :: "ProxyConfig \<Rightarrow> relay_sys \<Rightarrow> bool" where
  "closed_inv cfg s \<longleftrightarrow>
     list_all (relay_op (cfg_name cfg)) (metric_ops (r_shared s)) \<and>
     (case r_closed s of
        None \<Rightarrow> (\<forall>ls. counted ConnectionsClosed ls (metric_ops (r_shared s)) = 0)
      | Some (u, v, r) \<Rightarrow>
          r_wd s = WdReturned r \<and> (\<forall>d. dir_ended d s) \<and>
          u = total_copied (r_up s) \<and> v = total_copied (r_down s) \<and>
          (\<forall>ls. counted ConnectionsClosed ls (metric_ops (r_shared s)) =
             (if ls = [cfg_name cfg, r] then 1 else 0)))"

definition relay_inv :: "ProxyConfig \<Rightarrow> relay_sys \<Rightarrow> bool" where
  "relay_inv cfg s \<longleftrightarrow> copies_inv cfg s \<and> chan_inv s \<and> wd_inv cfg s \<and> closed_inv cfg s"

lemma all_Dir: "(\<forall>d. P d) \<longleftrightarrow> P Up \<and> P Down"
  by (metis Dir.exhaust)

lemma ex_Dir: "(\<exists>d. P d) \<longleftrightarrow> P Up \<or> P Down"
  by (metis Dir.exhaust)

lemma dir_copy_set [simp]:
  "dir_copy d (set_copy d' c s) = (if d = d' then c else dir_copy d s)"
  by (cases d; cases d') auto

lemma set_copy_fields [simp]:
  "r_shared (set_copy d c s) = r_shared s" "r_wd (set_copy d c s) = r_wd s"
  "r_shutdown (set_copy d c s) = r_shutdown s" "r_closed (set_copy d c s) = r_closed s"
  by (cases d; simp)+

lemma dir_copy_fields [simp]:
  "dir_copy d (s\<lparr>r_shared := sh\<rparr>) = dir_copy d s" "dir_copy d (s\<lparr>r_wd := w\<rparr>) = dir_copy d s"
  "dir_copy d (s\<lparr>r_shutdown := b\<rparr>) = dir_copy d s" "dir_copy d (s\<lparr>r_closed := x\<rparr>) = dir_copy d s"
  by (cases d; simp)+

lemma dir_done_iff: "up_done w \<and> down_done w \<longleftrightarrow> (\<forall>d. dir_done d w)"
  by (simp add: all_Dir)

lemma relay_start_inv: "relay_inv cfg (relay_start now)"
proof -
  have "copies_inv cfg (relay_start now)"
    using copy_start_inv [where sh = "r_shared (relay_start now)"]
    by (auto simp: copies_inv_def all_Dir relay_start_def)
  moreover have "chan_inv (relay_start now)" "wd_inv cfg (relay_start now)"
      "closed_inv cfg (relay_start now)"
    by (simp_all add: relay_start_def chan_inv_def wd_inv_def wd_waits_def closed_inv_def all_Dir
        wd_start_def)
  ultimately show ?thesis by (simp add: relay_inv_def)
qed

text \<open>What justified a reason stays: ended directions no longer change, the token stays cancelled.\<close>

lemma reason_stays:
  assumes "reason_holds cfg r s"
    and keep: "\<And>d. dir_ended d s \<Longrightarrow> dir_ended d t \<and> dir_copy d t = dir_copy d s"
    and "r_shutdown s \<Longrightarrow> r_shutdown t"
  shows "reason_holds cfg r t"
proof -
  have complete: "dir_complete d s \<Longrightarrow> dir_complete d t" for d
    using keep [of d] by (simp add: dir_complete_def)
  have all: "(\<forall>d. dir_complete d s) \<longrightarrow> (\<forall>d. dir_complete d t)"
      and some: "(\<exists>d. dir_complete d s) \<longrightarrow> (\<exists>d. dir_complete d t)"
    using complete by blast+
  have err: "(\<exists>d. dir_ended d s \<and> end_is (dir_copy d s) = Err) \<longrightarrow>
      (\<exists>d. dir_ended d t \<and> end_is (dir_copy d t) = Err)"
    using keep by metis
  have mono: "a \<and> p1 \<or> b \<and> p2 \<or> c \<and> p3 \<or> e \<or> f \<and> g \<and> p4 \<Longrightarrow> (p1 \<longrightarrow> q1) \<Longrightarrow> (p2 \<longrightarrow> q2) \<Longrightarrow>
      (p3 \<longrightarrow> q3) \<Longrightarrow> (p4 \<longrightarrow> q4) \<Longrightarrow> a \<and> q1 \<or> b \<and> q2 \<or> c \<and> q3 \<or> e \<or> f \<and> g \<and> q4"
    for a b c e f g p1 p2 p3 p4 q1 q2 q3 q4
    by blast
  show ?thesis
    using assms(1) all err _ some unfolding reason_holds_def by (rule mono) (use assms(3) in simp)
qed

text \<open>A copy task that ended cleanly while nothing was cancelled has delivered everything.\<close>

lemma clean_end_complete:
  assumes "copies_inv cfg s" and "dir_ended d s" and "end_is (dir_copy d s) = Eof"
    and "\<not> cancelled (r_shared s)"
  shows "dir_complete d s"
proof -
  obtain n where "copy_inv (cfg_name cfg) d (dir_copy d s, r_shared s) n"
    using assms(1) by (auto simp: copies_inv_def)
  then show ?thesis
    using assms(2-4) by (auto simp: dir_complete_def dir_ended_def copy_inv_def Let_def)
qed

text \<open>Steps of a copy task: the other direction and a finished direction do not change.\<close>

lemma copy_step_not_ended:
  "copy_step nm d ev (c, sh) = Some r \<Longrightarrow> phase c \<noteq> Finished"
  by (cases ev) auto

lemma copy_relay_inv:
  assumes inv: "relay_inv cfg s" and step: "relay_step cfg (Copy d ev) s = Some t"
  shows "relay_inv cfg t"
proof -
  obtain c sh where cs: "copy_step (cfg_name cfg) d ev (dir_copy d s, r_shared s) = Some (c, sh)"
    and t: "t = set_copy d c (s\<lparr>r_shared := sh\<rparr>)"
    using step by (auto split: option.splits)
  note shared = copy_step_shared [OF cs]
  have run: "phase (dir_copy d s) \<noteq> Finished" using copy_step_not_ended [OF cs] .
  have keep: "dir_ended d' s \<Longrightarrow> dir_ended d' t \<and> dir_copy d' t = dir_copy d' s" for d'
    using run by (auto simp: t dir_ended_def)
  then have complete: "dir_complete d' s \<Longrightarrow> dir_complete d' t" for d'
    by (simp add: dir_complete_def)
  have "copies_inv cfg t"
    unfolding copies_inv_def
  proof
    fix d'
    obtain n where n: "copy_inv (cfg_name cfg) d' (dir_copy d' s, r_shared s) n"
      using inv by (auto simp: relay_inv_def copies_inv_def)
    show "\<exists>n. copy_inv (cfg_name cfg) d' (dir_copy d' t, r_shared t) n"
    proof (cases "d' = d")
      case True
      then show ?thesis using copy_step_inv [OF n [unfolded True] cs] by (auto simp: t)
    next
      case False
      then have "copy_inv (cfg_name cfg) d' (dir_copy d' s, sh) n"
        using copy_inv_frame [OF n] shared(1) shared(3) [of d'] by simp
      then show ?thesis using False by (auto simp: t)
    qed
  qed
  moreover have "chan_inv t"
  proof -
    have old: "dir_ended d' t \<and> end_is (dir_copy d' t) = e'" if "(d', e') \<in> set (done_chan (r_shared s))" for d' e'
      using that inv keep [of d'] by (auto simp: relay_inv_def chan_inv_def)
    from shared(5) show ?thesis
    proof
      assume "done_chan sh = done_chan (r_shared s)"
      then show ?thesis using old by (auto simp: chan_inv_def t)
    next
      assume "\<exists>e. phase (dir_copy d s) = Reporting e \<and> phase c = Finished \<and>
        done_chan sh = done_chan (r_shared s) @ [(d, e)]"
      then obtain e where e: "phase (dir_copy d s) = Reporting e" "phase c = Finished"
          "done_chan sh = done_chan (r_shared s) @ [(d, e)]" by blast
      have "end_is (dir_copy d s) = e"
        using inv e(1) by (auto simp: relay_inv_def copies_inv_def copy_inv_def Let_def)
      moreover have "end_is c = end_is (dir_copy d s)"
        using cs e(1) by (cases ev) auto
      ultimately show ?thesis using old e by (auto simp: chan_inv_def t dir_ended_def)
    qed
  qed
  moreover have "wd_inv cfg t"
  proof -
    have "reason_holds cfg r s \<Longrightarrow> reason_holds cfg r t" for r
      by (erule reason_stays) (use keep t in auto)
    moreover have "wd_waits w s \<Longrightarrow> wd_waits w t" for w
      using complete shared(1,2) by (auto simp: wd_waits_def t)
    ultimately show ?thesis
      using inv shared(1,2) by (auto simp: relay_inv_def wd_inv_def t split: wd_phase.splits)
  qed
  moreover have "closed_inv cfg t"
  proof (cases "r_closed s")
    case None
    then show ?thesis
      using inv shared(4,6) by (auto simp: relay_inv_def closed_inv_def t)
  next
    case (Some x)
    then have "dir_ended d s" using inv by (auto simp: relay_inv_def closed_inv_def)
    then show ?thesis using run by (simp add: dir_ended_def)
  qed
  ultimately show ?thesis by (simp add: relay_inv_def)
qed

text \<open>The other steps change no copy task; here is what they must keep.\<close>

lemma other_step_inv:
  assumes inv: "relay_inv cfg s" and copies: "\<And>d. dir_copy d t = dir_copy d s"
    and "cancelled (r_shared s) \<Longrightarrow> cancelled (r_shared t)"
    and "metric_ops (r_shared t) = metric_ops (r_shared s)"
    and "set (done_chan (r_shared t)) \<subseteq> set (done_chan (r_shared s))"
    and "wd_inv cfg t" and closed: "r_closed t = r_closed s" and "r_closed s \<noteq> None \<Longrightarrow> r_wd t = r_wd s"
  shows "relay_inv cfg t"
proof -
  have ended: "dir_ended d t = dir_ended d s" for d
    using copies by (simp add: dir_ended_def)
  have "copies_inv cfg t"
    unfolding copies_inv_def
  proof
    fix d
    obtain n where "copy_inv (cfg_name cfg) d (dir_copy d s, r_shared s) n"
      using inv by (auto simp: relay_inv_def copies_inv_def)
    then have "copy_inv (cfg_name cfg) d (dir_copy d t, r_shared t) n"
      using copy_inv_frame [where sh' = "r_shared t"] assms(3,4) copies by simp
    then show "\<exists>n. copy_inv (cfg_name cfg) d (dir_copy d t, r_shared t) n" ..
  qed
  moreover have "chan_inv t"
    using inv assms(5) ended copies by (auto simp: relay_inv_def chan_inv_def)
  moreover have "closed_inv cfg t"
    using inv assms(4,8) closed ended copies [of Up] copies [of Down]
    by (cases "r_closed s") (auto simp: relay_inv_def closed_inv_def)
  ultimately show ?thesis using assms(6) by (simp add: relay_inv_def)
qed

lemma reason_same:
  "reason_holds cfg r s \<Longrightarrow> (\<And>d. dir_copy d t = dir_copy d s) \<Longrightarrow> (r_shutdown s \<Longrightarrow> r_shutdown t) \<Longrightarrow>
   reason_holds cfg r t"
  by (erule reason_stays) (simp_all add: dir_ended_def)

lemma wd_waits_same:
  "wd_waits w s \<Longrightarrow> (\<And>d. dir_copy d t = dir_copy d s) \<Longrightarrow>
   cancelled (r_shared t) = cancelled (r_shared s) \<Longrightarrow> rx_dropped (r_shared t) = rx_dropped (r_shared s) \<Longrightarrow>
   r_closed t = r_closed s \<Longrightarrow> (\<And>d. dir_done d w' \<Longrightarrow> dir_done d w \<or> dir_complete d s) \<Longrightarrow> wd_waits w' t"
  unfolding wd_waits_def dir_complete_def dir_ended_def by metis

lemma token_relay_inv:
  assumes "relay_inv cfg s" and "relay_step cfg TokenFires s = Some t"
  shows "relay_inv cfg t"
proof (rule other_step_inv [OF assms(1)])
  have t: "t = s\<lparr>r_shutdown := True\<rparr>" using assms(2) by (simp split: if_splits)
  have "reason_holds cfg r s \<Longrightarrow> reason_holds cfg r t" for r
    by (erule reason_same) (simp_all add: t)
  moreover have "wd_waits w s \<Longrightarrow> wd_waits w t" for w
    by (erule wd_waits_same) (simp_all add: t)
  ultimately show "wd_inv cfg t"
    using assms(1) by (auto simp: relay_inv_def wd_inv_def t split: wd_phase.splits)
qed (use assms(2) in \<open>auto split: if_splits\<close>)

lemma wd_returns_inv:
  assumes "wd_waits w s" and "reason_holds cfg (fst r) s" and "snd r = (fst r \<noteq> ''eof'')"
  shows "wd_inv cfg (wd_returns r s)"
proof -
  have "reason_holds cfg (fst r) (wd_returns r s)"
    by (rule reason_same [OF assms(2)]) (simp_all add: wd_returns_def)
  then show ?thesis using assms by (simp add: wd_inv_def wd_waits_def wd_returns_def)
qed

lemma turn_relay_inv:
  assumes inv: "relay_inv cfg s" and step: "relay_step cfg (WdTurn now) s = Some t"
  shows "relay_inv cfg t"
proof -
  obtain w where w: "r_wd s = WdTop w" using step by (auto split: wd_phase.splits)
  have waits: "wd_waits w s" using inv w by (simp add: relay_inv_def wd_inv_def)
  let ?chk = "wd_check (idle_timeout_secs cfg) (half_close_timeout_secs cfg) now
    (last_activity (r_shared s)) w"
  show ?thesis
  proof (cases ?chk)
    case (Inl r)
    then have t: "t = wd_returns r s" using step w by simp
    have fin: "dir_done d w \<Longrightarrow> dir_complete d s" for d
      using waits by (simp add: wd_waits_def)
    have "reason_holds cfg (fst r) s \<and> snd r = (fst r \<noteq> ''eof'')"
      using wd_check_Inl [OF Inl] fin [of Up] fin [of Down]
      by (elim disjE) (auto simp: reason_holds_def all_Dir ex_Dir)
    then have "wd_inv cfg t" using wd_returns_inv [OF waits] t by simp
    moreover have "r_closed s = None" using waits by (simp add: wd_waits_def)
    ultimately show ?thesis
      using other_step_inv [OF inv, of t] by (simp add: t wd_returns_def)
  next
    case (Inr p)
    obtain w' wake where p: "p = (w', wake)" by (cases p)
    have t: "t = s\<lparr>r_wd := WdSelect w'\<rparr>" using step w Inr p by simp
    have "dir_done d w' \<longleftrightarrow> dir_done d w" for d
      using wd_check_flags [OF Inr [unfolded p]] by (cases d) auto
    then have "wd_waits w' t"
      using wd_waits_same [OF waits, of t w'] by (simp add: t)
    moreover have "r_closed s = None" using waits by (simp add: wd_waits_def)
    ultimately show ?thesis
      using other_step_inv [OF inv, of t] by (simp add: t wd_inv_def)
  qed
qed

lemma set_tl_subset: "set (tl xs) \<subseteq> set xs"
  by (cases xs) auto

lemma event_relay_inv:
  assumes inv: "relay_inv cfg s" and step: "relay_step cfg (WdEvent ev) s = Some t"
  shows "relay_inv cfg t"
proof -
  obtain w where w: "r_wd s = WdSelect w" and ready: "select_ready s w ev"
    using step by (auto split: wd_phase.splits if_splits)
  have waits: "wd_waits w s" using inv w by (simp add: relay_inv_def wd_inv_def)
  have open': "r_closed s = None" "\<not> cancelled (r_shared s)"
    using waits by (simp_all add: wd_waits_def)
  have ended: "dir_ended d s \<and> end_is (dir_copy d s) = e" if "ev = Recv d e" for d e
  proof -
    have "(d, e) \<in> set (done_chan (r_shared s))"
      using ready that by (auto simp: select_ready_def) (metis list.set_sel(1))
    then show ?thesis using inv by (auto simp: relay_inv_def chan_inv_def)
  qed
  have takes: "dir_copy d (select_takes ev s) = dir_copy d s"
      "cancelled (r_shared (select_takes ev s)) = cancelled (r_shared s)"
      "rx_dropped (r_shared (select_takes ev s)) = rx_dropped (r_shared s)"
      "metric_ops (r_shared (select_takes ev s)) = metric_ops (r_shared s)"
      "r_closed (select_takes ev s) = r_closed s" "r_shutdown (select_takes ev s) = r_shutdown s"
      "set (done_chan (r_shared (select_takes ev s))) \<subseteq> set (done_chan (r_shared s))" for d
    by (simp_all add: select_takes_def set_tl_subset split: wd_event.splits)
  have waits': "wd_waits w (select_takes ev s)"
    by (rule wd_waits_same [OF waits]) (simp_all add: takes)
  show ?thesis
  proof (cases "wd_select ev w")
    case (Inl r)
    then have t: "t = wd_returns r (select_takes ev s)" using step w ready by simp
    have "ev = ShutdownSeen \<and> r = (''shutdown'', True) \<or> (\<exists>d. ev = Recv d Err \<and> r = (''reset'', True))"
      using Inl by (cases "(ev, w)" rule: wd_select.cases) auto
    then have "reason_holds cfg (fst r) s \<and> snd r = (fst r \<noteq> ''eof'')"
    proof
      assume "ev = ShutdownSeen \<and> r = (''shutdown'', True)"
      then show ?thesis using ready by (simp add: reason_holds_def select_ready_def)
    next
      assume "\<exists>d. ev = Recv d Err \<and> r = (''reset'', True)"
      then show ?thesis using ended by (auto simp: reason_holds_def)
    qed
    then have "reason_holds cfg (fst r) (select_takes ev s) \<and> snd r = (fst r \<noteq> ''eof'')"
      using reason_same [of cfg "fst r" s "select_takes ev s"] takes by simp
    then have "wd_inv cfg t" using wd_returns_inv [OF waits'] t by simp
    then show ?thesis
      using other_step_inv [OF inv, of t] takes open' by (simp add: t wd_returns_def)
  next
    case (Inr w')
    then have t: "t = select_takes ev s\<lparr>r_wd := WdTop w'\<rparr>" using step w ready by simp
    have "dir_done d w' \<Longrightarrow> dir_done d w \<or> ev = Recv d Eof" for d
      using Inr by (cases "(ev, w)" rule: wd_select.cases; cases d) auto
    moreover have "ev = Recv d Eof \<Longrightarrow> dir_complete d s" for d
      using ended clean_end_complete [of cfg s d] inv open' by (auto simp: relay_inv_def)
    ultimately have "wd_waits w' t"
      using wd_waits_same [OF waits, of t w'] takes by (force simp: t)
    then show ?thesis
      using other_step_inv [OF inv, of t] takes open' by (simp add: t wd_inv_def)
  qed
qed

lemma close_relay_inv:
  assumes inv: "relay_inv cfg s" and step: "relay_step cfg Close s = Some t"
  shows "relay_inv cfg t"
proof -
  obtain r where r: "r_wd s = WdReturned r" "\<forall>d. dir_ended d s" "r_closed s = None"
    and t: "t = s\<lparr>r_closed := Some (total_copied (r_up s), total_copied (r_down s), r),
      r_shared := (r_shared s)\<lparr>metric_ops := metric_ops (r_shared s) @
        [Inc ConnectionsClosed [cfg_name cfg, r]]\<rparr>\<rparr>"
    using step by (auto simp: all_Dir dir_ended_def split: wd_phase.splits if_splits)
  have copies: "dir_copy d t = dir_copy d s" for d by (simp add: t)
  have "copies_inv cfg t"
    unfolding copies_inv_def
  proof
    fix d
    obtain n where n: "copy_inv (cfg_name cfg) d (dir_copy d s, r_shared s) n"
      using inv by (auto simp: relay_inv_def copies_inv_def)
    have "copy_inv (cfg_name cfg) d (dir_copy d s, r_shared t) n"
      by (rule copy_inv_frame [OF n]) (simp_all add: t)
    then show "\<exists>n. copy_inv (cfg_name cfg) d (dir_copy d t, r_shared t) n"
      using copies by auto
  qed
  moreover have "chan_inv t"
    using inv copies by (auto simp: relay_inv_def chan_inv_def dir_ended_def t)
  moreover have "reason_holds cfg r t"
    by (rule reason_same [of cfg r s]) (use inv r copies in \<open>auto simp: relay_inv_def wd_inv_def t\<close>)
  then have "wd_inv cfg t"
    using inv r by (simp add: relay_inv_def wd_inv_def t)
  moreover have "closed_inv cfg t"
    using inv r by (auto simp: relay_inv_def closed_inv_def t dir_ended_def relay_op_def well_labelled_def)
  ultimately show ?thesis by (simp add: relay_inv_def)
qed

definition relay_init :: "relay_sys \<Rightarrow> bool" where
  "relay_init s \<longleftrightarrow> (\<exists>now. s = relay_start now)"

interpretation relay: invariant_system relay_init "relay_step cfg" "relay_inv cfg" for cfg
proof unfold_locales
  show "relay_inv cfg s" if "relay_init s" for s
    using that relay_start_inv by (auto simp: relay_init_def)
  show "relay_inv cfg t" if "relay_inv cfg s" "relay_step cfg e s = Some t" for s e t
    using that
    by (cases e) (blast intro: copy_relay_inv token_relay_inv turn_relay_inv event_relay_inv
        close_relay_inv)+
qed

section \<open>After the watchdog returned\<close>

definition relay_rank :: "relay_sys \<Rightarrow> nat" where
  "relay_rank s =
     copy_rank (phase (r_up s)) + copy_rank (phase (r_down s)) +
     (if r_closed s = None then 1 else 0) + (if r_shutdown s then 0 else 1)"

lemma copies_chunk_ok: "copies_inv cfg s \<Longrightarrow> chunk_ok (phase (dir_copy d s))"
  by (auto simp: copies_inv_def copy_inv_def Let_def)

lemma copy_rank_bound: "chunk_ok ph \<Longrightarrow> copy_rank ph \<le> 2 + BUF_SIZE"
  by (cases ph) (auto simp: BUF_SIZE_def)

lemma relay_rank_bound:
  assumes "relay_inv cfg s"
  shows "relay_rank s \<le> 2 * (BUF_SIZE + 2) + 2"
  using copy_rank_bound [OF copies_chunk_ok, of cfg s Up]
    copy_rank_bound [OF copies_chunk_ok, of cfg s Down] assms
  by (simp add: relay_rank_def relay_inv_def)

lemma returned_step:
  assumes inv: "relay_inv cfg s" and wd: "r_wd s = WdReturned r" and step: "relay_step cfg e s = Some t"
  shows "r_wd t = WdReturned r \<and> relay_rank t < relay_rank s"
proof (cases e)
  case (Copy d ev)
  obtain c sh where cs: "copy_step (cfg_name cfg) d ev (dir_copy d s, r_shared s) = Some (c, sh)"
    and t: "t = set_copy d c (s\<lparr>r_shared := sh\<rparr>)"
    using step Copy by (auto split: option.splits)
  have "cancelled (r_shared s)"
  proof (rule ccontr)
    assume "\<not> cancelled (r_shared s)"
    then have "\<forall>d. dir_complete d s"
      using inv wd by (auto simp: relay_inv_def wd_inv_def reason_holds_def)
    then show False
      using copy_step_not_ended [OF cs] by (simp add: dir_complete_def dir_ended_def)
  qed
  then have less: "copy_rank (phase c) < copy_rank (phase (dir_copy d s))"
    using copy_rank_decreases [OF cs] copies_chunk_ok inv by (auto simp: relay_inv_def)
  show ?thesis
  proof (cases d)
    case Up
    then show ?thesis using less wd t by (simp add: relay_rank_def)
  next
    case Down
    then show ?thesis using less wd t by (simp add: relay_rank_def)
  qed
qed (use wd step in \<open>auto simp: relay_rank_def split: if_splits\<close>)

lemma returned_progress:
  assumes wd: "r_wd s = WdReturned r" and "r_closed s = None"
  shows "\<exists>e. relay_step cfg e s \<noteq> None \<and> e \<noteq> TokenFires"
proof (cases "\<exists>d. phase (dir_copy d s) \<noteq> Finished")
  case True
  then obtain d ev where "copy_step (cfg_name cfg) d ev (dir_copy d s, r_shared s) \<noteq> None"
    using copy_can_step by blast
  then show ?thesis by (intro exI [of _ "Copy d ev"]) (auto split: option.splits)
next
  case False
  then have "phase (r_up s) = Finished" "phase (r_down s) = Finished"
    by (metis dir_copy.simps)+
  then show ?thesis using assms by (intro exI [of _ Close]) simp
qed

lemma returned_run:
  "relay_inv cfg s \<Longrightarrow> r_wd s = WdReturned r \<Longrightarrow> run (relay_step cfg) es s = Some t \<Longrightarrow>
     r_wd t = WdReturned r \<and> length es + relay_rank t \<le> relay_rank s"
proof (induction es arbitrary: s)
  case (Cons e es)
  then obtain s1 where s1: "relay_step cfg e s = Some s1" "run (relay_step cfg) es s1 = Some t"
    by (auto split: option.splits)
  have "relay_inv cfg s1" using relay.inv_next Cons.prems(1) s1(1) by blast
  then show ?case
    using Cons.IH [of s1] returned_step [OF Cons.prems(1,2) s1(1)] s1(2) by force
qed simp

section \<open>A connection\<close>

text \<open>
  The client sends three bytes, which the upstream takes in two pieces, and ends its stream; the
  upstream then ends its own. \<open>demo_open\<close> stops after the watchdog's return, \<open>demo_closed\<close> at the end.
\<close>

definition demo_events :: "relay_event list" where
  "demo_events =
     [Copy Up Poll, Copy Up (ReadOk [1, 2, 3] 7), Copy Up Poll, Copy Up (Took 2), Copy Up (Took 1),
      Copy Up Poll, Copy Up ReadEof, Copy Up ShutDone, Copy Up Report,
      WdTurn 8, WdEvent (Recv Up Eof),
      Copy Down Poll, Copy Down ReadEof, Copy Down ShutDone, Copy Down Report,
      WdTurn 9, WdEvent (Recv Down Eof), WdTurn 10]"

definition demo_open :: relay_sys where
  "demo_open =
     \<lparr>r_shared = \<lparr>cancelled = False, last_activity = 7, done_chan = [], rx_dropped = True,
                   metric_ops = [IncBy BytesTotal [''p'', ''up''] 3]\<rparr>,
      r_up = \<lparr>phase = Finished, end_is = Eof, total_copied = 3, bytes_in = [1, 2, 3],
              bytes_out = [1, 2, 3], write_shut = True\<rparr>,
      r_down = \<lparr>phase = Finished, end_is = Eof, total_copied = 0, bytes_in = [],
                bytes_out = [], write_shut = True\<rparr>,
      r_wd = WdReturned ''eof'', r_shutdown = False, r_closed = None\<rparr>"

definition demo_closed :: relay_sys where
  "demo_closed =
     demo_open\<lparr>r_closed := Some (3, 0, ''eof''),
       r_shared := (r_shared demo_open)\<lparr>metric_ops :=
         [IncBy BytesTotal [''p'', ''up''] 3, Inc ConnectionsClosed [''p'', ''eof'']]\<rparr>\<rparr>"

definition demo_cfg :: ProxyConfig where
  "demo_cfg = default_config\<lparr>cfg_name := ''p'', cfg_proxy_protocol := True\<rparr>"

lemmas relay_eval = wd_eval relay_start_def copy_start_def count_chunk_def BUF_SIZE_def
  wd_returns_def select_ready_def select_takes_def demo_cfg_def default_config_def default_consts
  dir_label_def

lemma demo_run: "run (relay_step demo_cfg) demo_events (relay_start 5) = Some demo_open"
  by (simp add: demo_events_def demo_open_def relay_eval)

lemma demo_close: "run (relay_step demo_cfg) [Close] demo_open = Some demo_closed"
  by (simp add: demo_open_def demo_closed_def relay_eval)

lemma demo_reach:
  "reach relay_init (relay_step demo_cfg) demo_open"
  "reach relay_init (relay_step demo_cfg) demo_closed"
proof -
  have start: "reach relay_init (relay_step demo_cfg) (relay_start 5)"
    by (rule reach_init) (auto simp: relay_init_def)
  show "reach relay_init (relay_step demo_cfg) demo_open"
    using run_reach [OF start demo_run] .
  then show "reach relay_init (relay_step demo_cfg) demo_closed"
    using run_reach [OF _ demo_close] by blast
qed

section \<open>Properties\<close>

text \<open>
  C2: Nothing is lost, repeated, reordered or invented: at any moment and in any interleaving,
  what a direction has written is a prefix of what it has read.
\<close>

theorem relay_delivers_in_order:
  assumes "reach relay_init (relay_step cfg) s"
  shows "\<exists>rest. bytes_in (dir_copy d s) = bytes_out (dir_copy d s) @ rest"
  using relay.inv_reachable [OF assms]
  by (auto simp: relay_inv_def copies_inv_def copy_inv_def Let_def)

theorem relay_delivers_in_order_witness:
  "\<exists>rest. bytes_in (dir_copy Up demo_closed) = bytes_out (dir_copy Up demo_closed) @ rest"
  by (rule relay_delivers_in_order [OF demo_reach(2)])

text \<open>
  C1: A connection closed as \<open>eof\<close> was relayed completely: both directions wrote every byte they read,
  on both write sides \<open>shutdown()\<close> was awaited after the last byte, and the two totals of the close log
  are the lengths of the two streams (modulo the width of the counter).
\<close>

theorem relay_eof_complete:
  assumes "reach relay_init (relay_step cfg) s" and "r_closed s = Some (u, v, ''eof'')"
  shows "bytes_out (dir_copy d s) = bytes_in (dir_copy d s) \<and> write_shut (dir_copy d s) \<and>
    u = of_nat (length (bytes_in (r_up s))) \<and> v = of_nat (length (bytes_in (r_down s)))"
proof -
  note inv = relay.inv_reachable [OF assms(1)]
  have wd: "r_wd s = WdReturned ''eof''" and uv: "u = total_copied (r_up s)" "v = total_copied (r_down s)"
    using inv assms(2) by (auto simp: relay_inv_def closed_inv_def)
  have not_cancelled: "\<not> cancelled (r_shared s)" and all: "\<And>d. dir_complete d s"
    using inv wd by (auto simp: relay_inv_def wd_inv_def reason_holds_def)
  have whole: "delivered_all (dir_copy d s) \<and>
      total_copied (dir_copy d s) = of_nat (length (bytes_in (dir_copy d s)))" for d
  proof -
    obtain n where n: "copy_inv (cfg_name cfg) d (dir_copy d s, r_shared s) n"
      using inv by (auto simp: relay_inv_def copies_inv_def)
    have "phase (dir_copy d s) = Finished" "end_is (dir_copy d s) = Eof"
        "delivered_all (dir_copy d s)"
      using all [of d] by (simp_all add: dir_complete_def dir_ended_def)
    then show ?thesis
      using n not_cancelled by (auto simp: copy_inv_def Let_def delivered_all_def)
  qed
  show ?thesis
    using whole [of d] whole [of Up] whole [of Down] uv by (simp add: delivered_all_def)
qed

theorem relay_eof_complete_witness:
  "bytes_out (dir_copy Up demo_closed) = [1, 2, 3] \<and> write_shut (dir_copy Up demo_closed) \<and>
   (3 :: u64) = of_nat (length (bytes_in (r_up demo_closed)))"
proof -
  have c: "r_closed demo_closed = Some (3, 0, ''eof'')" and b: "bytes_in (dir_copy Up demo_closed) = [1, 2, 3]"
    by (simp_all add: demo_closed_def demo_open_def)
  show ?thesis using relay_eof_complete [OF demo_reach(2) c, of Up] b by simp
qed

text \<open>
  C17: The close log and the byte counters agree: for a closed connection each logged total is the
  amount added to the direction's \<open>bytes_total\<close> child (modulo the width of the counter), which
  is at most one buffer less than what reached the other side and never more; and exactly one
  close is counted, under the logged reason.
\<close>

theorem relay_counts_agree:
  assumes "reach relay_init (relay_step cfg) s" and "r_closed s = Some (u, v, r)"
  shows "(let ops = metric_ops (r_shared s);
            up = counted BytesTotal [cfg_name cfg, ''up''] ops;
            down = counted BytesTotal [cfg_name cfg, ''down''] ops in
          u = of_nat up \<and> v = of_nat down \<and>
          up \<le> length (bytes_out (r_up s)) \<and> length (bytes_out (r_up s)) \<le> up + 16384 \<and>
          down \<le> length (bytes_out (r_down s)) \<and> length (bytes_out (r_down s)) \<le> down + 16384 \<and>
          (\<forall>ls. counted ConnectionsClosed ls ops = (if ls = [cfg_name cfg, r] then 1 else 0)) \<and>
          list_all well_labelled ops)"
proof -
  note inv = relay.inv_reachable [OF assms(1)]
  have n: "copy_inv (cfg_name cfg) d (dir_copy d s, r_shared s)
      (counted BytesTotal [cfg_name cfg, dir_label d] (metric_ops (r_shared s)))" for d
    using inv unfolding relay_inv_def copies_inv_def copy_inv_def Let_def by auto
  have "list_all well_labelled (metric_ops (r_shared s))"
    using inv by (auto simp: relay_inv_def closed_inv_def relay_op_def list_all_iff)
  then show ?thesis
    using n [of Up] n [of Down] inv assms(2)
    by (simp add: copy_inv_def Let_def dir_label_def BUF_SIZE_def relay_inv_def closed_inv_def)
qed

theorem relay_counts_agree_witness:
  "counted BytesTotal [''p'', ''up''] (metric_ops (r_shared demo_closed)) = 3 \<and>
   (3 :: u64) = of_nat (counted BytesTotal [''p'', ''up''] (metric_ops (r_shared demo_closed)))"
proof -
  have c: "r_closed demo_closed = Some (3, 0, ''eof'')"
    by (simp add: demo_closed_def)
  have k: "counted BytesTotal [''p'', ''up''] (metric_ops (r_shared demo_closed)) = 3"
    by (simp add: demo_closed_def)
  show ?thesis
    using relay_counts_agree [OF demo_reach(2) c] k by (simp add: demo_cfg_def)
qed

text \<open>
  C18: The relay comes to its end. Once the watchdog has returned, whatever the peers do (never
  read, never write), at most \<open>2 * (BUF_SIZE + 2) + 2\<close> more polls are possible, one is possible
  as long as the connection is not closed, and the close reports the watchdog's reason.
\<close>

theorem relay_closes:
  assumes "reach relay_init (relay_step cfg) s" and "r_wd s = WdReturned r"
    and "run (relay_step cfg) es s = Some t"
  shows "length es \<le> 2 * (BUF_SIZE + 2) + 2 \<and>
    (case r_closed t of
       None \<Rightarrow> \<exists>e. relay_step cfg e t \<noteq> None \<and> e \<noteq> TokenFires
     | Some (u, v, r') \<Rightarrow> r' = r)"
proof -
  note inv = relay.inv_reachable [OF assms(1)]
  note run = returned_run [OF inv assms(2,3)]
  have inv': "relay_inv cfg t" using relay.inv_along_run [OF inv assms(3)] .
  show ?thesis
    using run relay_rank_bound [OF inv] returned_progress [of t r cfg] inv'
    by (auto simp: relay_inv_def closed_inv_def split: option.splits)
qed

theorem relay_closes_witness:
  "length [Close] \<le> 2 * (BUF_SIZE + 2) + 2 \<and> r_closed demo_closed = Some (3, 0, ''eof'')"
proof -
  have w: "r_wd demo_open = WdReturned ''eof''" and c: "r_closed demo_closed = Some (3, 0, ''eof'')"
    by (simp_all add: demo_open_def demo_closed_def)
  show ?thesis using relay_closes [OF demo_reach(1) w demo_close] c by simp
qed

text \<open>
  C32: The idle clock follows reads, not writes: the stamp changes in no step but a read, so a
  peer that keeps taking bytes of a chunk read earlier does not count as activity. There is a
  run in which the upstream takes a byte in the very step before the watchdog kills the
  connection as idle.
\<close>

theorem idle_clock_ignores_writes:
  "(case copy_step nm d ev (c, sh) of
      None \<Rightarrow> True
    | Some (c', sh') \<Rightarrow>
        last_activity sh' = (case ev of ReadOk chunk now \<Rightarrow> now | _ \<Rightarrow> last_activity sh)) \<and>
   (\<exists>s s' t. reach relay_init (relay_step demo_cfg) s \<and>
      relay_step demo_cfg (Copy Up (Took 1)) s = Some s' \<and>
      length (bytes_out (r_up s')) = Suc (length (bytes_out (r_up s))) \<and>
      relay_step demo_cfg (WdTurn 300000) s' = Some t \<and> r_wd t = WdReturned ''idle_timeout'')"
proof (rule conjI)
  show "case copy_step nm d ev (c, sh) of
      None \<Rightarrow> True
    | Some (c', sh') \<Rightarrow>
        last_activity sh' = (case ev of ReadOk chunk now \<Rightarrow> now | _ \<Rightarrow> last_activity sh)"
    by (cases ev; cases "phase c") (simp_all add: count_chunk_def Let_def)
  let ?es = "[Copy Up Poll, Copy Up (ReadOk [1, 2, 3] 0), Copy Up Poll, Copy Up (Took 1)]"
  have start: "reach relay_init (relay_step demo_cfg) (relay_start 0)"
    by (rule reach_init) (auto simp: relay_init_def)
  obtain s where s: "run (relay_step demo_cfg) ?es (relay_start 0) = Some s"
      and facts: "phase (r_up s) = WriteReady [1, 2, 3] [2, 3]" "r_wd s = WdTop wd_start"
        "last_activity (r_shared s) = 0"
    by (simp add: relay_eval)
  obtain s' where s': "relay_step demo_cfg (Copy Up (Took 1)) s = Some s'"
      and facts': "length (bytes_out (r_up s')) = Suc (length (bytes_out (r_up s)))"
        "r_wd s' = WdTop wd_start" "last_activity (r_shared s') = 0"
    using facts by simp
  have "wd_check 300 30 300000 0 wd_start = Inl (''idle_timeout'', True)"
    by (simp add: wd_eval)
  then have "relay_step demo_cfg (WdTurn 300000) s' = Some (wd_returns (''idle_timeout'', True) s')"
    using facts' by (simp add: demo_cfg_def default_config_def default_consts)
  then show "\<exists>s s' t. reach relay_init (relay_step demo_cfg) s \<and>
      relay_step demo_cfg (Copy Up (Took 1)) s = Some s' \<and>
      length (bytes_out (r_up s')) = Suc (length (bytes_out (r_up s))) \<and>
      relay_step demo_cfg (WdTurn 300000) s' = Some t \<and> r_wd t = WdReturned ''idle_timeout''"
    using run_reach [OF start s] s' facts' by (auto simp: wd_returns_def)
qed

end
