(* ===== verification/Net.thy ===== *)
theory Net
  imports Prelude
begin

text \<open>
  The part of \<open>std::net\<close> the program uses: IPv4 and IPv6 addresses, socket addresses, the
  octets of an address, network byte order for ports, and \<open>IpAddr::to_canonical\<close>, which turns
  an IPv4-mapped IPv6 address into the IPv4 address it carries.
\<close>

unbundle bit_operations_syntax

datatype ipv4_addr = Ipv4 u8 u8 u8 u8

text \<open>An IPv6 address by its eight 16-bit segments, as \<open>Ipv6Addr::new\<close> takes them.\<close>

datatype ipv6_addr = Ipv6 u16 u16 u16 u16 u16 u16 u16 u16

datatype ip_addr = is_V4: V4 ipv4_addr | V6 ipv6_addr

text \<open>\<open>SocketAddrV6\<close> also carries the flow label and the scope id.\<close>

datatype socket_addr = SockV4 ipv4_addr u16 | SockV6 ipv6_addr u16 u32 u32

fun sock_ip :: "socket_addr \<Rightarrow> ip_addr" where
  "sock_ip (SockV4 a _) = V4 a"
| "sock_ip (SockV6 a _ _ _) = V6 a"

fun sock_port :: "socket_addr \<Rightarrow> u16" where
  "sock_port (SockV4 _ p) = p"
| "sock_port (SockV6 _ p _ _) = p"

text \<open>\<open>u16::to_be_bytes\<close> and \<open>u16::from_be_bytes\<close>.\<close>

definition u16_to_be :: "u16 \<Rightarrow> u8 list" where
  "u16_to_be x = [ucast (drop_bit 8 x), ucast x]"

definition u16_of_be :: "u8 \<Rightarrow> u8 \<Rightarrow> u16" where
  "u16_of_be hi lo = push_bit 8 (ucast hi) OR ucast lo"

fun octets4 :: "ipv4_addr \<Rightarrow> u8 list" where
  "octets4 (Ipv4 a b c d) = [a, b, c, d]"

fun octets6 :: "ipv6_addr \<Rightarrow> u8 list" where
  "octets6 (Ipv6 a b c d e f g h) =
     u16_to_be a @ u16_to_be b @ u16_to_be c @ u16_to_be d @
     u16_to_be e @ u16_to_be f @ u16_to_be g @ u16_to_be h"

fun to_ipv4_mapped :: "ipv6_addr \<Rightarrow> ipv4_addr option" where
  "to_ipv4_mapped (Ipv6 a b c d e f g h) =
     (if a = 0 \<and> b = 0 \<and> c = 0 \<and> d = 0 \<and> e = 0 \<and> f = 0xFFFF
      then Some (Ipv4 (ucast (drop_bit 8 g)) (ucast g) (ucast (drop_bit 8 h)) (ucast h))
      else None)"

fun to_canonical :: "ip_addr \<Rightarrow> ip_addr" where
  "to_canonical (V4 a) = V4 a"
| "to_canonical (V6 a) = (case to_ipv4_mapped a of Some m \<Rightarrow> V4 m | None \<Rightarrow> V6 a)"

lemma length_u16_to_be [simp]: "length (u16_to_be x) = 2"
  by (simp add: u16_to_be_def)

lemma length_octets4 [simp]: "length (octets4 a) = 4"
  by (cases a) simp

lemma length_octets6 [simp]: "length (octets6 a) = 16"
  by (cases a) simp

lemma u16_of_be_to_be: "u16_of_be (ucast (drop_bit 8 x)) (ucast x) = x"
  unfolding u16_of_be_def
  by (rule bit_word_eqI) (auto simp: bit_simps not_less)

text \<open>Reading an address back from its octets, as a receiver of the bytes does.\<close>

fun of_octets4 :: "u8 list \<Rightarrow> ipv4_addr option" where
  "of_octets4 [a, b, c, d] = Some (Ipv4 a b c d)"
| "of_octets4 _ = None"

fun of_octets6 :: "u8 list \<Rightarrow> ipv6_addr option" where
  "of_octets6 [a0, a1, b0, b1, c0, c1, d0, d1, e0, e1, f0, f1, g0, g1, h0, h1] =
     Some (Ipv6 (u16_of_be a0 a1) (u16_of_be b0 b1) (u16_of_be c0 c1) (u16_of_be d0 d1)
                (u16_of_be e0 e1) (u16_of_be f0 f1) (u16_of_be g0 g1) (u16_of_be h0 h1))"
| "of_octets6 _ = None"

fun of_be_port :: "u8 list \<Rightarrow> u16 option" where
  "of_be_port [hi, lo] = Some (u16_of_be hi lo)"
| "of_be_port _ = None"

lemma of_octets4_octets4 [simp]: "of_octets4 (octets4 a) = Some a"
  by (cases a) simp

lemma of_octets6_octets6 [simp]: "of_octets6 (octets6 a) = Some a"
  by (cases a) (simp add: u16_to_be_def u16_of_be_to_be)

lemma of_be_port_to_be [simp]: "of_be_port (u16_to_be p) = Some p"
  by (simp add: u16_to_be_def u16_of_be_to_be)

lemma to_canonical_idem: "to_canonical (to_canonical a) = to_canonical a"
  by (cases a) (auto split: option.splits)

end
