(* ===== verification/Proxy_Protocol.thy ===== *)
theory Proxy_Protocol
  imports Net
begin

text \<open>
  The PROXY protocol v2 header of \<open>src/proxy/proxy_protocol.rs\<close>, the first bytes oxiduct writes
  to a backend that is to see the real client, and the reader of such a header as the protocol
  defines it, against which the header is proved to say what it is meant to say.
\<close>

section \<open>The writer\<close>

definition SIGNATURE :: "u8 list" where
  "SIGNATURE = [0x0D, 0x0A, 0x0D, 0x0A, 0x00, 0x0D, 0x0A, 0x51, 0x55, 0x49, 0x54, 0x0A]"

definition VER_CMD_PROXY :: u8 where "VER_CMD_PROXY = 0x21"
definition VER_CMD_LOCAL :: u8 where "VER_CMD_LOCAL = 0x20"
definition TP_TCP4 :: u8 where "TP_TCP4 = 0x11"
definition TP_TCP6 :: u8 where "TP_TCP6 = 0x21"
definition TP_UNSPEC :: u8 where "TP_UNSPEC = 0x00"

definition v2_header :: "socket_addr \<Rightarrow> socket_addr \<Rightarrow> u8 list" where
  "v2_header src dst =
     SIGNATURE @
     (case (to_canonical (sock_ip src), to_canonical (sock_ip dst)) of
        (V4 s, V4 d) \<Rightarrow>
          [VER_CMD_PROXY, TP_TCP4] @ u16_to_be 12 @ octets4 s @ octets4 d @
          u16_to_be (sock_port src) @ u16_to_be (sock_port dst)
      | (V6 s, V6 d) \<Rightarrow>
          [VER_CMD_PROXY, TP_TCP6] @ u16_to_be 36 @ octets6 s @ octets6 d @
          u16_to_be (sock_port src) @ u16_to_be (sock_port dst)
      | _ \<Rightarrow> [VER_CMD_LOCAL, TP_UNSPEC] @ u16_to_be 0)"

section \<open>A reader of version 2 headers\<close>

text \<open>
  The receiver's side, from the protocol: 12 bytes of signature, one byte of version and
  command, one of family and transport, the length of the address block in network order, then
  the block, then the connection's own bytes. It returns what the header announces and those
  remaining bytes, or nothing for bytes that are no such header.
\<close>

datatype announced =
    Announced ip_addr u16 ip_addr u16
  | UseRealPeer

definition read_block :: "u8 \<Rightarrow> u8 list \<Rightarrow> announced option" where
  "read_block fam blk =
     (if fam = 0x11 \<and> length blk = 12 then
        (case (of_octets4 (take 4 blk), of_octets4 (take 4 (drop 4 blk)),
               of_be_port (take 2 (drop 8 blk)), of_be_port (drop 10 blk)) of
           (Some s, Some d, Some sp, Some dp) \<Rightarrow> Some (Announced (V4 s) sp (V4 d) dp)
         | _ \<Rightarrow> None)
      else if fam = 0x21 \<and> length blk = 36 then
        (case (of_octets6 (take 16 blk), of_octets6 (take 16 (drop 16 blk)),
               of_be_port (take 2 (drop 32 blk)), of_be_port (drop 34 blk)) of
           (Some s, Some d, Some sp, Some dp) \<Rightarrow> Some (Announced (V6 s) sp (V6 d) dp)
         | _ \<Rightarrow> None)
      else None)"

definition read_v2 :: "u8 list \<Rightarrow> (announced \<times> u8 list) option" where
  "read_v2 bs =
     (if length bs < 16 \<or> take 12 bs \<noteq> [13, 10, 13, 10, 0, 13, 10, 81, 85, 73, 84, 10] then None
      else
        let cmd = bs ! 12; fam = bs ! 13; len = unat (u16_of_be (bs ! 14) (bs ! 15));
            body = drop 16 bs; blk = take len body; rest = drop len body in
        if length body < len then None
        else if cmd = 0x20 then Some (UseRealPeer, rest)
        else if cmd = 0x21 then map_option (\<lambda>a. (a, rest)) (read_block fam blk)
        else None)"

section \<open>Lemmas\<close>

lemmas header_consts = SIGNATURE_def VER_CMD_PROXY_def VER_CMD_LOCAL_def TP_TCP4_def TP_TCP6_def
  TP_UNSPEC_def

lemma length_SIGNATURE [simp]: "length SIGNATURE = 12"
  by (simp add: SIGNATURE_def)

text \<open>The header is 16 fixed bytes and an address block whose length they state.\<close>

lemma read_v2_frame:
  assumes "length blk = unat (u16_of_be hi lo)"
  shows "read_v2 (SIGNATURE @ [cmd, fam, hi, lo] @ blk @ rest) =
     (if cmd = 0x20 then Some (UseRealPeer, rest)
      else if cmd = 0x21 then map_option (\<lambda>a. (a, rest)) (read_block fam blk) else None)"
  using assms by (simp add: read_v2_def SIGNATURE_def Let_def)

lemma read_block_v4:
  "read_block 0x11 (octets4 s @ octets4 d @ u16_to_be sp @ u16_to_be dp) =
     Some (Announced (V4 s) sp (V4 d) dp)"
  by (simp add: read_block_def)

lemma read_block_v6:
  "read_block 0x21 (octets6 s @ octets6 d @ u16_to_be sp @ u16_to_be dp) =
     Some (Announced (V6 s) sp (V6 d) dp)"
  by (simp add: read_block_def)

lemma header_cases:
  obtains (v4) s d where "to_canonical (sock_ip src) = V4 s" "to_canonical (sock_ip dst) = V4 d"
      "v2_header src dst = SIGNATURE @ [0x21, 0x11, 0, 12] @
         (octets4 s @ octets4 d @ u16_to_be (sock_port src) @ u16_to_be (sock_port dst))"
  | (v6) s d where "to_canonical (sock_ip src) = V6 s" "to_canonical (sock_ip dst) = V6 d"
      "v2_header src dst = SIGNATURE @ [0x21, 0x21, 0, 36] @
         (octets6 s @ octets6 d @ u16_to_be (sock_port src) @ u16_to_be (sock_port dst))"
  | (mixed) "is_V4 (to_canonical (sock_ip src)) \<noteq> is_V4 (to_canonical (sock_ip dst))"
      "v2_header src dst = SIGNATURE @ [0x20, 0x00, 0, 0]"
proof -
  have be: "u16_to_be 12 = [0, 12]" "u16_to_be 36 = [0, 36]" "u16_to_be 0 = [0, 0]"
    by (simp_all add: u16_to_be_def)
  show thesis
    by (cases "to_canonical (sock_ip src)"; cases "to_canonical (sock_ip dst)")
      (auto simp: v2_header_def header_consts be intro: v4 v6 mixed)
qed

section \<open>Properties\<close>

text \<open>What a header for these two endpoints has to announce.\<close>

definition endpoints :: "socket_addr \<Rightarrow> socket_addr \<Rightarrow> announced" where
  "endpoints src dst =
     (let s = to_canonical (sock_ip src); d = to_canonical (sock_ip dst) in
      if is_V4 s = is_V4 d then Announced s (sock_port src) d (sock_port dst) else UseRealPeer)"

lemma header_read_back:
  "read_v2 (v2_header src dst @ payload) = Some (endpoints src dst, payload)"
proof (cases src dst rule: header_cases)
  case (v4 s d)
  have "read_v2 (v2_header src dst @ payload) = read_v2 (SIGNATURE @ [0x21, 0x11, 0, 12] @
      (octets4 s @ octets4 d @ u16_to_be (sock_port src) @ u16_to_be (sock_port dst)) @ payload)"
    by (simp add: v4(3))
  also have "\<dots> = Some (endpoints src dst, payload)"
    by (subst read_v2_frame) (simp_all add: read_block_v4 endpoints_def v4(1,2) u16_of_be_def)
  finally show ?thesis .
next
  case (v6 s d)
  have "read_v2 (v2_header src dst @ payload) = read_v2 (SIGNATURE @ [0x21, 0x21, 0, 36] @
      (octets6 s @ octets6 d @ u16_to_be (sock_port src) @ u16_to_be (sock_port dst)) @ payload)"
    by (simp add: v6(3))
  also have "\<dots> = Some (endpoints src dst, payload)"
    by (subst read_v2_frame) (simp_all add: read_block_v6 endpoints_def v6(1,2) u16_of_be_def)
  finally show ?thesis .
next
  case mixed
  have "read_v2 (v2_header src dst @ payload) =
      read_v2 (SIGNATURE @ [0x20, 0x00, 0, 0] @ [] @ payload)"
    by (simp add: mixed(2))
  also have "\<dots> = Some (endpoints src dst, payload)"
    using mixed(1) by (subst read_v2_frame) (simp_all add: endpoints_def u16_of_be_def)
  finally show ?thesis .
qed

text \<open>
  C24: A compliant receiver reads the header back exactly: it learns the canonical client address
  and port and the canonical local address and port (or, for a mismatch of families, that it
  must use the real peer), and the bytes after the header are the relayed stream, untouched.
\<close>

theorem v2_header_roundtrip:
  "read_v2 (v2_header src dst @ payload) = Some (endpoints src dst, payload)"
  by (rule header_read_back)

text \<open>
  The header is 28 bytes for two IPv4 endpoints, 52 for two IPv6 endpoints and 16 otherwise,
  after canonicalisation; it starts with the signature, and its length field counts exactly the
  bytes that follow it.
\<close>

theorem v2_header_layout:
  "length (v2_header src dst) =
      (case endpoints src dst of Announced (V4 _) _ _ _ \<Rightarrow> 28 | Announced (V6 _) _ _ _ \<Rightarrow> 52
       | UseRealPeer \<Rightarrow> 16) \<and>
   take 12 (v2_header src dst) = SIGNATURE \<and>
   unat (u16_of_be (v2_header src dst ! 14) (v2_header src dst ! 15)) = length (v2_header src dst) - 16"
proof (cases src dst rule: header_cases)
  case (v4 s d)
  then show ?thesis by (simp add: endpoints_def SIGNATURE_def u16_of_be_def)
next
  case (v6 s d)
  then show ?thesis by (simp add: endpoints_def SIGNATURE_def u16_of_be_def)
next
  case mixed
  then show ?thesis by (simp add: endpoints_def SIGNATURE_def u16_of_be_def)
qed

text \<open>
  A client on a dual-stack listener, seen at an IPv4-mapped IPv6 address, is announced like
  the same client on an IPv4 listener, whatever flow label and scope id its address carries.
\<close>

theorem v2_header_mapped_client:
  assumes "to_ipv4_mapped a = Some m"
  shows "v2_header (SockV6 a p fl sc) dst = v2_header (SockV4 m p) dst"
  using assms by (simp add: v2_header_def split: ip_addr.split)

theorem v2_header_mapped_client_witness:
  "v2_header (SockV6 (Ipv6 0 0 0 0 0 0xFFFF 0xC000 0x0201) 1234 7 9) (SockV4 (Ipv4 198 51 100 2) 25) =
   v2_header (SockV4 (Ipv4 192 0 2 1) 1234) (SockV4 (Ipv4 198 51 100 2) 25)"
  by (rule v2_header_mapped_client) simp

end
