(* ===== verification/Tcp_Handle.thy ===== *)
theory Tcp_Handle
  imports Tcp_Relay Proxy_Protocol
begin

text \<open>
  The handler of one accepted TCP connection, \<open>handle\<close> in \<open>src/proxy/tcp.rs\<close>: socket options, the
  upstream connect under its timeout, the optional PROXY protocol header, and the relay between
  the two movements of the active gauge. What the environment answers at each await is the record
  \<open>handle_env\<close>; the handler yields the list of its effects in order.
\<close>

section \<open>Environment and effects\<close>

text \<open>
  How an await ends. The two \<open>select!\<close> are biased to the shutdown token, so \<open>None\<close> stands for the
  token. A write that does not finish still may have put a first part of the header on the wire.
\<close>

datatype connect_result = Connected | ConnectError | ConnectTimeout

datatype write_result = Written | WriteFailed nat

record handle_env =
  he_connect :: "connect_result option"
  he_local_addr :: "socket_addr option"
  he_write :: "write_result option"
  he_write_cut :: nat
  he_relay :: relay_sys

datatype side = Inbound | Outbound

datatype effect =
    ApplyTcp side
  | WriteUpstream "u8 list"
  | Metric metric_op
  | Relayed relay_sys

section \<open>The handler\<close>

definition relayed :: "ProxyConfig \<Rightarrow> handle_env \<Rightarrow> effect list" where
  "relayed cfg env =
     [Metric (Inc Active [cfg_name cfg]), Relayed (he_relay env), Metric (Dec Active [cfg_name cfg])]"

definition handle :: "ProxyConfig \<Rightarrow> socket_addr \<Rightarrow> handle_env \<Rightarrow> effect list" where
  "handle cfg peer env =
     ApplyTcp Inbound #
     (case he_connect env of
        None \<Rightarrow> []
      | Some ConnectError \<Rightarrow> [Metric (Inc ConnectFailures [cfg_name cfg])]
      | Some ConnectTimeout \<Rightarrow> [Metric (Inc ConnectTimeouts [cfg_name cfg])]
      | Some Connected \<Rightarrow>
          ApplyTcp Outbound #
          (if cfg_proxy_protocol cfg then
             (let dst = (case he_local_addr env of Some a \<Rightarrow> a | None \<Rightarrow> peer);
                  header = v2_header peer dst in
              case he_write env of
                None \<Rightarrow> [WriteUpstream (take (he_write_cut env) header)]
              | Some (WriteFailed k) \<Rightarrow>
                  [WriteUpstream (take k header), Metric (Inc ConnectFailures [cfg_name cfg])]
              | Some Written \<Rightarrow> WriteUpstream header # relayed cfg env)
           else relayed cfg env))"

section \<open>What it amounts to\<close>

text \<open>The bytes the upstream receives, and the metric calls, the relay's own included.\<close>

fun upstream_bytes :: "effect list \<Rightarrow> u8 list" where
  "upstream_bytes [] = []"
| "upstream_bytes (WriteUpstream bs # es) = bs @ upstream_bytes es"
| "upstream_bytes (Relayed s # es) = bytes_out (r_up s) @ upstream_bytes es"
| "upstream_bytes (_ # es) = upstream_bytes es"

fun effect_ops :: "effect list \<Rightarrow> metric_op list" where
  "effect_ops [] = []"
| "effect_ops (Metric op # es) = op # effect_ops es"
| "effect_ops (Relayed s # es) = metric_ops (r_shared s) @ effect_ops es"
| "effect_ops (_ # es) = effect_ops es"

text \<open>The relay that the handler awaits is a run of the relay to its close.\<close>

definition relay_done :: "ProxyConfig \<Rightarrow> relay_sys \<Rightarrow> bool" where
  "relay_done cfg s \<longleftrightarrow> reach relay_init (relay_step cfg) s \<and> r_closed s \<noteq> None"

lemma relay_done_prefix:
  assumes "relay_done cfg s"
  shows "\<exists>rest. bytes_in (r_up s) = bytes_out (r_up s) @ rest"
proof -
  have "copies_inv cfg s"
    using relay.inv_reachable [of cfg s] assms by (simp add: relay_done_def relay_inv_def)
  then obtain n where "copy_inv (cfg_name cfg) Up (dir_copy Up s, r_shared s) n"
    unfolding copies_inv_def by blast
  then show ?thesis by (auto simp: copy_inv_def Let_def)
qed

lemma relay_done_ops:
  assumes "relay_done cfg s"
  shows "list_all (relay_op (cfg_name cfg)) (metric_ops (r_shared s))"
    and "\<exists>r. counted ConnectionsClosed [cfg_name cfg, r] (metric_ops (r_shared s)) = 1 \<and>
      (\<forall>ls. ls \<noteq> [cfg_name cfg, r] \<longrightarrow> counted ConnectionsClosed ls (metric_ops (r_shared s)) = 0)"
  using relay.inv_reachable [of cfg s] assms
  by (auto simp: relay_done_def relay_inv_def closed_inv_def)

lemma relay_ops_leave_gauge:
  "list_all (relay_op nm) ops \<Longrightarrow> gauge Active ls x ops = x"
proof (induction ops arbitrary: x)
  case (Cons op ops)
  then show ?case by (cases op) (auto simp: relay_op_def)
qed simp

lemma relay_ops_leave_failures:
  "list_all (relay_op nm) ops \<Longrightarrow> f \<in> {ConnectFailures, ConnectTimeouts} \<Longrightarrow> counted f ls ops = 0"
proof (induction ops)
  case (Cons op ops)
  then show ?case by (cases op) (auto simp: relay_op_def)
qed simp

lemma effect_ops_simps [simp]:
  "effect_ops (ApplyTcp sd # es) = effect_ops es"
  "effect_ops (WriteUpstream bs # es) = effect_ops es"
  by simp_all

text \<open>The ways a handler ends.\<close>

definition ends_relayed :: "ProxyConfig \<Rightarrow> handle_env \<Rightarrow> bool" where
  "ends_relayed cfg env \<longleftrightarrow>
     he_connect env = Some Connected \<and> (cfg_proxy_protocol cfg \<longrightarrow> he_write env = Some Written)"

definition ends_cancelled :: "ProxyConfig \<Rightarrow> handle_env \<Rightarrow> bool" where
  "ends_cancelled cfg env \<longleftrightarrow>
     he_connect env = None \<or>
     he_connect env = Some Connected \<and> cfg_proxy_protocol cfg \<and> he_write env = None"

lemma handle_cases:
  obtains (relayed) pre where "ends_relayed cfg env" "\<not> ends_cancelled cfg env"
      "handle cfg peer env = pre @ relayed cfg env" "effect_ops pre = []"
      "upstream_bytes pre = (if cfg_proxy_protocol cfg
         then v2_header peer (case he_local_addr env of Some a \<Rightarrow> a | None \<Rightarrow> peer) else [])"
  | (cancelled) "\<not> ends_relayed cfg env" "ends_cancelled cfg env"
      "effect_ops (handle cfg peer env) = []"
  | (failed) f where "\<not> ends_relayed cfg env" "\<not> ends_cancelled cfg env"
      "f \<in> {ConnectFailures, ConnectTimeouts}"
      "effect_ops (handle cfg peer env) = [Inc f [cfg_name cfg]]"
proof (cases "he_connect env")
  case None
  then show thesis by (intro cancelled) (simp_all add: ends_relayed_def ends_cancelled_def handle_def)
next
  case (Some r)
  show thesis
  proof (cases r)
    case ConnectError
    then show thesis using Some
      by (intro failed [of ConnectFailures])
        (simp_all add: ends_relayed_def ends_cancelled_def handle_def)
  next
    case ConnectTimeout
    then show thesis using Some
      by (intro failed [of ConnectTimeouts])
        (simp_all add: ends_relayed_def ends_cancelled_def handle_def)
  next
    case Connected
    note conn = Some [unfolded Connected]
    let ?h = "v2_header peer (case he_local_addr env of Some a \<Rightarrow> a | None \<Rightarrow> peer)"
    show thesis
    proof (cases "cfg_proxy_protocol cfg")
      case False
      then show thesis using conn
        by (intro relayed [of "[ApplyTcp Inbound, ApplyTcp Outbound]"])
          (simp_all add: ends_relayed_def ends_cancelled_def handle_def)
    next
      case True
      note pp = True
      show thesis
      proof (cases "he_write env")
        case None
        then show thesis using conn pp
          by (intro cancelled) (simp_all add: ends_relayed_def ends_cancelled_def handle_def Let_def)
      next
        case (Some w)
        show thesis
        proof (cases w)
          case Written
          then show thesis using conn pp Some
            by (intro relayed [of "[ApplyTcp Inbound, ApplyTcp Outbound, WriteUpstream ?h]"])
              (simp_all add: ends_relayed_def ends_cancelled_def handle_def Let_def)
        next
          case (WriteFailed k)
          then show thesis using conn pp Some
            by (intro failed [of ConnectFailures])
              (simp_all add: ends_relayed_def ends_cancelled_def handle_def Let_def)
        qed
      qed
    qed
  qed
qed

section \<open>A handled connection\<close>

definition demo_peer :: socket_addr where
  "demo_peer = SockV4 (Ipv4 192 0 2 1) 1234"

definition demo_env :: handle_env where
  "demo_env =
     \<lparr>he_connect = Some Connected, he_local_addr = Some (SockV4 (Ipv4 198 51 100 2) 25),
      he_write = Some Written, he_write_cut = 0, he_relay = demo_closed\<rparr>"

lemma demo_relay_done: "relay_done demo_cfg (he_relay demo_env)"
  using demo_reach(2) by (simp add: relay_done_def demo_env_def demo_closed_def)

section \<open>Properties\<close>

text \<open>
  C13: The backend learns the real client before it sees a byte of its data. With the PROXY protocol
  enabled, on every path that reaches the relay the bytes the upstream receives are one
  complete header, which a compliant receiver reads as the client's and the local address, and
  then a prefix of the client's stream; without it they are that prefix alone.
\<close>

theorem upstream_sees_client:
  assumes "ends_relayed cfg env" and "relay_done cfg (he_relay env)"
  shows "\<exists>data rest. bytes_in (r_up (he_relay env)) = data @ rest \<and>
    (if cfg_proxy_protocol cfg then
       read_v2 (upstream_bytes (handle cfg peer env)) =
         Some (endpoints peer (case he_local_addr env of Some a \<Rightarrow> a | None \<Rightarrow> peer), data)
     else upstream_bytes (handle cfg peer env) = data)"
proof -
  obtain rest where rest: "bytes_in (r_up (he_relay env)) = bytes_out (r_up (he_relay env)) @ rest"
    using relay_done_prefix [OF assms(2)] by blast
  show ?thesis
  proof (cases rule: handle_cases [of cfg env peer])
    case (relayed pre)
    have app: "upstream_bytes (pre @ es) = upstream_bytes pre @ upstream_bytes es" for es
      by (induction pre rule: upstream_bytes.induct) simp_all
    have "upstream_bytes (handle cfg peer env) =
        (if cfg_proxy_protocol cfg
         then v2_header peer (case he_local_addr env of Some a \<Rightarrow> a | None \<Rightarrow> peer) else []) @
        bytes_out (r_up (he_relay env))"
      by (simp add: relayed app relayed_def)
    then show ?thesis
      using rest header_read_back by (intro exI [of _ "bytes_out (r_up (he_relay env))"] exI [of _ rest]) auto
  qed (use assms(1) in simp_all)
qed

theorem upstream_sees_client_witness:
  "\<exists>data rest. bytes_in (r_up demo_closed) = data @ rest \<and>
    read_v2 (upstream_bytes (handle demo_cfg demo_peer demo_env)) =
      Some (Announced (V4 (Ipv4 192 0 2 1)) 1234 (V4 (Ipv4 198 51 100 2)) 25, data)"
proof -
  have "ends_relayed demo_cfg demo_env"
    by (simp add: ends_relayed_def demo_env_def)
  from upstream_sees_client [OF this demo_relay_done, of demo_peer] show ?thesis
    by (simp add: demo_cfg_def demo_env_def demo_peer_def endpoints_def)
qed

text \<open>
  Every accepted connection is accounted for once. On every path the active gauge ends where it
  started, and exactly one of a connect failure, a connect timeout and a close is counted, except
  that a connection the shutdown stopped before its relay counts nothing; every metric call has
  the labels of its family.
\<close>

theorem handle_accounts_once:
  assumes "relay_done cfg (he_relay env)"
  shows "(let ops = effect_ops (handle cfg peer env); nm = cfg_name cfg in
      gauge Active ls x ops = x \<and>
      (\<exists>r. (\<forall>ls'. counted ConnectionsClosed ls' ops = (if ls' = [nm, r] \<and> ends_relayed cfg env then 1 else 0)) \<and>
           counted ConnectFailures [nm] ops + counted ConnectTimeouts [nm] ops +
             counted ConnectionsClosed [nm, r] ops = (if ends_cancelled cfg env then 0 else 1)) \<and>
      list_all well_labelled ops)"
proof (cases rule: handle_cases [of cfg env peer])
  case (relayed pre)
  note ops = relay_done_ops [OF assms]
  have app: "effect_ops (pre @ es) = effect_ops pre @ effect_ops es" for es
    by (induction pre rule: effect_ops.induct) simp_all
  have e: "effect_ops (handle cfg peer env) =
      Inc Active [cfg_name cfg] # metric_ops (r_shared (he_relay env)) @ [Dec Active [cfg_name cfg]]"
    by (simp add: relayed app relayed_def)
  obtain r where r: "counted ConnectionsClosed [cfg_name cfg, r] (metric_ops (r_shared (he_relay env))) = 1"
      "\<forall>ls. ls \<noteq> [cfg_name cfg, r] \<longrightarrow>
        counted ConnectionsClosed ls (metric_ops (r_shared (he_relay env))) = 0"
    using ops(2) by blast
  have "list_all well_labelled (metric_ops (r_shared (he_relay env)))"
    using ops(1) by (auto simp: relay_op_def list_all_iff)
  then show ?thesis
    using r relayed(1,2) relay_ops_leave_gauge [OF ops(1)] relay_ops_leave_failures [OF ops(1)]
    by (auto simp: e Let_def well_labelled_def intro!: exI [of _ r])
qed (auto simp: Let_def well_labelled_def)

theorem handle_accounts_once_witness:
  "gauge Active [''p''] 4 (effect_ops (handle demo_cfg demo_peer demo_env)) = 4 \<and>
   list_all well_labelled (effect_ops (handle demo_cfg demo_peer demo_env))"
  using handle_accounts_once [OF demo_relay_done, where ls = "[''p'']" and x = 4 and peer = demo_peer] by (simp add: Let_def)

end
