(* ===== verification/Tcp_Conn.thy ===== *)
theory Tcp_Conn
  imports Tcp_Handle
begin

text \<open>
  The task of one accepted connection, poll by poll: \<open>handle\<close> in \<open>src/proxy/tcp.rs\<close> with its two
  \<open>select!\<close> on the shutdown token, the writes of the PROXY header, and the relay it awaits. Every
  finished task amounts to one run of the sequential \<open>handle\<close> of \<open>Tcp_Handle\<close>.
\<close>

section \<open>State\<close>

text \<open>
  The awaits of the handler. Before the relay each \<open>select!\<close> is at its first branch, the token, or past
  it (\<open>ConnectReady\<close>, \<open>HeaderReady\<close>); the header phases hold the bytes still to write. \<open>Done\<close> keeps the
  relay that was awaited, if there was one.
\<close>

datatype conn_phase =
    Connecting
  | ConnectReady
  | HeaderSelect "u8 list"
  | HeaderReady "u8 list"
  | InRelay relay_sys
  | Done "relay_sys option"

text \<open>
  The connection's child of the shutdown token, the header bytes the upstream took, and the metric
  calls of the task, those of its relay included.
\<close>

record conn =
  cn_phase :: conn_phase
  cn_token :: bool
  cn_upstream :: "u8 list"
  cn_ops :: "metric_op list"

definition conn_start :: conn where
  "conn_start = \<lparr>cn_phase = Connecting, cn_token = False, cn_upstream = [], cn_ops = []\<rparr>"

section \<open>Steps\<close>

text \<open>
  \<open>TokenReaches\<close> cancels the child token. \<open>ConnectEnds\<close> carries what \<open>local_addr\<close> answers and the clock,
  for the relay that may start at once; \<open>HeaderTook\<close> is a partial write of \<open>write_all\<close>.
\<close>

datatype conn_event =
    TokenReaches
  | PollToken
  | NotYet
  | ConnectEnds connect_result "socket_addr option" u64
  | HeaderTook nat u64
  | HeaderFails
  | RelayMoves relay_event
  | RelayEnds

definition call_metric :: "metric_op \<Rightarrow> conn \<Rightarrow> conn" where
  "call_metric op c = c\<lparr>cn_ops := cn_ops c @ [op]\<rparr>"

definition begin_relay :: "ProxyConfig \<Rightarrow> u64 \<Rightarrow> conn \<Rightarrow> conn" where
  "begin_relay cfg now c =
     call_metric (Inc Active [cfg_name cfg])
       (c\<lparr>cn_phase := InRelay (relay_start now\<lparr>r_shutdown := cn_token c\<rparr>)\<rparr>)"

definition connect_ends ::
    "ProxyConfig \<Rightarrow> socket_addr \<Rightarrow> connect_result \<Rightarrow> socket_addr option \<Rightarrow> u64 \<Rightarrow> conn \<Rightarrow> conn" where
  "connect_ends cfg peer r local_addr now c =
     (case r of
        ConnectError \<Rightarrow> call_metric (Inc ConnectFailures [cfg_name cfg]) (c\<lparr>cn_phase := Done None\<rparr>)
      | ConnectTimeout \<Rightarrow> call_metric (Inc ConnectTimeouts [cfg_name cfg]) (c\<lparr>cn_phase := Done None\<rparr>)
      | Connected \<Rightarrow>
          if cfg_proxy_protocol cfg then
            (let dst = (case local_addr of Some a \<Rightarrow> a | None \<Rightarrow> peer)
             in c\<lparr>cn_phase := HeaderSelect (v2_header peer dst)\<rparr>)
          else begin_relay cfg now c)"

definition new_ops :: "metric_op list \<Rightarrow> metric_op list \<Rightarrow> metric_op list" where
  "new_ops old ops = drop (length old) ops"

fun conn_step :: "ProxyConfig \<Rightarrow> socket_addr \<Rightarrow> conn_event \<Rightarrow> conn \<Rightarrow> conn option" where
  "conn_step cfg peer TokenReaches c =
     (if cn_token c then None
      else
        Some (c\<lparr>cn_token := True,
          cn_phase := (case cn_phase c of InRelay r \<Rightarrow> InRelay (r\<lparr>r_shutdown := True\<rparr>) | ph \<Rightarrow> ph)\<rparr>))"
| "conn_step cfg peer PollToken c =
     (case cn_phase c of
        Connecting \<Rightarrow> Some (c\<lparr>cn_phase := (if cn_token c then Done None else ConnectReady)\<rparr>)
      | HeaderSelect rest \<Rightarrow> Some (c\<lparr>cn_phase := (if cn_token c then Done None else HeaderReady rest)\<rparr>)
      | _ \<Rightarrow> None)"
| "conn_step cfg peer NotYet c =
     (case cn_phase c of
        ConnectReady \<Rightarrow> Some (c\<lparr>cn_phase := Connecting\<rparr>)
      | HeaderReady rest \<Rightarrow> Some (c\<lparr>cn_phase := HeaderSelect rest\<rparr>)
      | _ \<Rightarrow> None)"
| "conn_step cfg peer (ConnectEnds r local_addr now) c =
     (case cn_phase c of
        ConnectReady \<Rightarrow> Some (connect_ends cfg peer r local_addr now c)
      | _ \<Rightarrow> None)"
| "conn_step cfg peer (HeaderTook k now) c =
     (case cn_phase c of
        HeaderReady rest \<Rightarrow>
          if 0 < k \<and> k \<le> length rest then
            (let c' = c\<lparr>cn_upstream := cn_upstream c @ take k rest\<rparr> in
             Some (if k = length rest then begin_relay cfg now c'
                   else c'\<lparr>cn_phase := HeaderReady (drop k rest)\<rparr>))
          else None
      | _ \<Rightarrow> None)"
| "conn_step cfg peer HeaderFails c =
     (case cn_phase c of
        HeaderReady rest \<Rightarrow>
          Some (call_metric (Inc ConnectFailures [cfg_name cfg]) (c\<lparr>cn_phase := Done None\<rparr>))
      | _ \<Rightarrow> None)"
| "conn_step cfg peer (RelayMoves e) c =
     (case cn_phase c of
        InRelay r \<Rightarrow>
          (if e = TokenFires then None
           else
             (case relay_step cfg e r of
                None \<Rightarrow> None
              | Some r' \<Rightarrow>
                  Some (c\<lparr>cn_phase := InRelay r',
                    cn_ops := cn_ops c @ new_ops (metric_ops (r_shared r)) (metric_ops (r_shared r'))\<rparr>)))
      | _ \<Rightarrow> None)"
| "conn_step cfg peer RelayEnds c =
     (case cn_phase c of
        InRelay r \<Rightarrow>
          if r_closed r = None then None
          else Some (call_metric (Dec Active [cfg_name cfg]) (c\<lparr>cn_phase := Done (Some r)\<rparr>))
      | _ \<Rightarrow> None)"

section \<open>Invariant\<close>

definition header_sent :: "ProxyConfig \<Rightarrow> socket_addr \<Rightarrow> socket_addr option \<Rightarrow> u8 list" where
  "header_sent cfg peer local_addr =
     (if cfg_proxy_protocol cfg
      then v2_header peer (case local_addr of Some a \<Rightarrow> a | None \<Rightarrow> peer) else [])"

text \<open>What the upstream got of the whole connection.\<close>

definition upstream_got :: "conn \<Rightarrow> u8 list" where
  "upstream_got c =
     cn_upstream c @
     (case cn_phase c of
        InRelay r \<Rightarrow> bytes_out (r_up r)
      | Done (Some r) \<Rightarrow> bytes_out (r_up r)
      | _ \<Rightarrow> [])"

text \<open>A finished task did what the sequential handler does in some environment.\<close>

definition handled :: "ProxyConfig \<Rightarrow> socket_addr \<Rightarrow> relay_sys option \<Rightarrow> conn \<Rightarrow> bool" where
  "handled cfg peer ro c \<longleftrightarrow>
     (\<exists>env. cn_ops c = effect_ops (handle cfg peer env) \<and>
        upstream_got c = upstream_bytes (handle cfg peer env) \<and>
        (ends_cancelled cfg env \<longrightarrow> cn_token c) \<and>
        (case ro of
           None \<Rightarrow> \<not> ends_relayed cfg env
         | Some r \<Rightarrow> ends_relayed cfg env \<and> he_relay env = r \<and> relay_done cfg r))"

definition conn_inv :: "ProxyConfig \<Rightarrow> socket_addr \<Rightarrow> conn \<Rightarrow> bool" where
  "conn_inv cfg peer c \<longleftrightarrow>
     (case cn_phase c of
        Connecting \<Rightarrow> cn_ops c = [] \<and> cn_upstream c = []
      | ConnectReady \<Rightarrow> cn_ops c = [] \<and> cn_upstream c = []
      | HeaderSelect rest \<Rightarrow>
          cn_ops c = [] \<and> cfg_proxy_protocol cfg \<and>
          (\<exists>a. cn_upstream c @ rest = header_sent cfg peer a)
      | HeaderReady rest \<Rightarrow>
          cn_ops c = [] \<and> cfg_proxy_protocol cfg \<and>
          (\<exists>a. cn_upstream c @ rest = header_sent cfg peer a)
      | InRelay r \<Rightarrow>
          reach relay_init (relay_step cfg) r \<and> r_shutdown r = cn_token c \<and>
          cn_ops c = Inc Active [cfg_name cfg] # metric_ops (r_shared r) \<and>
          (\<exists>a. cn_upstream c = header_sent cfg peer a)
      | Done ro \<Rightarrow> handled cfg peer ro c)"

lemma relay_ops_grow:
  assumes "relay_step cfg e r = Some r'"
  shows "\<exists>ops. metric_ops (r_shared r') = metric_ops (r_shared r) @ ops"
proof (cases e)
  case (Copy d ev)
  then obtain c sh where cs: "copy_step (cfg_name cfg) d ev (dir_copy d r, r_shared r) = Some (c, sh)"
    and r': "r_shared r' = sh"
    using assms by (auto split: option.splits)
  show ?thesis
    using cs unfolding r'
    by (cases ev) (auto simp: count_chunk_def Let_def split: copy_phase.splits if_splits)
next
  case (WdEvent ev)
  then show ?thesis
    using assms by (auto simp: wd_returns_def select_takes_def
        split: wd_phase.splits if_splits sum.splits wd_event.splits)
qed (use assms in \<open>auto simp: wd_returns_def split: wd_phase.splits if_splits sum.splits prod.splits\<close>)

lemma relay_new_ops:
  assumes "relay_step cfg e r = Some r'"
  shows "metric_ops (r_shared r') =
    metric_ops (r_shared r) @ new_ops (metric_ops (r_shared r)) (metric_ops (r_shared r'))"
  using relay_ops_grow [OF assms] by (auto simp: new_ops_def)

text \<open>The environments of the ways a task ends.\<close>

definition env_of ::
    "connect_result option \<Rightarrow> socket_addr option \<Rightarrow> write_result option \<Rightarrow> nat \<Rightarrow> relay_sys \<Rightarrow> handle_env" where
  "env_of r a w k s = \<lparr>he_connect = r, he_local_addr = a, he_write = w, he_write_cut = k, he_relay = s\<rparr>"

lemmas env_simps = env_of_def handle_def header_sent_def ends_relayed_def ends_cancelled_def Let_def
  relayed_def

lemma handledI:
  assumes "cn_ops c = effect_ops (handle cfg peer env)"
    and "upstream_got c = upstream_bytes (handle cfg peer env)"
    and "ends_cancelled cfg env \<Longrightarrow> cn_token c"
    and "case ro of None \<Rightarrow> \<not> ends_relayed cfg env
      | Some r \<Rightarrow> ends_relayed cfg env \<and> he_relay env = r \<and> relay_done cfg r"
  shows "handled cfg peer ro c"
  using assms unfolding handled_def by blast

lemma begin_relay_inv:
  assumes "cn_ops c = []" and "cn_upstream c = header_sent cfg peer a"
  shows "conn_inv cfg peer (begin_relay cfg now c)"
proof -
  have start: "reach relay_init (relay_step cfg) (relay_start now)"
    by (rule reach_init) (auto simp: relay_init_def)
  have "reach relay_init (relay_step cfg) (relay_start now\<lparr>r_shutdown := True\<rparr>)"
    by (rule reach_step [OF start, of TokenFires]) (simp add: relay_start_def)
  with start have "reach relay_init (relay_step cfg) (relay_start now\<lparr>r_shutdown := cn_token c\<rparr>)"
    by (cases "cn_token c") (simp_all add: relay_start_def)
  then show ?thesis
    using assms by (auto simp: conn_inv_def begin_relay_def call_metric_def relay_start_def)
qed

lemma poll_inv:
  assumes inv: "conn_inv cfg peer c" and step: "conn_step cfg peer PollToken c = Some c'"
  shows "conn_inv cfg peer c'"
proof (cases "cn_phase c")
  case Connecting
  then have "handled cfg peer None (c\<lparr>cn_phase := Done None\<rparr>)" if "cn_token c"
    using inv that
    by (intro handledI [where env = "env_of None None None 0 (relay_start 0)"])
      (simp_all add: conn_inv_def env_simps upstream_got_def)
  then show ?thesis using Connecting inv step by (auto simp: conn_inv_def)
next
  case (HeaderSelect rest)
  then obtain a where a: "cn_upstream c @ rest = header_sent cfg peer a" "cn_ops c = []"
      "cfg_proxy_protocol cfg"
    using inv by (auto simp: conn_inv_def)
  then have "cn_upstream c = take (length (cn_upstream c)) (header_sent cfg peer a)"
    by (metis append_eq_conv_conj)
  then have "handled cfg peer None (c\<lparr>cn_phase := Done None\<rparr>)" if "cn_token c"
    using a(2,3) that
    by (intro handledI
        [where env = "env_of (Some Connected) a None (length (cn_upstream c)) (relay_start 0)"])
      (simp_all add: env_simps upstream_got_def)
  then show ?thesis using HeaderSelect a inv step by (auto simp: conn_inv_def)
qed (use step in simp_all)

lemma connect_inv:
  assumes inv: "conn_inv cfg peer c" and ph: "cn_phase c = ConnectReady"
  shows "conn_inv cfg peer (connect_ends cfg peer r a now c)"
proof -
  have c: "cn_ops c = []" "cn_upstream c = []" using inv ph by (simp_all add: conn_inv_def)
  show ?thesis
  proof (cases r)
    case Connected
    then show ?thesis
      using c begin_relay_inv [of c cfg peer None now]
      by (auto simp: connect_ends_def Let_def header_sent_def conn_inv_def)
  next
    case ConnectError
    then have "handled cfg peer None (connect_ends cfg peer r a now c)"
      using c
      by (intro handledI [where env = "env_of (Some ConnectError) None None 0 (relay_start 0)"])
        (simp_all add: env_simps upstream_got_def connect_ends_def call_metric_def)
    then show ?thesis using ConnectError by (simp add: conn_inv_def connect_ends_def call_metric_def)
  next
    case ConnectTimeout
    then have "handled cfg peer None (connect_ends cfg peer r a now c)"
      using c
      by (intro handledI [where env = "env_of (Some ConnectTimeout) None None 0 (relay_start 0)"])
        (simp_all add: env_simps upstream_got_def connect_ends_def call_metric_def)
    then show ?thesis using ConnectTimeout by (simp add: conn_inv_def connect_ends_def call_metric_def)
  qed
qed

lemma header_inv:
  assumes inv: "conn_inv cfg peer c" and ph: "cn_phase c = HeaderReady rest"
  shows "0 < k \<Longrightarrow> k \<le> length rest \<Longrightarrow> conn_step cfg peer (HeaderTook k now) c = Some c' \<Longrightarrow> conn_inv cfg peer c'"
    and "conn_step cfg peer HeaderFails c = Some c' \<Longrightarrow> conn_inv cfg peer c'"
proof -
  obtain a where a: "cn_upstream c @ rest = header_sent cfg peer a" "cn_ops c = []"
      "cfg_proxy_protocol cfg"
    using inv ph by (auto simp: conn_inv_def)
  let ?c = "c\<lparr>cn_upstream := cn_upstream c @ take k rest\<rparr>"
  show "conn_inv cfg peer c'"
    if k: "0 < k" "k \<le> length rest" and step: "conn_step cfg peer (HeaderTook k now) c = Some c'"
  proof (cases "k = length rest")
    case True
    then have "c' = begin_relay cfg now ?c" using step ph k by simp
    moreover have "cn_upstream ?c = header_sent cfg peer a" using a(1) True by simp
    ultimately show ?thesis using begin_relay_inv [of ?c cfg peer a now] a(2) by simp
  next
    case False
    then have "c' = ?c\<lparr>cn_phase := HeaderReady (drop k rest)\<rparr>" using step ph k by simp
    then show ?thesis using a by (auto simp: conn_inv_def)
  qed
  show "conn_inv cfg peer c'" if step: "conn_step cfg peer HeaderFails c = Some c'"
  proof -
    have c': "c' = call_metric (Inc ConnectFailures [cfg_name cfg]) (c\<lparr>cn_phase := Done None\<rparr>)"
      using step ph by simp
    have "cn_upstream c = take (length (cn_upstream c)) (header_sent cfg peer a)"
      using a(1) by (metis append_eq_conv_conj)
    then have "handled cfg peer None c'"
      using a(2,3)
      by (intro handledI [where env =
          "env_of (Some Connected) a (Some (WriteFailed (length (cn_upstream c)))) 0 (relay_start 0)"])
        (simp_all add: c' env_simps upstream_got_def call_metric_def)
    then show ?thesis by (simp add: c' conn_inv_def call_metric_def)
  qed
qed

lemma relay_moves_inv:
  assumes inv: "conn_inv cfg peer c" and step: "conn_step cfg peer (RelayMoves e) c = Some c'"
  shows "conn_inv cfg peer c'"
proof -
  obtain r r' where ph: "cn_phase c = InRelay r" and st: "relay_step cfg e r = Some r'" and e: "e \<noteq> TokenFires"
    and c': "c' = c\<lparr>cn_phase := InRelay r',
      cn_ops := cn_ops c @ new_ops (metric_ops (r_shared r)) (metric_ops (r_shared r'))\<rparr>"
    using step by (auto split: conn_phase.splits if_splits option.splits)
  have "r_shutdown r' = r_shutdown r"
  proof (cases e)
    case (Copy d ev)
    then show ?thesis using st by (cases d) (auto split: option.splits)
  qed (use st e in \<open>auto simp: wd_returns_def select_takes_def split: wd_phase.splits if_splits
      sum.splits wd_event.splits\<close>)
  moreover have "reach relay_init (relay_step cfg) r'"
    using inv ph st by (auto simp: conn_inv_def intro: reach_step)
  ultimately show ?thesis
    using inv ph relay_new_ops [OF st] by (auto simp: conn_inv_def c')
qed

lemma relay_ends_inv:
  assumes inv: "conn_inv cfg peer c" and step: "conn_step cfg peer RelayEnds c = Some c'"
  shows "conn_inv cfg peer c'"
proof -
  obtain r where ph: "cn_phase c = InRelay r" and closed: "r_closed r \<noteq> None"
    and c': "c' = call_metric (Dec Active [cfg_name cfg]) (c\<lparr>cn_phase := Done (Some r)\<rparr>)"
    using step by (auto split: conn_phase.splits if_splits)
  obtain a where a: "cn_upstream c = header_sent cfg peer a"
      "cn_ops c = Inc Active [cfg_name cfg] # metric_ops (r_shared r)"
      "reach relay_init (relay_step cfg) r"
    using inv ph by (auto simp: conn_inv_def)
  have "handled cfg peer (Some r) c'"
    using a closed
    by (intro handledI [where env = "env_of (Some Connected) a (Some Written) 0 r"])
      (auto simp: c' env_simps upstream_got_def call_metric_def relay_done_def)
  then show ?thesis by (simp add: c' conn_inv_def call_metric_def)
qed

lemma token_inv:
  assumes inv: "conn_inv cfg peer c" and step: "conn_step cfg peer TokenReaches c = Some c'"
  shows "conn_inv cfg peer c'"
proof (cases "cn_phase c")
  case (InRelay r)
  then have t: "\<not> r_shutdown r" using inv step by (auto simp: conn_inv_def split: if_splits)
  have "reach relay_init (relay_step cfg) (r\<lparr>r_shutdown := True\<rparr>)"
    by (rule reach_step [of _ _ r TokenFires]) (use inv InRelay t in \<open>simp_all add: conn_inv_def\<close>)
  then show ?thesis using inv step InRelay by (auto simp: conn_inv_def split: if_splits)
next
  case (Done ro)
  then show ?thesis
    using inv step
    by (auto simp: conn_inv_def handled_def upstream_got_def split: if_splits)
qed (use inv step in \<open>auto simp: conn_inv_def split: if_splits\<close>)

interpretation conn: invariant_system "\<lambda>c. c = conn_start" "conn_step cfg peer" "conn_inv cfg peer"
  for cfg peer
proof unfold_locales
  show "conn_inv cfg peer c" if "c = conn_start" for c
    using that by (simp add: conn_inv_def conn_start_def)
  show "conn_inv cfg peer c'" if inv: "conn_inv cfg peer c" and step: "conn_step cfg peer e c = Some c'"
    for c e c'
  proof (cases e)
    case (ConnectEnds r a now)
    then show ?thesis using inv step connect_inv by (auto split: conn_phase.splits)
  next
    case (HeaderTook k now)
    then obtain rest where "cn_phase c = HeaderReady rest" "0 < k" "k \<le> length rest"
      using step by (auto split: conn_phase.splits if_splits)
    then show ?thesis using header_inv(1) [OF inv] step HeaderTook by blast
  next
    case HeaderFails
    then obtain rest where "cn_phase c = HeaderReady rest"
      using step by (auto split: conn_phase.splits)
    then show ?thesis using header_inv(2) [OF inv] step HeaderFails by blast
  next
    case NotYet
    then show ?thesis using inv step by (auto simp: conn_inv_def split: conn_phase.splits)
  qed (use inv step poll_inv relay_moves_inv relay_ends_inv token_inv in blast)+
qed

section \<open>Closing on its own\<close>

text \<open>
  The moves of a relay that wait for no peer: polls that find nothing, the end of a shutdown of the
  write side, a report, a turn of the watchdog, its sight of the token, and the close.
\<close>

fun own_copy :: "copy_event \<Rightarrow> bool" where
  "own_copy Poll = True"
| "own_copy Pending = True"
| "own_copy ShutDone = True"
| "own_copy Report = True"
| "own_copy _ = False"

fun own_relay :: "relay_event \<Rightarrow> bool" where
  "own_relay (Copy d ev) = own_copy ev"
| "own_relay (WdTurn now) = True"
| "own_relay (WdEvent ev) = (ev = ShutdownSeen)"
| "own_relay Close = True"
| "own_relay TokenFires = False"

lemma copy_own_step:
  assumes "phase c \<noteq> Finished"
  shows "\<exists>ev. own_copy ev \<and> copy_step nm d ev (c, sh) \<noteq> None"
proof (cases "phase c")
  case Selecting then show ?thesis by (intro exI [of _ Poll]) simp
next
  case ReadReady then show ?thesis by (intro exI [of _ Pending]) simp
next
  case WriteSelect then show ?thesis by (intro exI [of _ Poll]) simp
next
  case WriteReady then show ?thesis by (intro exI [of _ Pending]) simp
next
  case ShuttingDown then show ?thesis by (intro exI [of _ ShutDone]) simp
next
  case Reporting then show ?thesis by (intro exI [of _ Report]) simp
qed (use assms in simp)

definition close_rank :: "relay_sys \<Rightarrow> nat" where
  "close_rank r = relay_rank r + (case r_wd r of WdTop w \<Rightarrow> 2 | WdSelect w \<Rightarrow> 1 | WdReturned s \<Rightarrow> 0)"

lemma returned_own_move:
  assumes inv: "relay_inv cfg r" and wd: "r_wd r = WdReturned s" and open': "r_closed r = None"
  shows "\<exists>e t. own_relay e \<and> relay_step cfg e r = Some t \<and> r_shutdown t = r_shutdown r \<and>
    close_rank t < close_rank r"
proof -
  obtain e where e: "own_relay e" "relay_step cfg e r \<noteq> None"
  proof (cases "\<exists>d. phase (dir_copy d r) \<noteq> Finished")
    case True
    then obtain d ev where "own_copy ev"
        "copy_step (cfg_name cfg) d ev (dir_copy d r, r_shared r) \<noteq> None"
      using copy_own_step by blast
    then show thesis by (intro that [of "Copy d ev"]) (auto split: option.splits)
  next
    case False
    then have "phase (r_up r) = Finished" "phase (r_down r) = Finished"
      by (metis dir_copy.simps)+
    then show thesis using wd open' by (intro that [of Close]) simp_all
  qed
  then obtain t where t: "relay_step cfg e r = Some t" by blast
  have "r_shutdown t = r_shutdown r"
  proof (cases e)
    case (Copy d ev)
    then show ?thesis using t by (cases d) (auto split: option.splits)
  qed (use t e(1) wd in \<open>auto split: if_splits\<close>)
  then show ?thesis
    using e(1) t returned_step [OF inv wd t] wd by (auto simp: close_rank_def)
qed

interpretation relay_close: progress_system relay_init "relay_step cfg" "relay_inv cfg" r_shutdown
    "\<lambda>r. r_closed r \<noteq> None" own_relay close_rank for cfg
proof unfold_locales
  fix r
  assume inv: "relay_inv cfg r" and live: "r_shutdown r" and "\<not> r_closed r \<noteq> None"
  then have open': "r_closed r = None" by blast
  show "\<exists>e t. own_relay e \<and> relay_step cfg e r = Some t \<and> r_shutdown t \<and> close_rank t < close_rank r"
  proof (cases "r_wd r")
    case (WdTop w)
    let ?t = "wd_check (idle_timeout_secs cfg) (half_close_timeout_secs cfg) 0
      (last_activity (r_shared r)) w"
    show ?thesis
    proof (cases ?t)
      case (Inl x)
      then show ?thesis
        using WdTop live
        by (intro exI [of _ "WdTurn 0"] exI [of _ "wd_returns x r"])
          (simp add: wd_returns_def close_rank_def relay_rank_def)
    next
      case (Inr x)
      then show ?thesis
        using WdTop live
        by (cases x, intro exI [of _ "WdTurn 0"] exI [of _ "r\<lparr>r_wd := WdSelect (fst x)\<rparr>"])
          (simp add: close_rank_def relay_rank_def)
    qed
  next
    case (WdSelect w)
    then show ?thesis
      using live
      by (intro exI [of _ "WdEvent ShutdownSeen"] exI [of _ "wd_returns (''shutdown'', True) r"])
        (simp add: select_ready_def select_takes_def wd_returns_def close_rank_def relay_rank_def)
  next
    case (WdReturned s)
    then show ?thesis using returned_own_move [OF inv WdReturned open'] live by metis
  qed
qed

text \<open>The same of the whole task, once the token reached it.\<close>

fun own_conn :: "conn_event \<Rightarrow> bool" where
  "own_conn PollToken = True"
| "own_conn NotYet = True"
| "own_conn (RelayMoves e) = own_relay e"
| "own_conn RelayEnds = True"
| "own_conn _ = False"

definition is_over :: "conn \<Rightarrow> bool" where
  "is_over c \<longleftrightarrow> (case cn_phase c of Done ro \<Rightarrow> True | _ \<Rightarrow> False)"

definition conn_rank :: "conn \<Rightarrow> nat" where
  "conn_rank c =
     (case cn_phase c of
        Connecting \<Rightarrow> 1
      | ConnectReady \<Rightarrow> 2
      | HeaderSelect rest \<Rightarrow> 1
      | HeaderReady rest \<Rightarrow> 2
      | InRelay r \<Rightarrow> Suc (close_rank r)
      | Done ro \<Rightarrow> 0)"

lemma conn_rank_bound:
  assumes "conn_inv cfg peer c"
  shows "conn_rank c \<le> 2 * BUF_SIZE + 9"
proof (cases "cn_phase c")
  case (InRelay r)
  then have "relay_inv cfg r"
    using assms relay.inv_reachable [of cfg r] by (simp add: conn_inv_def)
  from relay_rank_bound [OF this] show ?thesis
    using InRelay by (simp add: conn_rank_def close_rank_def split: wd_phase.split)
qed (simp_all add: conn_rank_def)

interpretation conn_close: progress_system "\<lambda>c. c = conn_start" "conn_step cfg peer" "conn_inv cfg peer"
    cn_token is_over own_conn conn_rank for cfg peer
proof unfold_locales
  fix c
  assume inv: "conn_inv cfg peer c" and live: "cn_token c" and over: "\<not> is_over c"
  show "\<exists>e t. own_conn e \<and> conn_step cfg peer e c = Some t \<and> cn_token t \<and> conn_rank t < conn_rank c"
  proof (cases "cn_phase c")
    case (InRelay r)
    then have r: "relay_inv cfg r" "r_shutdown r"
      using inv live relay.inv_reachable [of cfg r] by (simp_all add: conn_inv_def)
    show ?thesis
    proof (cases "r_closed r = None")
      case True
      then obtain e t where e: "own_relay e" "relay_step cfg e r = Some t" "close_rank t < close_rank r"
        using relay_close.progress [OF r] True by blast
      then have "e \<noteq> TokenFires" by auto
      then show ?thesis
        using e InRelay live by (intro exI [of _ "RelayMoves e"]) (simp add: conn_rank_def)
    next
      case False
      then show ?thesis
        using InRelay live by (intro exI [of _ RelayEnds]) (simp add: conn_rank_def call_metric_def)
    qed
  next
    case Connecting
    then show ?thesis using live by (intro exI [of _ PollToken]) (simp add: conn_rank_def)
  next
    case ConnectReady
    then show ?thesis using live by (intro exI [of _ NotYet]) (simp add: conn_rank_def)
  next
    case (HeaderSelect rest)
    then show ?thesis using live by (intro exI [of _ PollToken]) (simp add: conn_rank_def)
  next
    case (HeaderReady rest)
    then show ?thesis using live by (intro exI [of _ NotYet]) (simp add: conn_rank_def)
  qed (use over in \<open>simp add: is_over_def\<close>)
qed

section \<open>Properties\<close>

text \<open>
  C12: The connection task is the handler: whatever the interleaving of the polls of the task, of its relay
  and of the shutdown token, a task that ended made the metric calls that the sequential handler
  makes in some environment, in that order, and gave the upstream the bytes the handler gives it;
  the handler ends on a cancelled token only if the token had reached the task.
\<close>

theorem task_runs_handler:
  assumes "run (conn_step cfg peer) es conn_start = Some c" and "cn_phase c = Done ro"
  shows "\<exists>env. cn_ops c = effect_ops (handle cfg peer env) \<and>
    upstream_got c = upstream_bytes (handle cfg peer env) \<and>
    (ends_cancelled cfg env \<longrightarrow> cn_token c) \<and>
    (case ro of
       None \<Rightarrow> \<not> ends_relayed cfg env
     | Some r \<Rightarrow> ends_relayed cfg env \<and> he_relay env = r \<and> relay_done cfg r)"
  using conn.inv_along_run [OF _ assms(1)] conn.inv_start assms(2)
  by (simp add: conn_inv_def handled_def)

text \<open>A refused connect, and a connection whose header is cut short by the token.\<close>

definition refused_events :: "conn_event list" where
  "refused_events = [PollToken, NotYet, PollToken, ConnectEnds ConnectError None 0]"

theorem task_runs_handler_witness:
  "\<exists>env. [Inc ConnectFailures [''p'']] = effect_ops (handle demo_cfg demo_peer env) \<and>
     \<not> ends_relayed demo_cfg env"
proof -
  have "run (conn_step demo_cfg demo_peer) refused_events conn_start =
      Some (call_metric (Inc ConnectFailures [''p'']) (conn_start\<lparr>cn_phase := Done None\<rparr>))"
    by (simp add: refused_events_def conn_start_def connect_ends_def call_metric_def demo_cfg_def)
  from task_runs_handler [OF this, of None] show ?thesis
    by (auto simp: call_metric_def conn_start_def)
qed

end
