(* ===== verification/Limits.thy ===== *)
theory Limits
  imports Net
begin

text \<open>
  The connection limiter of \<open>src/limits.rs\<close>: a total cap and a per-source-IP cap over RAII
  slots. \<open>try_acquire\<close> reserves a slot or says which cap is hit, \<open>guard_drop\<close> (the \<open>Drop\<close> of
  \<open>Guard\<close>) gives it back. The critical section of the mutex is one call, so each operation is
  one atomic function on the limiter. Counters are \<open>u32\<close>; \<open>total += 1\<close> wraps as a release
  build does.
\<close>

section \<open>Data\<close>

datatype Reject = Total | PerIp

record ip_stat =
  stat_count :: u32
  stat_warned :: bool

record limit_state =
  st_total :: u32
  st_per_ip :: "ip_addr \<Rightarrow> ip_stat option"
  st_total_warned :: bool

record conn_limits =
  max_total :: u32
  max_per_ip :: u32
  lim_state :: limit_state

text \<open>The guard's \<open>Arc\<close> to its limiter is the limiter the operations below are applied to.\<close>

record guard =
  src_ip :: ip_addr

text \<open>The two \<open>warn!\<close> lines of an admission, with the fields they carry.\<close>

datatype limit_warning = WarnTotal u32 u32 | WarnPerIp ip_addr u32 u32

definition reject_label :: "Reject \<Rightarrow> string" where
  "reject_label r = (case r of Total \<Rightarrow> ''total'' | PerIp \<Rightarrow> ''per_ip'')"

definition reject_limit :: "Reject \<Rightarrow> conn_limits \<Rightarrow> u32" where
  "reject_limit r l = (case r of Total \<Rightarrow> max_total l | PerIp \<Rightarrow> max_per_ip l)"

section \<open>Operations\<close>

definition new_limits :: "u32 \<Rightarrow> u32 \<Rightarrow> conn_limits" where
  "new_limits mt mp =
     \<lparr>max_total = mt, max_per_ip = mp,
      lim_state = \<lparr>st_total = 0, st_per_ip = Map.empty, st_total_warned = False\<rparr>\<rparr>"

text \<open>\<open>reached_90pct\<close> widens both counts to \<open>u64\<close> before it multiplies.\<close>

definition reached_90pct :: "u32 \<Rightarrow> u32 \<Rightarrow> bool" where
  "reached_90pct used cap \<longleftrightarrow> (ucast cap :: u64) * 9 \<le> (ucast used :: u64) * 10"

text \<open>The block after the two checks ("Admit."): count the slot, latch and emit the warnings.\<close>

definition admit_slot :: "ip_addr \<Rightarrow> conn_limits \<Rightarrow> limit_warning list \<times> conn_limits" where
  "admit_slot ip l =
     (let s = lim_state l;
          total_now = st_total s + 1;
          total_should_warn =
            \<not> st_total_warned s \<and> 0 < max_total l \<and> reached_90pct total_now (max_total l);
          stat = (case st_per_ip s ip of Some st \<Rightarrow> st
                  | None \<Rightarrow> \<lparr>stat_count = 0, stat_warned = False\<rparr>);
          per_ip_count = stat_count stat + 1;
          per_ip_should_warn =
            \<not> stat_warned stat \<and> 0 < max_per_ip l \<and> reached_90pct per_ip_count (max_per_ip l);
          stat' = \<lparr>stat_count = per_ip_count,
                   stat_warned = stat_warned stat \<or> per_ip_should_warn\<rparr>;
          s' = \<lparr>st_total = total_now, st_per_ip = (st_per_ip s)(ip \<mapsto> stat'),
                st_total_warned = st_total_warned s \<or> total_should_warn\<rparr>
      in ((if total_should_warn then [WarnTotal total_now (max_total l)] else []) @
          (if per_ip_should_warn then [WarnPerIp ip per_ip_count (max_per_ip l)] else []),
          l\<lparr>lim_state := s'\<rparr>))"

definition try_acquire ::
    "ip_addr \<Rightarrow> conn_limits \<Rightarrow> (Reject + guard) \<times> limit_warning list \<times> conn_limits" where
  "try_acquire ip l =
     (let s = lim_state l in
      if 0 < max_total l \<and> max_total l \<le> st_total s then (Inl Total, [], l)
      else
        let current_ip = (case st_per_ip s ip of Some st \<Rightarrow> stat_count st | None \<Rightarrow> 0) in
        if 0 < max_per_ip l \<and> max_per_ip l \<le> current_ip then (Inl PerIp, [], l)
        else (Inr \<lparr>src_ip = ip\<rparr>, admit_slot ip l))"

definition guard_drop :: "guard \<Rightarrow> conn_limits \<Rightarrow> conn_limits" where
  "guard_drop g l =
     (let s = lim_state l;
          s1 = s\<lparr>st_total := sat_sub (st_total s) 1\<rparr>;
          s2 = (case st_per_ip s1 (src_ip g) of
                  None \<Rightarrow> s1
                | Some st \<Rightarrow>
                    let c = sat_sub (stat_count st) 1 in
                    if c = 0 then s1\<lparr>st_per_ip := (st_per_ip s1)(src_ip g := None)\<rparr>
                    else s1\<lparr>st_per_ip := (st_per_ip s1)(src_ip g \<mapsto> st\<lparr>stat_count := c\<rparr>)\<rparr>)
      in l\<lparr>lim_state := s2\<rparr>)"

section \<open>What the limiter promises\<close>

text \<open>
  The abstract limiter is the multiset of the addresses that hold a guard: \<open>admit\<close> says
  which cap, if any, refuses one more.
\<close>

definition admit :: "nat \<Rightarrow> nat \<Rightarrow> ip_addr \<Rightarrow> ip_addr multiset \<Rightarrow> Reject option" where
  "admit mt mp ip live =
     (if 0 < mt \<and> mt \<le> size live then Some Total
      else if 0 < mp \<and> mp \<le> count live ip then Some PerIp
      else None)"

definition ip_slots :: "conn_limits \<Rightarrow> ip_addr \<Rightarrow> nat" where
  "ip_slots l ip = (case st_per_ip (lim_state l) ip of Some st \<Rightarrow> unat (stat_count st) | None \<Rightarrow> 0)"

definition tracks :: "conn_limits \<Rightarrow> ip_addr multiset \<Rightarrow> bool" where
  "tracks l live \<longleftrightarrow>
     unat (st_total (lim_state l)) = size live \<and>
     (\<forall>ip. ip_slots l ip = count live ip) \<and>
     dom (st_per_ip (lim_state l)) = set_mset live"

definition within_caps :: "conn_limits \<Rightarrow> ip_addr multiset \<Rightarrow> bool" where
  "within_caps l live \<longleftrightarrow>
     (max_total l = 0 \<or> size live \<le> unat (max_total l)) \<and>
     (max_per_ip l = 0 \<or> (\<forall>ip. count live ip \<le> unat (max_per_ip l)))"

text \<open>
  Room for one more slot in the \<open>u32\<close> counters: given by a configured total cap, and with no
  cap by fewer than \<open>2 ^ 32 - 1\<close> live slots (a process has far fewer descriptors).
\<close>

definition counter_room :: "conn_limits \<Rightarrow> ip_addr multiset \<Rightarrow> bool" where
  "counter_room l live \<longleftrightarrow> 0 < max_total l \<or> Suc (size live) < 2 ^ 32"

lemma reached_90pct_exact: "reached_90pct used cap \<longleftrightarrow> 9 * unat cap \<le> 10 * unat used"
proof -
  have "unat ((ucast cap :: u64) * 9) = unat cap * 9"
    using unat_u32_bound [of cap] by (simp add: unat_word_ariths)
  moreover have "unat ((ucast used :: u64) * 10) = unat used * 10"
    using unat_u32_bound [of used] by (simp add: unat_word_ariths)
  ultimately show ?thesis
    by (simp add: reached_90pct_def word_le_nat_alt mult.commute)
qed

lemma new_limits_tracks [simp]: "tracks (new_limits mt mp) {#}"
  by (simp add: new_limits_def tracks_def ip_slots_def)

lemma new_limits_caps [simp]: "within_caps (new_limits mt mp) {#}"
  by (simp add: within_caps_def)

lemma tracks_total: "tracks l live \<Longrightarrow> unat (st_total (lim_state l)) = size live"
  by (simp add: tracks_def)

lemma tracks_ip: "tracks l live \<Longrightarrow> ip_slots l ip = count live ip"
  by (simp add: tracks_def)

lemma unat_Suc_u32: "Suc (unat (w :: u32)) < 2 ^ 32 \<Longrightarrow> unat (w + 1) = Suc (unat w)"
  by (simp add: unat_word_ariths)

lemma current_ip_unat:
  "unat (case st_per_ip (lim_state l) ip of None \<Rightarrow> 0 | Some st \<Rightarrow> stat_count st) = ip_slots l ip"
  by (simp add: ip_slots_def split: option.splits)

text \<open>The decision of the code, and its state when it refuses.\<close>

lemma try_acquire_decision:
  assumes "tracks l live"
  shows "fst (try_acquire ip l) =
    (case admit (unat (max_total l)) (unat (max_per_ip l)) ip live of
       Some r \<Rightarrow> Inl r | None \<Rightarrow> Inr \<lparr>src_ip = ip\<rparr>)"
  using tracks_total [OF assms] tracks_ip [OF assms, of ip]
  by (simp add: try_acquire_def admit_def Let_def pos_word_unat word_le_nat_alt current_ip_unat)

lemma try_acquire_cases:
  obtains (rejected) r where "try_acquire ip l = (Inl r, [], l)"
  | (admitted) "try_acquire ip l = (Inr \<lparr>src_ip = ip\<rparr>, admit_slot ip l)"
proof -
  have "(\<exists>r. try_acquire ip l = (Inl r, [], l)) \<or>
      try_acquire ip l = (Inr \<lparr>src_ip = ip\<rparr>, admit_slot ip l)"
    by (simp add: try_acquire_def Let_def)
  then show thesis using that by blast
qed

lemma try_acquire_reject_state: "try_acquire ip l = (Inl r, w, l') \<Longrightarrow> l' = l \<and> w = []"
  by (cases ip l rule: try_acquire_cases) auto

lemma try_acquire_admitD:
  "try_acquire ip l = (Inr g, w, l') \<Longrightarrow> g = \<lparr>src_ip = ip\<rparr> \<and> admit_slot ip l = (w, l')"
  by (cases ip l rule: try_acquire_cases) auto

lemma admit_slot_max [simp]:
  "max_total (snd (admit_slot ip l)) = max_total l"
  "max_per_ip (snd (admit_slot ip l)) = max_per_ip l"
  by (simp_all add: admit_slot_def Let_def)

lemma guard_drop_max [simp]:
  "max_total (guard_drop g l) = max_total l" "max_per_ip (guard_drop g l) = max_per_ip l"
  by (simp_all add: guard_drop_def Let_def)

lemma admit_slot_total:
  "st_total (lim_state (snd (admit_slot ip l))) = st_total (lim_state l) + 1"
  by (simp add: admit_slot_def Let_def)

lemma admit_slot_dom:
  "dom (st_per_ip (lim_state (snd (admit_slot ip l)))) = insert ip (dom (st_per_ip (lim_state l)))"
  by (simp add: admit_slot_def Let_def)

lemma admit_slot_ip:
  assumes "Suc (ip_slots l ip) < 2 ^ 32"
  shows "ip_slots (snd (admit_slot ip l)) k = (if k = ip then Suc (ip_slots l k) else ip_slots l k)"
  using assms
  by (auto simp: admit_slot_def Let_def ip_slots_def unat_Suc_u32 split: option.splits)

lemma admit_slot_tracks:
  assumes tr: "tracks l live" and room: "Suc (size live) < 2 ^ 32"
  shows "tracks (snd (admit_slot ip l)) (add_mset ip live)"
proof -
  have "Suc (ip_slots l ip) < 2 ^ 32"
    using room tracks_ip [OF tr, of ip] count_le_size [of live ip] by simp
  then show ?thesis
    using tr room by (simp add: tracks_def admit_slot_ip admit_slot_total admit_slot_dom unat_Suc_u32)
qed

lemma guard_drop_tracks:
  assumes tr: "tracks l live" and held: "src_ip g \<in># live"
  shows "tracks (guard_drop g l) (live - {#src_ip g#})"
proof -
  from tr held obtain st where st: "st_per_ip (lim_state l) (src_ip g) = Some st"
    by (auto simp: tracks_def)
  with tr held have c: "unat (stat_count st) = count live (src_ip g)" "0 < count live (src_ip g)"
    by (auto simp: ip_slots_def dest: tracks_ip [of _ _ "src_ip g"])
  have z: "sat_sub (stat_count st) 1 = 0 \<longleftrightarrow> count live (src_ip g) = 1"
    using c by (simp only: word_zero_iff_unat sat_unat unsigned_1) arith
  have gt: "count live (src_ip g) \<noteq> 1 \<Longrightarrow> Suc 0 < count live (src_ip g)"
    using c(2) by linarith
  have "dom (st_per_ip (lim_state (guard_drop g l))) = set_mset (live - {#src_ip g#})"
    using tr st c z gt
    by (auto simp: guard_drop_def Let_def tracks_def in_diff_count split: if_splits)
  moreover have "ip_slots (guard_drop g l) k = count (live - {#src_ip g#}) k" for k
    using tr st c z
    by (auto simp: guard_drop_def Let_def tracks_def ip_slots_def sat_unat split: if_splits)
  moreover have "unat (st_total (lim_state (guard_drop g l))) = size (live - {#src_ip g#})"
    using tr st held by (simp add: guard_drop_def Let_def tracks_def sat_unat size_Diff_singleton)
  ultimately show ?thesis by (simp add: tracks_def)
qed

section \<open>The contract of a slot pool\<close>

text \<open>
  What the TCP and the UDP listener rely on. \<open>holds l live\<close> says that pool \<open>l\<close> accounts for
  exactly the slots of the multiset \<open>live\<close>.
\<close>

locale slot_pool =
  fixes acquire :: "'k \<Rightarrow> 'l \<Rightarrow> ('r + 'g) \<times> 'w \<times> 'l"
    and release :: "'g \<Rightarrow> 'l \<Rightarrow> 'l"
    and key :: "'g \<Rightarrow> 'k"
    and holds :: "'l \<Rightarrow> 'k multiset \<Rightarrow> bool"
    and room :: "'l \<Rightarrow> 'k multiset \<Rightarrow> bool"
  assumes acquire_key: "acquire k l = (Inr g, w, l') \<Longrightarrow> key g = k"
    and acquire_holds: "holds l live \<Longrightarrow> room l live \<Longrightarrow> acquire k l = (Inr g, w, l') \<Longrightarrow>
      holds l' (add_mset k live)"
    and reject_state: "acquire k l = (Inl r, w, l') \<Longrightarrow> l' = l"
    and release_holds: "holds l live \<Longrightarrow> key g \<in># live \<Longrightarrow>
      holds (release g l) (live - {#key g#})"
begin

lemma acquire_accounts:
  assumes "holds l live" and "room l live" and "acquire k l = (res, w, l')"
  shows "holds l' (case res of Inl _ \<Rightarrow> live | Inr g \<Rightarrow> add_mset (key g) live)"
  using assms by (cases res) (auto dest: reject_state acquire_holds acquire_key)

lemma release_undoes:
  assumes "holds l live" and "room l live" and "acquire k l = (Inr g, w, l')"
  shows "holds (release g l') live"
proof -
  have "holds (release g l') (add_mset k live - {#key g#})"
    using assms by (intro release_holds acquire_holds) (auto dest: acquire_key)
  then show ?thesis using acquire_key [OF assms(3)] by simp
qed

lemma release_swap:
  assumes "holds l (add_mset (key g) live)"
  shows "holds (release g l) live"
  using release_holds [OF assms, of g] by simp

lemma release_list:
  "holds l (mset (map key gs) + live) \<Longrightarrow> holds (fold release gs l) live"
proof (induction gs arbitrary: l)
  case (Cons g gs)
  then show ?case by (auto intro: release_swap)
qed simp

end

text \<open>A pool with caps: what is accounted for never exceeds them.\<close>

locale capped_pool = slot_pool acquire release key holds room
  for acquire :: "'k \<Rightarrow> 'l \<Rightarrow> ('r + 'g) \<times> 'w \<times> 'l"
    and release :: "'g \<Rightarrow> 'l \<Rightarrow> 'l"
    and key :: "'g \<Rightarrow> 'k"
    and holds :: "'l \<Rightarrow> 'k multiset \<Rightarrow> bool"
    and room :: "'l \<Rightarrow> 'k multiset \<Rightarrow> bool" +
  fixes cap :: "'l \<Rightarrow> nat option"
    and key_cap :: "'l \<Rightarrow> nat option"
  assumes holds_cap: "holds l live \<Longrightarrow> cap l = Some n \<Longrightarrow> size live \<le> n"
    and holds_key_cap: "holds l live \<Longrightarrow> key_cap l = Some n \<Longrightarrow> count live k \<le> n"
    and acquire_caps: "acquire k l = (r, w, l') \<Longrightarrow> cap l' = cap l \<and> key_cap l' = key_cap l"
    and release_caps: "cap (release g l) = cap l \<and> key_cap (release g l) = key_cap l"
begin

lemma acquire_within_cap:
  assumes "holds l live" "room l live" "acquire k l = (Inr g, w, l')" "cap l = Some n"
  shows "size live < n"
proof -
  have "size (add_mset k live) \<le> n"
    using assms(4) acquire_caps [OF assms(3)] holds_cap [OF acquire_holds [OF assms(1-3)]] by simp
  then show ?thesis by simp
qed

end

definition limiter_ok :: "conn_limits \<Rightarrow> ip_addr multiset \<Rightarrow> bool" where
  "limiter_ok l live \<longleftrightarrow> tracks l live \<and> within_caps l live"

definition total_cap :: "conn_limits \<Rightarrow> nat option" where
  "total_cap l = (if max_total l = 0 then None else Some (unat (max_total l)))"

definition ip_cap :: "conn_limits \<Rightarrow> nat option" where
  "ip_cap l = (if max_per_ip l = 0 then None else Some (unat (max_per_ip l)))"

lemma admitted_below_caps:
  assumes "tracks l live" and "try_acquire ip l = (Inr g, w, l')"
  shows "max_total l = 0 \<or> size live < unat (max_total l)"
    and "max_per_ip l = 0 \<or> count live ip < unat (max_per_ip l)"
  using try_acquire_decision [OF assms(1), of ip] assms(2)
  by (auto simp: admit_def word_zero_iff_unat split: if_splits)

lemma acquire_limiter_ok:
  assumes ok: "limiter_ok l live" and room: "counter_room l live"
    and acq: "try_acquire ip l = (Inr g, w, l')"
  shows "limiter_ok l' (add_mset ip live)"
proof -
  from ok have tr: "tracks l live" by (simp add: limiter_ok_def)
  note below = admitted_below_caps [OF tr acq]
  have l': "l' = snd (admit_slot ip l)"
    using try_acquire_admitD [OF acq] by simp
  have "Suc (size live) < 2 ^ 32 \<or> Suc (size live) = unat (max_total l) \<and> max_total l \<noteq> 0"
    using room below(1) unat_u32_bound [of "max_total l"]
    by (auto simp: counter_room_def pos_word_unat word_zero_iff_unat)
  moreover have "Suc (size live) < 2 ^ 32" if "Suc (size live) = unat (max_total l)"
    using that unat_less_2p [of "max_total l"] by simp
  ultimately have "Suc (size live) < 2 ^ 32" by blast
  then have "tracks l' (add_mset ip live)"
    unfolding l' by (rule admit_slot_tracks [OF tr])
  then show ?thesis
    using ok below by (auto simp: limiter_ok_def within_caps_def l')
qed

lemma drop_limiter_ok:
  assumes "limiter_ok l live" and "src_ip g \<in># live"
  shows "limiter_ok (guard_drop g l) (live - {#src_ip g#})"
  using assms guard_drop_tracks [of l live g]
  by (auto simp: limiter_ok_def within_caps_def size_Diff_singleton intro: le_trans [OF diff_le_self])

interpretation limiter: capped_pool try_acquire guard_drop src_ip limiter_ok counter_room
    total_cap ip_cap
proof (unfold_locales, goal_cases)
  case (1 k l g w l')
  then show ?case using try_acquire_admitD [of k l g w l'] by simp
next
  case (2 l live k g w l')
  then show ?case by (rule acquire_limiter_ok)
next
  case (3 k l r w l')
  then show ?case using try_acquire_reject_state by blast
next
  case (4 l live g)
  then show ?case by (rule drop_limiter_ok)
next
  case (5 l live n)
  then show ?case by (auto simp: limiter_ok_def within_caps_def total_cap_def split: if_splits)
next
  case (6 l live n k)
  then show ?case by (auto simp: limiter_ok_def within_caps_def ip_cap_def split: if_splits)
next
  case (7 k l r w l')
  then show ?case
    by (cases k l rule: try_acquire_cases) (auto simp: total_cap_def ip_cap_def prod_eq_iff)
next
  case (8 g l)
  then show ?case by (simp add: total_cap_def ip_cap_def)
qed

lemma new_limiter_ok [simp]: "limiter_ok (new_limits mt mp) {#}"
  by (simp add: limiter_ok_def)

section \<open>A limiter and its live guards\<close>

text \<open>
  The limiter together with the guards alive in the program, in any order of acquisitions and
  drops, and the warnings emitted so far.
\<close>

record limiter_sys =
  ly_lim :: conn_limits
  ly_live :: "ip_addr multiset"
  ly_warned :: "limit_warning list"

datatype limiter_event = Acquire ip_addr | Release ip_addr

fun limiter_step :: "limiter_event \<Rightarrow> limiter_sys \<Rightarrow> limiter_sys option" where
  "limiter_step (Acquire ip) s =
     (if counter_room (ly_lim s) (ly_live s) then
        (case try_acquire ip (ly_lim s) of
           (Inl _, w, l') \<Rightarrow> Some (s\<lparr>ly_lim := l', ly_warned := ly_warned s @ w\<rparr>)
         | (Inr g, w, l') \<Rightarrow>
             Some \<lparr>ly_lim = l', ly_live = add_mset (src_ip g) (ly_live s),
                   ly_warned = ly_warned s @ w\<rparr>)
      else None)"
| "limiter_step (Release ip) s =
     (if ip \<in># ly_live s then
        Some (s\<lparr>ly_lim := guard_drop \<lparr>src_ip = ip\<rparr> (ly_lim s), ly_live := ly_live s - {#ip#}\<rparr>)
      else None)"

definition limiter_init :: "u32 \<Rightarrow> u32 \<Rightarrow> limiter_sys \<Rightarrow> bool" where
  "limiter_init mt mp s \<longleftrightarrow> s = \<lparr>ly_lim = new_limits mt mp, ly_live = {#}, ly_warned = []\<rparr>"

fun is_total_warning :: "limit_warning \<Rightarrow> bool" where
  "is_total_warning (WarnTotal _ _) = True"
| "is_total_warning (WarnPerIp _ _ _) = False"

definition limiter_inv :: "u32 \<Rightarrow> u32 \<Rightarrow> limiter_sys \<Rightarrow> bool" where
  "limiter_inv mt mp s \<longleftrightarrow>
     limiter_ok (ly_lim s) (ly_live s) \<and>
     max_total (ly_lim s) = mt \<and> max_per_ip (ly_lim s) = mp \<and>
     length (filter is_total_warning (ly_warned s)) =
       (if st_total_warned (lim_state (ly_lim s)) then 1 else 0)"

lemma admit_slot_total_warnings:
  "length (filter is_total_warning (fst (admit_slot ip l))) =
     (if st_total_warned (lim_state (snd (admit_slot ip l))) \<and> \<not> st_total_warned (lim_state l)
      then 1 else 0)"
  by (simp add: admit_slot_def Let_def)

lemma admit_slot_warned_mono:
  "st_total_warned (lim_state l) \<Longrightarrow> st_total_warned (lim_state (snd (admit_slot ip l)))"
  by (simp add: admit_slot_def Let_def)

lemma guard_drop_warned [simp]:
  "st_total_warned (lim_state (guard_drop g l)) = st_total_warned (lim_state l)"
  by (simp add: guard_drop_def Let_def split: option.splits)

lemma limiter_step_inv:
  assumes inv: "limiter_inv mt mp s" and st: "limiter_step e s = Some t"
  shows "limiter_inv mt mp t"
proof (cases e)
  case (Acquire ip)
  show ?thesis
  proof (cases ip "ly_lim s" rule: try_acquire_cases)
    case (rejected r)
    then show ?thesis using inv st Acquire by (auto simp: limiter_inv_def split: if_splits)
  next
    case admitted
    obtain w l' where wl: "admit_slot ip (ly_lim s) = (w, l')" by fastforce
    have "limiter_ok l' (add_mset ip (ly_live s))"
      using inv st Acquire admitted wl
      by (auto simp: limiter_inv_def split: if_splits intro: acquire_limiter_ok)
    then show ?thesis
      using inv st Acquire admitted wl admit_slot_total_warnings [of ip "ly_lim s"]
        admit_slot_warned_mono [of "ly_lim s" ip] admit_slot_max [of ip "ly_lim s"]
      by (auto simp: limiter_inv_def split: if_splits)
  qed
next
  case (Release ip)
  then show ?thesis
    using inv st drop_limiter_ok [of "ly_lim s" "ly_live s" "\<lparr>src_ip = ip\<rparr>"]
    by (auto simp: limiter_inv_def split: if_splits)
qed

interpretation limiter_sys: invariant_system "limiter_init mt mp" limiter_step "limiter_inv mt mp"
  for mt mp
proof unfold_locales
  show "limiter_inv mt mp s" if "limiter_init mt mp s" for s
    using that by (auto simp: limiter_init_def limiter_inv_def) (simp_all add: new_limits_def)
  show "limiter_inv mt mp t" if "limiter_inv mt mp s" "limiter_step e s = Some t" for s e t
    using that by (rule limiter_step_inv)
qed

section \<open>Properties\<close>

lemma limiter_reach_facts:
  assumes "reach (limiter_init mt mp) limiter_step s"
  shows "tracks (ly_lim s) (ly_live s)" and "within_caps (ly_lim s) (ly_live s)"
    and "max_total (ly_lim s) = mt" and "max_per_ip (ly_lim s) = mp"
    and "length (filter is_total_warning (ly_warned s)) \<le> 1"
  using limiter_sys.inv_reachable [OF assms] by (auto simp: limiter_inv_def limiter_ok_def)

text \<open>
  Two clients at a limiter with caps 2 and 1, used as the concrete run of the witnesses: the
  first is admitted, its second connection is refused per IP, the other client is admitted,
  a third address is refused by the total cap.
\<close>

definition demo_a :: ip_addr where "demo_a = V4 (Ipv4 10 0 0 1)"
definition demo_b :: ip_addr where "demo_b = V4 (Ipv4 10 0 0 2)"
definition demo_c :: ip_addr where "demo_c = V4 (Ipv4 10 0 0 3)"

definition demo_start :: "u32 \<Rightarrow> u32 \<Rightarrow> limiter_sys" where
  "demo_start mt mp = \<lparr>ly_lim = new_limits mt mp, ly_live = {#}, ly_warned = []\<rparr>"

lemma demo_run_reach:
  "run limiter_step es (demo_start mt mp) = Some s \<Longrightarrow> reach (limiter_init mt mp) limiter_step s"
  by (rule run_reach [OF reach_init]) (simp_all add: limiter_init_def demo_start_def)

lemmas demo_defs = demo_a_def demo_b_def demo_c_def demo_start_def new_limits_def

lemma demo_full: "\<exists>s. run limiter_step [Acquire demo_a, Acquire demo_a, Acquire demo_b, Acquire demo_c]
    (demo_start 2 1) = Some s \<and> ly_live s = {#demo_a, demo_b#}"
  by (simp add: demo_defs counter_room_def try_acquire_def admit_slot_def Let_def
      word_le_nat_alt add_mset_commute)

text \<open>
  However acquisitions and drops interleave, the slots held never exceed \<open>max_total\<close>, no
  source address ever holds more than \<open>max_per_ip\<close> (0 switching a layer off), and the
  counter the code keeps is the number of live guards, without wrap-around.
\<close>

theorem limiter_never_exceeds:
  assumes "reach (limiter_init mt mp) limiter_step s"
  shows "(mt = 0 \<or> size (ly_live s) \<le> unat mt) \<and> (mp = 0 \<or> count (ly_live s) ip \<le> unat mp) \<and>
    unat (st_total (lim_state (ly_lim s))) = size (ly_live s) \<and>
    ip_slots (ly_lim s) ip = count (ly_live s) ip"
  using limiter_reach_facts [OF assms] by (auto simp: within_caps_def tracks_def)

theorem limiter_never_exceeds_witness:
  "\<exists>s :: limiter_sys. ly_live s = {#demo_a, demo_b#} \<and> size (ly_live s) \<le> unat (2 :: u32) \<and>
     count (ly_live s) demo_a \<le> unat (1 :: u32) \<and>
     unat (st_total (lim_state (ly_lim s))) = 2"
proof -
  obtain s where s: "run limiter_step [Acquire demo_a, Acquire demo_a, Acquire demo_b, Acquire demo_c]
      (demo_start 2 1) = Some s" "ly_live s = {#demo_a, demo_b#}"
    using demo_full by blast
  show ?thesis
    using limiter_never_exceeds [OF demo_run_reach [OF s(1)], of demo_a] s(2)
    by (auto simp: demo_defs intro!: exI [of _ s])
qed

text \<open>
  C23: The decision of \<open>try_acquire\<close> is exact: in every reachable state it refuses with \<open>Total\<close> if
  and only if the total cap is on and \<open>max_total\<close> guards are alive, refuses with \<open>PerIp\<close> if and
  only if that cap is on and the address already holds \<open>max_per_ip\<close>, and otherwise admits and
  returns a guard for that address; a refusal leaves the limiter as it was.
\<close>

theorem limiter_decision_exact:
  assumes "reach (limiter_init mt mp) limiter_step s"
  shows "fst (try_acquire ip (ly_lim s)) =
      (case admit (unat mt) (unat mp) ip (ly_live s) of
         Some r \<Rightarrow> Inl r | None \<Rightarrow> Inr \<lparr>src_ip = ip\<rparr>) \<and>
    (\<forall>r. fst (try_acquire ip (ly_lim s)) = Inl r \<longrightarrow> snd (snd (try_acquire ip (ly_lim s))) = ly_lim s)"
proof
  note facts = limiter_reach_facts [OF assms]
  show "fst (try_acquire ip (ly_lim s)) =
      (case admit (unat mt) (unat mp) ip (ly_live s) of
         Some r \<Rightarrow> Inl r | None \<Rightarrow> Inr \<lparr>src_ip = ip\<rparr>)"
    using try_acquire_decision [OF facts(1), of ip] by (simp add: facts(3,4))
  show "\<forall>r. fst (try_acquire ip (ly_lim s)) = Inl r \<longrightarrow> snd (snd (try_acquire ip (ly_lim s))) = ly_lim s"
    by (cases ip "ly_lim s" rule: try_acquire_cases) auto
qed

theorem limiter_decision_exact_witness:
  "\<exists>s :: limiter_sys. ly_live s = {#demo_a, demo_b#} \<and> fst (try_acquire demo_c (ly_lim s)) = Inl Total"
proof -
  obtain s where s: "run limiter_step [Acquire demo_a, Acquire demo_a, Acquire demo_b, Acquire demo_c]
      (demo_start 2 1) = Some s" "ly_live s = {#demo_a, demo_b#}"
    using demo_full by blast
  show ?thesis
    using limiter_decision_exact [OF demo_run_reach [OF s(1)], of demo_c] s(2)
    by (auto simp: admit_def intro!: exI [of _ s])
qed

text \<open>
  Dropping guards gives everything back: the per-IP table holds an entry for exactly the
  addresses that hold a guard, so it never grows beyond the live connections, and once every
  guard is dropped both the table and the total are empty again.
\<close>

theorem limiter_releases_everything:
  assumes "reach (limiter_init mt mp) limiter_step s"
  shows "dom (st_per_ip (lim_state (ly_lim s))) = set_mset (ly_live s) \<and>
    (ly_live s = {#} \<longrightarrow>
       st_total (lim_state (ly_lim s)) = 0 \<and> st_per_ip (lim_state (ly_lim s)) = Map.empty)"
  using limiter_reach_facts(1) [OF assms] by (auto simp: tracks_def word_zero_iff_unat)

theorem limiter_releases_everything_witness:
  "\<exists>s. run limiter_step [Acquire demo_a, Acquire demo_b, Release demo_a, Release demo_b]
       (demo_start 2 1) = Some s \<and>
     st_total (lim_state (ly_lim s)) = 0 \<and> st_per_ip (lim_state (ly_lim s)) = Map.empty"
proof -
  obtain s where s: "run limiter_step
      [Acquire demo_a, Acquire demo_b, Release demo_a, Release demo_b] (demo_start 2 1) = Some s"
    "ly_live s = {#}"
    by (simp add: demo_defs counter_room_def try_acquire_def admit_slot_def Let_def word_le_nat_alt)
  show ?thesis
    using limiter_releases_everything [OF demo_run_reach [OF s(1)]] s by blast
qed

text \<open>
  The warning that the total limit is near is emitted at most once in the life of a limiter,
  whatever connections come and go.
\<close>

theorem limiter_total_warning_once:
  assumes "reach (limiter_init mt mp) limiter_step s"
  shows "length (filter is_total_warning (ly_warned s)) \<le> 1"
  by (rule limiter_reach_facts(5) [OF assms])

theorem limiter_total_warning_once_witness:
  "\<exists>s. run limiter_step [Acquire demo_a, Release demo_a, Acquire demo_a] (demo_start 1 0) = Some s \<and>
     WarnTotal 1 1 \<in> set (ly_warned s) \<and> length (filter is_total_warning (ly_warned s)) \<le> 1"
proof -
  obtain s where s: "run limiter_step [Acquire demo_a, Release demo_a, Acquire demo_a]
      (demo_start 1 0) = Some s" "WarnTotal 1 1 \<in> set (ly_warned s)"
    by (simp add: demo_defs counter_room_def try_acquire_def admit_slot_def guard_drop_def sat_sub_def
        Let_def reached_90pct_def word_le_nat_alt)
  show ?thesis
    using limiter_total_warning_once [OF demo_run_reach [OF s(1)]] s by blast
qed

text \<open>
  The per-IP warning, in contrast, is emitted again whenever an address comes back to 90 % of
  its cap after its last connection closed: the flag lives in the table entry, which the drop
  of the last guard removes.
\<close>

theorem per_ip_warning_repeats:
  "\<exists>s. run limiter_step [Acquire ip, Release ip, Acquire ip] (demo_start 0 1) = Some s \<and>
     ly_warned s = [WarnPerIp ip 1 1, WarnPerIp ip 1 1]"
  by (simp add: demo_start_def new_limits_def counter_room_def try_acquire_def admit_slot_def
      guard_drop_def sat_sub_def Let_def reached_90pct_def word_le_nat_alt)

text \<open>
  \<open>reached_90pct\<close> never overflows: for every pair of \<open>u32\<close> counts it decides exactly
  \<open>used / cap \<ge> 9 / 10\<close>.
\<close>

theorem ninety_percent_exact:
  "reached_90pct used cap \<longleftrightarrow> 9 * unat cap \<le> 10 * unat used"
  by (rule reached_90pct_exact)

end
