(* ===== verification/Tcp_Serve.thy ===== *)
theory Tcp_Serve
  imports Limits Tcp_Handle
begin

text \<open>
  The accept loop of the TCP proxy, \<open>serve_graceful\<close> in \<open>src/proxy/tcp.rs\<close>: the limiter, the join set
  of connection tasks, the biased \<open>select!\<close> (stop, a finished task, a new connection), and the
  drain after the listener is dropped. A step is one poll of the loop or one thing that happens
  around it: the stop token fires, a connection's task ends and its guard drops. What a
  connection's task does inside is \<open>Tcp_Handle\<close>.
\<close>

section \<open>State\<close>

text \<open>
  \<open>AtSelect\<close> is the top of the loop, \<open>Armed\<close> the \<open>select!\<close> after the stop token was found
  not cancelled, \<open>BackingOff\<close> the pause after an accept error, \<open>Draining\<close> the loop over
  \<open>join_next\<close> after the listener is dropped.
\<close>

datatype serve_phase = AtSelect | Armed | BackingOff | Draining | Returned

text \<open>A task of the join set: it runs and owns its guard, or it ended and waits to be joined.\<close>

datatype conn_task = Running u64 socket_addr guard | Ended

datatype serve_log = LogRejected ip_addr u32 string | LogPanicked | LogAcceptError | LogShuttingDown

record serve_sys =
  sv_phase :: serve_phase
  sv_stop :: bool
  sv_limits :: conn_limits
  sv_tasks :: "conn_task list"
  sv_next_id :: u64
  sv_ops :: "metric_op list"
  sv_log :: "serve_log list"
  sv_warned :: "limit_warning list"

definition serve_start :: "ProxyConfig \<Rightarrow> u64 \<Rightarrow> serve_sys" where
  "serve_start cfg i =
     \<lparr>sv_phase = AtSelect, sv_stop = False,
      sv_limits = new_limits (max_connections cfg) (cfg_max_per_ip cfg), sv_tasks = [],
      sv_next_id = i, sv_ops = [], sv_log = [], sv_warned = []\<rparr>"

section \<open>Steps\<close>

datatype serve_event =
    StopFires
  | IdTaken
  | TaskEnds nat
  | PollStop
  | NothingReady
  | Joined nat bool
  | Accepted socket_addr
  | AcceptFailed
  | BackedOff
  | JoinedAll

definition task_guard :: "conn_task \<Rightarrow> guard option" where
  "task_guard t = (case t of Running _ _ g \<Rightarrow> Some g | Ended \<Rightarrow> None)"

definition join_task :: "nat \<Rightarrow> bool \<Rightarrow> serve_sys \<Rightarrow> serve_sys" where
  "join_task i panicked s =
     s\<lparr>sv_tasks := take i (sv_tasks s) @ drop (Suc i) (sv_tasks s),
       sv_log := sv_log s @ (if panicked then [LogPanicked] else [])\<rparr>"

definition accept_conn :: "ProxyConfig \<Rightarrow> socket_addr \<Rightarrow> serve_sys \<Rightarrow> serve_sys" where
  "accept_conn cfg peer s =
     (case try_acquire (sock_ip peer) (sv_limits s) of
        (Inl rej, w, l) \<Rightarrow>
          s\<lparr>sv_phase := AtSelect, sv_limits := l, sv_warned := sv_warned s @ w,
            sv_log := sv_log s @ [LogRejected (sock_ip peer) (reject_limit rej l) (reject_label rej)],
            sv_ops := sv_ops s @ [Inc ConnectionsRejected [cfg_name cfg, reject_label rej]]\<rparr>
      | (Inr g, w, l) \<Rightarrow>
          s\<lparr>sv_phase := AtSelect, sv_limits := l, sv_warned := sv_warned s @ w,
            sv_ops := sv_ops s @ [Inc ConnectionsTotal [cfg_name cfg, ''tcp'']],
            sv_next_id := sv_next_id s + 1,
            sv_tasks := sv_tasks s @ [Running (sv_next_id s) peer g]\<rparr>)"

text \<open>
  \<open>IdTaken\<close> is another listener taking a connection id. \<open>TaskEnds i\<close> drops the guard of the
  \<open>i\<close>-th task; \<open>Joined i\<close> takes it out of the join set.
\<close>

fun serve_step :: "ProxyConfig \<Rightarrow> serve_event \<Rightarrow> serve_sys \<Rightarrow> serve_sys option" where
  "serve_step cfg StopFires s = (if sv_stop s then None else Some (s\<lparr>sv_stop := True\<rparr>))"
| "serve_step cfg IdTaken s = Some (s\<lparr>sv_next_id := sv_next_id s + 1\<rparr>)"
| "serve_step cfg (TaskEnds i) s =
     (if i < length (sv_tasks s) then
        (case sv_tasks s ! i of
           Running _ _ g \<Rightarrow>
             Some (s\<lparr>sv_tasks := (sv_tasks s)[i := Ended], sv_limits := guard_drop g (sv_limits s)\<rparr>)
         | Ended \<Rightarrow> None)
      else None)"
| "serve_step cfg PollStop s =
     (if sv_phase s = AtSelect then
        (if sv_stop s then Some (s\<lparr>sv_phase := Draining, sv_log := sv_log s @ [LogShuttingDown]\<rparr>)
         else Some (s\<lparr>sv_phase := Armed\<rparr>))
      else None)"
| "serve_step cfg NothingReady s =
     (if sv_phase s = Armed then Some (s\<lparr>sv_phase := AtSelect\<rparr>) else None)"
| "serve_step cfg (Joined i panicked) s =
     (if i < length (sv_tasks s) \<and> sv_tasks s ! i = Ended then
        (case sv_phase s of
           Armed \<Rightarrow> Some (join_task i panicked s\<lparr>sv_phase := AtSelect\<rparr>)
         | Draining \<Rightarrow> Some (join_task i panicked s)
         | _ \<Rightarrow> None)
      else None)"
| "serve_step cfg (Accepted peer) s =
     (if sv_phase s = Armed then Some (accept_conn cfg peer s) else None)"
| "serve_step cfg AcceptFailed s =
     (if sv_phase s = Armed
      then Some (s\<lparr>sv_phase := BackingOff, sv_log := sv_log s @ [LogAcceptError]\<rparr>) else None)"
| "serve_step cfg BackedOff s =
     (if sv_phase s = BackingOff then Some (s\<lparr>sv_phase := AtSelect\<rparr>) else None)"
| "serve_step cfg JoinedAll s =
     (if sv_phase s = Draining \<and> sv_tasks s = [] then Some (s\<lparr>sv_phase := Returned\<rparr>) else None)"

section \<open>Invariant\<close>

text \<open>The addresses that hold a slot: those of the running tasks, which own the guards.\<close>

definition live_ips :: "conn_task list \<Rightarrow> ip_addr multiset" where
  "live_ips ts = mset (map src_ip (List.map_filter task_guard ts))"

lemma live_ips_simps [simp]:
  "live_ips [] = {#}"
  "live_ips (Running i p g # ts) = add_mset (src_ip g) (live_ips ts)"
  "live_ips (Ended # ts) = live_ips ts"
  "live_ips (xs @ ys) = live_ips xs + live_ips ys"
  by (simp_all add: live_ips_def task_guard_def map_filter_def)

lemma live_ips_update:
  assumes "i < length ts" and "ts ! i = Running j p g"
  shows "live_ips ts = add_mset (src_ip g) (live_ips (ts[i := Ended]))"
  using assms by (subst id_take_nth_drop [OF assms(1)]) (simp add: upd_conv_take_nth_drop)

lemma live_ips_remove:
  assumes "i < length ts" and "ts ! i = Ended"
  shows "live_ips (take i ts @ drop (Suc i) ts) = live_ips ts"
  using assms by (subst (3) id_take_nth_drop [OF assms(1)]) simp

text \<open>The counters of the limiter cannot wrap: with no cap, a process has fewer than 2^32 tasks.\<close>

definition task_room :: "ProxyConfig \<Rightarrow> serve_sys \<Rightarrow> bool" where
  "task_room cfg s \<longleftrightarrow> 0 < max_connections cfg \<or> Suc (length (sv_tasks s)) < 2 ^ 32"

definition serve_inv :: "ProxyConfig \<Rightarrow> serve_sys \<Rightarrow> bool" where
  "serve_inv cfg s \<longleftrightarrow>
     limiter_ok (sv_limits s) (live_ips (sv_tasks s)) \<and>
     max_total (sv_limits s) = max_connections cfg \<and> max_per_ip (sv_limits s) = cfg_max_per_ip cfg \<and>
     (\<forall>i p g. Running i p g \<in> set (sv_tasks s) \<longrightarrow> src_ip g = sock_ip p) \<and>
     (sv_phase s = Returned \<longrightarrow> sv_tasks s = []) \<and>
     (sv_phase s \<in> {Draining, Returned} \<longrightarrow> sv_stop s)"

text \<open>The loop of a process with room for one more task.\<close>

definition roomy_step :: "ProxyConfig \<Rightarrow> serve_event \<Rightarrow> serve_sys \<Rightarrow> serve_sys option" where
  "roomy_step cfg e s = (if task_room cfg s then serve_step cfg e s else None)"

lemma size_live_ips: "size (live_ips ts) \<le> length ts"
proof (induction ts)
  case (Cons t ts)
  then show ?case by (cases t) auto
qed simp

lemma roomy_counter:
  assumes "task_room cfg s" and "serve_inv cfg s"
  shows "counter_room (sv_limits s) (live_ips (sv_tasks s))"
  using assms size_live_ips [of "sv_tasks s"]
  by (auto simp: task_room_def serve_inv_def counter_room_def)

lemma accept_conn_inv:
  assumes inv: "serve_inv cfg s" and room: "task_room cfg s" and ph: "sv_phase s = Armed"
  shows "serve_inv cfg (accept_conn cfg peer s)"
proof -
  obtain r w l where acq: "try_acquire (sock_ip peer) (sv_limits s) = (r, w, l)"
    by (cases "try_acquire (sock_ip peer) (sv_limits s)")
  have ok: "limiter_ok (sv_limits s) (live_ips (sv_tasks s))"
    using inv by (simp add: serve_inv_def)
  note acc = limiter.acquire_accounts [OF ok roomy_counter [OF room inv] acq]
  have caps: "max_total l = max_total (sv_limits s) \<and> max_per_ip l = max_per_ip (sv_limits s)"
    using acq admit_slot_max [of "sock_ip peer" "sv_limits s"]
    by (cases "sock_ip peer" "sv_limits s" rule: try_acquire_cases) auto
  show ?thesis
  proof (cases r)
    case (Inl rej)
    then show ?thesis using inv acc acq caps by (simp add: serve_inv_def accept_conn_def)
  next
    case (Inr g)
    then show ?thesis
      using inv acc acq caps limiter.acquire_key [of "sock_ip peer" "sv_limits s" g w l]
      by (auto simp: serve_inv_def accept_conn_def)
  qed
qed

lemma serve_step_inv:
  assumes inv: "serve_inv cfg s" and step: "roomy_step cfg e s = Some t"
  shows "serve_inv cfg t"
proof -
  have room: "task_room cfg s" and st: "serve_step cfg e s = Some t"
    using step by (simp_all add: roomy_step_def split: if_splits)
  show ?thesis
  proof (cases e)
    case (TaskEnds i)
    then obtain j p g where i: "i < length (sv_tasks s)" "sv_tasks s ! i = Running j p g"
      and t: "t = s\<lparr>sv_tasks := (sv_tasks s)[i := Ended], sv_limits := guard_drop g (sv_limits s)\<rparr>"
      using st by (auto split: if_splits conn_task.splits)
    have "limiter_ok (guard_drop g (sv_limits s)) (live_ips ((sv_tasks s)[i := Ended]))"
      using inv live_ips_update [OF i] by (intro limiter.release_swap) (simp add: serve_inv_def)
    then show ?thesis
      using inv i set_update_subset_insert [of "sv_tasks s" i Ended]
      by (auto simp: serve_inv_def t)
  next
    case (Joined i b)
    then have i: "i < length (sv_tasks s)" "sv_tasks s ! i = Ended"
      using st by (auto split: if_splits)
    have sub: "set (take i (sv_tasks s) @ drop (Suc i) (sv_tasks s)) \<subseteq> set (sv_tasks s)"
      using set_take_subset set_drop_subset by fastforce
    have "t = join_task i b s\<lparr>sv_phase := AtSelect\<rparr> \<or>
        t = join_task i b s \<and> sv_phase s = Draining"
      using st Joined i by (simp split: serve_phase.splits)
    then have t: "sv_tasks t = take i (sv_tasks s) @ drop (Suc i) (sv_tasks s)"
        "sv_limits t = sv_limits s" "sv_stop t = sv_stop s"
        "sv_phase t = AtSelect \<or> sv_phase t = Draining \<and> sv_phase s = Draining"
      by (elim disjE conjE; simp add: join_task_def)+
    have ips: "live_ips (sv_tasks t) = live_ips (sv_tasks s)"
      unfolding t(1) by (rule live_ips_remove [OF i])
    show ?thesis
      using inv sub t(4) unfolding serve_inv_def ips t(2,3) unfolding t(1) by auto
  next
    case (Accepted peer)
    then show ?thesis using st accept_conn_inv [OF inv room] by (auto split: if_splits)
  qed (use inv st in \<open>auto simp: serve_inv_def split: if_splits\<close>)
qed

definition serve_init :: "ProxyConfig \<Rightarrow> serve_sys \<Rightarrow> bool" where
  "serve_init cfg s \<longleftrightarrow> (\<exists>i. s = serve_start cfg i)"

interpretation serve: invariant_system "serve_init cfg" "roomy_step cfg" "serve_inv cfg" for cfg
proof unfold_locales
  show "serve_inv cfg s" if "serve_init cfg s" for s
    using that by (auto simp: serve_init_def serve_inv_def serve_start_def)
      (simp_all add: new_limits_def)
  show "serve_inv cfg t" if "serve_inv cfg s" "roomy_step cfg e s = Some t" for s e t
    using that by (rule serve_step_inv)
qed

section \<open>Refinement\<close>

text \<open>
  To the limiter the listener is a sequence of acquisitions and drops: an accept acquires, the end of a
  task drops, and nothing else touches it.
\<close>

definition serve_slots :: "serve_sys \<Rightarrow> limiter_sys" where
  "serve_slots s =
     \<lparr>ly_lim = sv_limits s, ly_live = live_ips (sv_tasks s), ly_warned = sv_warned s\<rparr>"

lemma serve_slots_step:
  assumes inv: "serve_inv cfg s" and step: "roomy_step cfg e s = Some t"
  shows "\<exists>fs. run limiter_step fs (serve_slots s) = Some (serve_slots t)"
proof -
  have room: "task_room cfg s" and st: "serve_step cfg e s = Some t"
    using step by (simp_all add: roomy_step_def split: if_splits)
  have stutter: "serve_slots t = serve_slots s \<Longrightarrow> ?thesis"
    by (intro exI [of _ "[]"]) simp
  show ?thesis
  proof (cases e)
    case (TaskEnds i)
    then obtain j p g where i: "i < length (sv_tasks s)" "sv_tasks s ! i = Running j p g"
      and t: "t = s\<lparr>sv_tasks := (sv_tasks s)[i := Ended], sv_limits := guard_drop g (sv_limits s)\<rparr>"
      using st by (auto split: if_splits conn_task.splits)
    obtain ip where g: "g = \<lparr>src_ip = ip\<rparr>" by (cases g)
    then show ?thesis
      using live_ips_update [OF i]
      by (intro exI [of _ "[Release ip]"]) (simp add: serve_slots_def t)
  next
    case (Joined i b)
    then have i: "i < length (sv_tasks s)" "sv_tasks s ! i = Ended"
      using st by (auto split: if_splits)
    have "t = join_task i b s\<lparr>sv_phase := AtSelect\<rparr> \<or> t = join_task i b s"
      using st Joined i by (simp split: serve_phase.splits)
    then show ?thesis
      using live_ips_remove [OF i] by (intro stutter) (auto simp: serve_slots_def join_task_def)
  next
    case (Accepted peer)
    then have t: "t = accept_conn cfg peer s" using st by (simp split: if_splits)
    have "counter_room (sv_limits s) (live_ips (sv_tasks s))" using roomy_counter [OF room inv] .
    moreover obtain r w l where acq: "try_acquire (sock_ip peer) (sv_limits s) = (r, w, l)"
      by (cases "try_acquire (sock_ip peer) (sv_limits s)")
    ultimately have "run limiter_step [Acquire (sock_ip peer)] (serve_slots s) = Some (serve_slots t)"
      by (cases r) (simp_all add: serve_slots_def t accept_conn_def)
    then show ?thesis by blast
  qed ((rule stutter, (use st in \<open>auto simp: serve_slots_def split: if_splits\<close>) [1])+)
qed

interpretation serve_limiter: refining_system "serve_init cfg" "roomy_step cfg" "serve_inv cfg"
    "limiter_init (max_connections cfg) (cfg_max_per_ip cfg)" limiter_step serve_slots for cfg
proof unfold_locales
  show "limiter_init (max_connections cfg) (cfg_max_per_ip cfg) (serve_slots s)"
    if "serve_init cfg s" for s
    using that by (auto simp: serve_init_def serve_start_def serve_slots_def limiter_init_def)
  show "\<exists>fs. run limiter_step fs (serve_slots s) = Some (serve_slots t)"
    if "serve_inv cfg s" "roomy_step cfg e s = Some t" for s e t
    using that by (rule serve_slots_step)
qed

section \<open>Runs\<close>

fun is_accepted :: "serve_event \<Rightarrow> bool" where
  "is_accepted (Accepted p) = True"
| "is_accepted _ = False"

definition accepts :: "serve_event list \<Rightarrow> nat" where
  "accepts es = length (filter is_accepted es)"

lemma accepts_simps [simp]:
  "accepts [] = 0"
  "accepts (e # es) = (if is_accepted e then Suc (accepts es) else accepts es)"
  by (simp_all add: accepts_def)

lemma run_roomy_Cons:
  assumes "run (roomy_step cfg) (e # es) s = Some t"
  obtains u where "serve_step cfg e s = Some u" "roomy_step cfg e s = Some u"
    "run (roomy_step cfg) es u = Some t"
  using assms by (auto simp: roomy_step_def split: option.splits if_splits)

text \<open>A stopped listener: only a \<open>select!\<close> that was armed before can still accept.\<close>

lemma stopped_step:
  assumes "sv_stop s" and "serve_step cfg e s = Some t"
  shows "sv_stop t" and "of_bool (is_accepted e) + of_bool (sv_phase t = Armed) \<le>
    (of_bool (sv_phase s = Armed) :: nat)"
  using assms
  by (cases e; auto simp: accept_conn_def join_task_def split: if_splits conn_task.splits
      serve_phase.splits prod.splits sum.splits)+

lemma stopped_accepts:
  "sv_stop s \<Longrightarrow> run (roomy_step cfg) es s = Some t \<Longrightarrow> accepts es \<le> of_bool (sv_phase s = Armed)"
proof (induction es arbitrary: s)
  case (Cons e es)
  obtain u where u: "serve_step cfg e s = Some u" "run (roomy_step cfg) es u = Some t"
    using run_roomy_Cons [OF Cons.prems(2)] by blast
  show ?case
    using Cons.IH [OF stopped_step(1) [OF Cons.prems(1) u(1)] u(2)]
      stopped_step(2) [OF Cons.prems(1) u(1)]
    by (cases "is_accepted e"; cases "sv_phase u = Armed"; cases "sv_phase s = Armed") auto
qed simp

text \<open>What a step adds to the counters and to the log.\<close>

definition rejected :: "ProxyConfig \<Rightarrow> serve_sys \<Rightarrow> nat" where
  "rejected cfg s =
     counted ConnectionsRejected [cfg_name cfg, ''total''] (sv_ops s) +
     counted ConnectionsRejected [cfg_name cfg, ''per_ip''] (sv_ops s)"

definition rejection_lines :: "serve_sys \<Rightarrow> nat" where
  "rejection_lines s =
     length (filter (\<lambda>l. case l of LogRejected _ _ _ \<Rightarrow> True | _ \<Rightarrow> False) (sv_log s))"

lemma serve_step_counts:
  assumes "serve_step cfg e s = Some t"
  shows "counted ConnectionsTotal [cfg_name cfg, ''tcp''] (sv_ops t) + rejected cfg t =
      counted ConnectionsTotal [cfg_name cfg, ''tcp''] (sv_ops s) + rejected cfg s +
      of_bool (is_accepted e)"
    and "rejection_lines t + rejected cfg s = rejection_lines s + rejected cfg t"
    and "list_all well_labelled (sv_ops s) \<Longrightarrow> list_all well_labelled (sv_ops t)"
  using assms
  by (cases e; auto simp: accept_conn_def join_task_def rejected_def rejection_lines_def
      reject_label_def well_labelled_def split: if_splits conn_task.splits serve_phase.splits
      prod.splits sum.splits Reject.splits)+

lemma serve_run_counts:
  "run (roomy_step cfg) es s = Some t \<Longrightarrow>
     counted ConnectionsTotal [cfg_name cfg, ''tcp''] (sv_ops t) + rejected cfg t =
       counted ConnectionsTotal [cfg_name cfg, ''tcp''] (sv_ops s) + rejected cfg s + accepts es \<and>
     rejection_lines t + rejected cfg s = rejection_lines s + rejected cfg t \<and>
     (list_all well_labelled (sv_ops s) \<longrightarrow> list_all well_labelled (sv_ops t))"
proof (induction es arbitrary: s)
  case (Cons e es)
  obtain u where u: "serve_step cfg e s = Some u" "run (roomy_step cfg) es u = Some t"
    using run_roomy_Cons [OF Cons.prems] by blast
  show ?case using Cons.IH [OF u(2)] serve_step_counts [OF u(1)] by auto
qed simp

text \<open>The drain: every step of it but a foreign id lowers this rank.\<close>

definition drain_rank :: "serve_sys \<Rightarrow> nat" where
  "drain_rank s =
     size (live_ips (sv_tasks s)) + length (sv_tasks s) + (if sv_phase s = Draining then 1 else 0)"

lemma drain_step:
  assumes inv: "serve_inv cfg s" and ph: "sv_phase s \<in> {Draining, Returned}"
    and st: "serve_step cfg e s = Some t" and "e \<noteq> IdTaken"
  shows "sv_phase t \<in> {Draining, Returned} \<and> drain_rank t < drain_rank s"
proof (cases e)
  case (TaskEnds i)
  then obtain j p g where i: "i < length (sv_tasks s)" "sv_tasks s ! i = Running j p g"
    and t: "t = s\<lparr>sv_tasks := (sv_tasks s)[i := Ended], sv_limits := guard_drop g (sv_limits s)\<rparr>"
    using st by (auto split: if_splits conn_task.splits)
  then show ?thesis using ph live_ips_update [OF i] by (auto simp: drain_rank_def)
next
  case (Joined i b)
  then have i: "i < length (sv_tasks s)" "sv_tasks s ! i = Ended"
    using st by (auto split: if_splits)
  have "sv_phase s = Draining" and t: "t = join_task i b s"
    using st Joined i ph by (auto split: serve_phase.splits)
  moreover have "live_ips (sv_tasks t) = live_ips (sv_tasks s)"
    using live_ips_remove [OF i] by (simp add: t join_task_def)
  moreover have "length (sv_tasks t) < length (sv_tasks s)"
    using i by (simp add: t join_task_def)
  ultimately show ?thesis by (simp add: drain_rank_def join_task_def)
next
  case StopFires
  then show ?thesis using inv ph st by (auto simp: serve_inv_def)
qed (use ph st assms(4) in \<open>auto simp: drain_rank_def split: if_splits\<close>)

lemma drain_progress:
  assumes "sv_phase s = Draining"
  shows "\<exists>e. serve_step cfg e s \<noteq> None \<and> e \<noteq> IdTaken"
proof (cases "sv_tasks s")
  case Nil
  then show ?thesis using assms by (intro exI [of _ JoinedAll]) simp
next
  case (Cons x ts)
  show ?thesis
  proof (cases x)
    case (Running i p g)
    then show ?thesis using Cons by (intro exI [of _ "TaskEnds 0"]) simp
  next
    case Ended
    then show ?thesis using Cons assms by (intro exI [of _ "Joined 0 False"]) simp
  qed
qed

lemma drain_run:
  "serve_inv cfg s \<Longrightarrow> sv_phase s \<in> {Draining, Returned} \<Longrightarrow> IdTaken \<notin> set es \<Longrightarrow>
     run (roomy_step cfg) es s = Some t \<Longrightarrow>
     sv_phase t \<in> {Draining, Returned} \<and> length es + drain_rank t \<le> drain_rank s"
proof (induction es arbitrary: s)
  case (Cons e es)
  obtain u where u: "serve_step cfg e s = Some u" "roomy_step cfg e s = Some u"
      "run (roomy_step cfg) es u = Some t"
    using run_roomy_Cons [OF Cons.prems(4)] by blast
  show ?case
    using Cons.IH [OF serve.inv_next [OF Cons.prems(1) u(2)] _ _ u(3)]
      drain_step [OF Cons.prems(1,2) u(1)] Cons.prems(3) by force
qed simp

section \<open>A listener\<close>

text \<open>Two connections from one address under caps of two, a third refused, and a drain.\<close>

definition demo_serve_cfg :: ProxyConfig where
  "demo_serve_cfg = default_config\<lparr>max_connections := 2, cfg_max_per_ip := 2\<rparr>"

definition demo_accepts :: "serve_event list" where
  "demo_accepts =
     [PollStop, Accepted demo_peer, PollStop, Accepted demo_peer, PollStop, Accepted demo_peer,
      PollStop, StopFires]"

definition demo_drain :: "serve_event list" where
  "demo_drain = [NothingReady, PollStop, TaskEnds 1, TaskEnds 0, Joined 0 False, Joined 0 True, JoinedAll]"

definition demo_stopped :: serve_sys where
  "demo_stopped = the (run (roomy_step demo_serve_cfg) demo_accepts (serve_start demo_serve_cfg 1))"

definition demo_draining :: serve_sys where
  "demo_draining = the (run (roomy_step demo_serve_cfg) (take 2 demo_drain) demo_stopped)"

definition demo_returned :: serve_sys where
  "demo_returned = the (run (roomy_step demo_serve_cfg) (drop 2 demo_drain) demo_draining)"

lemmas serve_eval = roomy_step_def task_room_def serve_start_def demo_serve_cfg_def default_config_def
  accept_conn_def try_acquire_def admit_slot_def reached_90pct_def new_limits_def guard_drop_def
  sat_sub_def join_task_def demo_peer_def Let_def word_le_nat_alt word_less_nat_alt

lemma demo_serve_runs:
  "run (roomy_step demo_serve_cfg) demo_accepts (serve_start demo_serve_cfg 1) = Some demo_stopped"
  "run (roomy_step demo_serve_cfg) (take 2 demo_drain) demo_stopped = Some demo_draining"
  "run (roomy_step demo_serve_cfg) (drop 2 demo_drain) demo_draining = Some demo_returned"
  "sv_stop demo_stopped" "sv_phase demo_stopped = Armed" "length (sv_tasks demo_stopped) = 2"
  "sv_phase demo_draining = Draining" "length (sv_tasks demo_draining) = 2"
  "sv_phase demo_returned = Returned"
  by (simp_all add: demo_returned_def demo_draining_def demo_stopped_def demo_accepts_def
      demo_drain_def serve_eval)

lemma demo_serve_reach:
  "reach (serve_init demo_serve_cfg) (roomy_step demo_serve_cfg) demo_stopped"
  "reach (serve_init demo_serve_cfg) (roomy_step demo_serve_cfg) demo_draining"
  "reach (serve_init demo_serve_cfg) (roomy_step demo_serve_cfg) demo_returned"
proof -
  have "reach (serve_init demo_serve_cfg) (roomy_step demo_serve_cfg) (serve_start demo_serve_cfg 1)"
    by (rule reach_init) (auto simp: serve_init_def)
  from run_reach [OF this demo_serve_runs(1)]
  show 1: "reach (serve_init demo_serve_cfg) (roomy_step demo_serve_cfg) demo_stopped" .
  from run_reach [OF 1 demo_serve_runs(2)]
  show 2: "reach (serve_init demo_serve_cfg) (roomy_step demo_serve_cfg) demo_draining" .
  from run_reach [OF 2 demo_serve_runs(3)]
  show "reach (serve_init demo_serve_cfg) (roomy_step demo_serve_cfg) demo_returned" .
qed

section \<open>Properties\<close>

text \<open>
  C3: The listener never runs more connections than configured, in total or from one source
  address, whatever the order of accepts and ends; its limiter counts exactly the running ones.
\<close>

theorem serve_within_caps:
  assumes "reach (serve_init cfg) (roomy_step cfg) s"
  shows "(max_connections cfg = 0 \<or> size (live_ips (sv_tasks s)) \<le> unat (max_connections cfg)) \<and>
    (cfg_max_per_ip cfg = 0 \<or> count (live_ips (sv_tasks s)) ip \<le> unat (cfg_max_per_ip cfg)) \<and>
    unat (st_total (lim_state (sv_limits s))) = size (live_ips (sv_tasks s))"
  using serve.inv_reachable [OF assms]
  by (auto simp: serve_inv_def limiter_ok_def within_caps_def tracks_total)

theorem serve_within_caps_witness:
  "size (live_ips (sv_tasks demo_stopped)) \<le> 2 \<and>
   count (live_ips (sv_tasks demo_stopped)) (sock_ip demo_peer) \<le> 2"
  using serve_within_caps [OF demo_serve_reach(1), of "sock_ip demo_peer"]
  by (simp add: demo_serve_cfg_def)

text \<open>
  C22: The listener refines the abstract limiter: whatever the order of accepts, ends of connections, stop
  and drain, its limiter together with the addresses of its running connections is a reachable state
  of the limiter alone, so nothing but admissions and drops of guards ever touches it.
\<close>

theorem serve_refines_limiter:
  assumes "reach (serve_init cfg) (roomy_step cfg) s"
  shows "reach (limiter_init (max_connections cfg) (cfg_max_per_ip cfg)) limiter_step (serve_slots s)"
  using assms by (rule serve_limiter.abs_reachable)

theorem serve_refines_limiter_witness:
  "reach (limiter_init 2 2) limiter_step (serve_slots demo_stopped)"
  using serve_refines_limiter [OF demo_serve_reach(1)] by (simp add: demo_serve_cfg_def)

text \<open>
  Graceful stop. Once the stop token is cancelled at most one more connection is accepted (by a
  \<open>select!\<close> that had already found the token not cancelled), and none if the loop is not in that
  \<open>select!\<close>.
\<close>

theorem stop_ends_accepting:
  assumes "sv_stop s" and "run (roomy_step cfg) es s = Some t"
  shows "accepts es \<le> (if sv_phase s = Armed then 1 else 0)"
  using stopped_accepts [OF assms] by (cases "sv_phase s = Armed") simp_all

theorem stop_ends_accepting_witness:
  "accepts (take 2 demo_drain) \<le> 1"
  using stop_ends_accepting [OF demo_serve_runs(4,2)] demo_serve_runs(5) by simp

text \<open>
  The listener returns only when every connection is gone: no task is left in the join set, and
  the limiter is back to zero with no address in its map.
\<close>

theorem serve_returns_drained:
  assumes "reach (serve_init cfg) (roomy_step cfg) s" and "sv_phase s = Returned"
  shows "sv_tasks s = [] \<and> st_total (lim_state (sv_limits s)) = 0 \<and>
    st_per_ip (lim_state (sv_limits s)) = Map.empty"
proof -
  have "sv_tasks s = []" and "limiter_ok (sv_limits s) (live_ips (sv_tasks s))"
    using serve.inv_reachable [OF assms(1)] assms(2) by (auto simp: serve_inv_def)
  then show ?thesis
    by (auto simp: limiter_ok_def tracks_def word_zero_iff_unat)
qed

theorem serve_returns_drained_witness:
  "sv_tasks demo_returned = [] \<and> st_total (lim_state (sv_limits demo_returned)) = 0"
  using serve_returns_drained [OF demo_serve_reach(3) demo_serve_runs(9)] by simp

text \<open>
  The drain comes to its end. From the moment the listener is dropped, with \<open>n\<close> tasks at most
  \<open>2 * n + 1\<close> ends of tasks and joins remain (whatever ids other listeners take), and until the
  function returns one of them is possible.
\<close>

theorem serve_drain_ends:
  assumes "reach (serve_init cfg) (roomy_step cfg) s" and "sv_phase s = Draining"
    and "IdTaken \<notin> set es" and "run (roomy_step cfg) es s = Some t"
  shows "length es \<le> 2 * length (sv_tasks s) + 1 \<and>
    (sv_phase t = Returned \<or>
     sv_phase t = Draining \<and> (\<exists>e. serve_step cfg e t \<noteq> None \<and> e \<noteq> IdTaken))"
  using drain_run [OF serve.inv_reachable [OF assms(1)] _ assms(3,4)] assms(2)
    drain_progress [of t cfg] size_live_ips [of "sv_tasks s"]
  by (auto simp: drain_rank_def)

theorem serve_drain_ends_witness:
  "length (drop 2 demo_drain) \<le> 5 \<and> sv_phase demo_returned = Returned"
proof -
  have "IdTaken \<notin> set (drop 2 demo_drain)" by (simp add: demo_drain_def)
  from serve_drain_ends [OF demo_serve_reach(2) demo_serve_runs(7) this demo_serve_runs(3)]
  show ?thesis using demo_serve_runs(8,9) by simp
qed

text \<open>
  Every accepted connection is counted once, as a connection or as a rejection, and every
  rejection leaves exactly one log line; the metric calls have the labels of their families.
\<close>

theorem serve_counts_accepts:
  assumes "run (roomy_step cfg) es (serve_start cfg i) = Some t"
  shows "counted ConnectionsTotal [cfg_name cfg, ''tcp''] (sv_ops t) + rejected cfg t = accepts es \<and>
    rejection_lines t = rejected cfg t \<and> list_all well_labelled (sv_ops t)"
  using serve_run_counts [OF assms]
  by (simp add: serve_start_def rejected_def rejection_lines_def)

theorem serve_counts_accepts_witness:
  "counted ConnectionsTotal [''n'', ''tcp''] (sv_ops demo_stopped) + rejected demo_serve_cfg demo_stopped = 3 \<and>
   rejection_lines demo_stopped = rejected demo_serve_cfg demo_stopped"
proof -
  have "accepts demo_accepts = 3" and "cfg_name demo_serve_cfg = ''n''"
    by (simp_all add: demo_accepts_def demo_serve_cfg_def default_config_def)
  then show ?thesis using serve_counts_accepts [OF demo_serve_runs(1)] by simp
qed

end
