(* ===== verification/Tcp_Proxy.thy ===== *)
theory Tcp_Proxy
  imports Tcp_Conn Tcp_Serve
begin

text \<open>
  One TCP proxy as a whole: the accept loop of \<open>Tcp_Serve\<close> with, for every task of its join set, the
  connection task of \<open>Tcp_Conn\<close>, in any interleaving of the loop, the tasks, their relays and the two
  tokens. What was left open in the parts is fixed here: a task of the join set ends when its
  handler has, and its token is a child of the proxy's force token.
\<close>

section \<open>State and steps\<close>

text \<open>The connections stand in the order of the join set; \<open>px_ops\<close> are all metric calls in order.\<close>

record proxy_sys =
  px_serve :: serve_sys
  px_conns :: "(socket_addr \<times> conn) list"
  px_force :: bool
  px_ops :: "metric_op list"

definition proxy_start :: "ProxyConfig \<Rightarrow> u64 \<Rightarrow> proxy_sys" where
  "proxy_start cfg conn_id =
     \<lparr>px_serve = serve_start cfg conn_id, px_conns = [], px_force = False, px_ops = []\<rparr>"

datatype proxy_event = Serve serve_event | Conn nat conn_event | ForceFires

text \<open>A task ends with its handler, which does not panic.\<close>

definition serve_allowed :: "serve_event \<Rightarrow> proxy_sys \<Rightarrow> bool" where
  "serve_allowed e s =
     (case e of
        TaskEnds i \<Rightarrow> i < length (px_conns s) \<and> is_over (snd (px_conns s ! i))
      | Joined i panicked \<Rightarrow> \<not> panicked
      | _ \<Rightarrow> True)"

text \<open>An admitted connection gets a task, with a child of the force token; a joined task is gone.\<close>

definition conns_after :: "serve_event \<Rightarrow> serve_sys \<Rightarrow> proxy_sys \<Rightarrow> (socket_addr \<times> conn) list" where
  "conns_after e t s =
     (case e of
        Accepted peer \<Rightarrow>
          if length (sv_tasks (px_serve s)) < length (sv_tasks t)
          then px_conns s @ [(peer, conn_start\<lparr>cn_token := px_force s\<rparr>)] else px_conns s
      | Joined i panicked \<Rightarrow> take i (px_conns s) @ drop (Suc i) (px_conns s)
      | _ \<Rightarrow> px_conns s)"

fun proxy_step :: "ProxyConfig \<Rightarrow> proxy_event \<Rightarrow> proxy_sys \<Rightarrow> proxy_sys option" where
  "proxy_step cfg (Serve e) s =
     (if serve_allowed e s then
        (case serve_step cfg e (px_serve s) of
           None \<Rightarrow> None
         | Some t \<Rightarrow>
             Some (s\<lparr>px_serve := t, px_conns := conns_after e t s,
               px_ops := px_ops s @ new_ops (sv_ops (px_serve s)) (sv_ops t)\<rparr>))
      else None)"
| "proxy_step cfg (Conn i e) s =
     (if i < length (px_conns s) \<and> (e = TokenReaches \<longrightarrow> px_force s) then
        (case px_conns s ! i of
           (peer, c) \<Rightarrow>
             (case conn_step cfg peer e c of
                None \<Rightarrow> None
              | Some c' \<Rightarrow>
                  Some (s\<lparr>px_conns := (px_conns s)[i := (peer, c')],
                    px_ops := px_ops s @ new_ops (cn_ops c) (cn_ops c')\<rparr>)))
      else None)"
| "proxy_step cfg ForceFires s = (if px_force s then None else Some (s\<lparr>px_force := True\<rparr>))"

text \<open>As for the loop alone: a process with room for one more task.\<close>

definition roomy_proxy_step :: "ProxyConfig \<Rightarrow> proxy_event \<Rightarrow> proxy_sys \<Rightarrow> proxy_sys option" where
  "roomy_proxy_step cfg e s = (if task_room cfg (px_serve s) then proxy_step cfg e s else None)"

section \<open>The balance of one step\<close>

definition close_reasons :: "string list" where
  "close_reasons = [''eof'', ''reset'', ''idle_timeout'', ''half_close_timeout'', ''shutdown'']"

text \<open>How many connections the calls say are over: failed, timed out, or closed for any reason.\<close>

definition outcomes :: "string \<Rightarrow> metric_op list \<Rightarrow> nat" where
  "outcomes nm ops =
     counted ConnectFailures [nm] ops + counted ConnectTimeouts [nm] ops +
     sum_list (map (\<lambda>r. counted ConnectionsClosed [nm, r] ops) close_reasons)"

definition open_conn :: "conn \<Rightarrow> nat" where
  "open_conn c =
     (case cn_phase c of Done ro \<Rightarrow> 0 | InRelay r \<Rightarrow> (if r_closed r = None then 1 else 0) | _ \<Rightarrow> 1)"

definition relaying :: "conn \<Rightarrow> nat" where
  "relaying c = (case cn_phase c of InRelay r \<Rightarrow> 1 | _ \<Rightarrow> 0)"

lemma outcomes_simps [simp]:
  "outcomes nm [] = 0"
  "outcomes nm (ops @ ops') = outcomes nm ops + outcomes nm ops'"
  by (simp_all add: outcomes_def close_reasons_def)

lemma outcomes_Cons: "outcomes nm (op # ops) = outcomes nm [op] + outcomes nm ops"
  using outcomes_simps(2) [of nm "[op]" ops] by simp

lemma new_ops_simps [simp]:
  "new_ops ops ops = []" "new_ops ops (ops @ ops') = ops'" "new_ops [] ops = ops"
  by (simp_all add: new_ops_def)

lemma relay_step_balance:
  assumes inv: "relay_inv cfg r" and step: "relay_step cfg e r = Some r'"
  shows "outcomes (cfg_name cfg) (new_ops (metric_ops (r_shared r)) (metric_ops (r_shared r'))) +
      (if r_closed r' = None then 1 else 0) = (if r_closed r = None then 1 else 0)"
    and "gauge Active ls x (new_ops (metric_ops (r_shared r)) (metric_ops (r_shared r'))) = x"
    and "counted ConnectionsTotal ls' (new_ops (metric_ops (r_shared r)) (metric_ops (r_shared r'))) = 0"
proof -
  let ?new = "new_ops (metric_ops (r_shared r)) (metric_ops (r_shared r'))"
  let ?goal = "outcomes (cfg_name cfg) ?new + (if r_closed r' = None then 1 else 0) =
      (if r_closed r = None then 1 else 0) \<and> gauge Active ls x ?new = x \<and>
      counted ConnectionsTotal ls' ?new = 0"
  have ?goal
  proof (cases e)
    case (Copy d ev)
    then obtain c sh where cs: "copy_step (cfg_name cfg) d ev (dir_copy d r, r_shared r) = Some (c, sh)"
      and r': "r' = set_copy d c (r\<lparr>r_shared := sh\<rparr>)"
      using step by (auto split: option.splits)
    have "metric_ops sh = metric_ops (r_shared r) \<or>
        (\<exists>n. metric_ops sh = metric_ops (r_shared r) @ [IncBy BytesTotal [cfg_name cfg, dir_label d] n])"
      using cs by (cases ev) (auto simp: count_chunk_def Let_def split: copy_phase.splits if_splits)
    then show ?thesis by (auto simp: r' outcomes_def close_reasons_def)
  next
    case Close
    then obtain s where wd: "r_wd r = WdReturned s" and open': "r_closed r = None"
      and ops: "metric_ops (r_shared r') = metric_ops (r_shared r) @ [Inc ConnectionsClosed [cfg_name cfg, s]]"
      and closed: "r_closed r' \<noteq> None"
      using step by (auto split: wd_phase.splits if_splits)
    have "s \<in> set close_reasons"
      using inv wd by (auto simp: relay_inv_def wd_inv_def reason_holds_def close_reasons_def)
    then have "outcomes (cfg_name cfg) [Inc ConnectionsClosed [cfg_name cfg, s]] = 1"
      by (auto simp: outcomes_def close_reasons_def)
    then show ?thesis using open' closed by (simp add: ops)
  next
    case (WdEvent ev)
    then have "metric_ops (r_shared r') = metric_ops (r_shared r) \<and> r_closed r' = r_closed r"
      using step by (auto simp: wd_returns_def select_takes_def
          split: wd_phase.splits if_splits sum.splits wd_event.splits)
    then show ?thesis by simp
  next
    case (WdTurn now)
    then have "metric_ops (r_shared r') = metric_ops (r_shared r) \<and> r_closed r' = r_closed r"
      using step by (auto simp: wd_returns_def split: wd_phase.splits sum.splits prod.splits)
    then show ?thesis by simp
  next
    case TokenFires
    then show ?thesis using step by (auto split: if_splits)
  qed
  then show "outcomes (cfg_name cfg) ?new + (if r_closed r' = None then 1 else 0) =
      (if r_closed r = None then 1 else 0)" "gauge Active ls x ?new = x"
    "counted ConnectionsTotal ls' ?new = 0"
    by blast+
qed

text \<open>A step of a task moves the gauge with its relay, and an outcome ends it, or the token does.\<close>

definition balanced :: "string \<Rightarrow> conn \<Rightarrow> metric_op list \<Rightarrow> conn \<Rightarrow> bool" where
  "balanced nm c ops c' \<longleftrightarrow>
     (\<forall>x. gauge Active [nm] x ops + int (relaying c) = x + int (relaying c')) \<and>
     (outcomes nm ops + open_conn c' = open_conn c \<or>
      cn_token c \<and> ops = [] \<and> open_conn c' \<le> open_conn c) \<and>
     (\<forall>ls. counted ConnectionsTotal ls ops = 0) \<and> (is_over c \<longrightarrow> is_over c')"

lemma outcome_calls [simp]:
  "outcomes nm [Inc ConnectFailures [nm]] = 1" "outcomes nm [Inc ConnectTimeouts [nm]] = 1"
  "outcomes nm [Inc Active ls] = 0" "outcomes nm [Dec Active ls] = 0"
  by (simp_all add: outcomes_def close_reasons_def)

lemmas balance_defs = balanced_def relaying_def open_conn_def is_over_def call_metric_def

lemma begin_relay_balance:
  "open_conn c = 1 \<Longrightarrow> relaying c = 0 \<Longrightarrow> \<not> is_over c \<Longrightarrow>
     balanced (cfg_name cfg) c [Inc Active [cfg_name cfg]] (begin_relay cfg now c')"
  by (simp add: balance_defs begin_relay_def relay_start_def split: conn_phase.splits)

lemma connect_balance:
  assumes "cn_phase c = ConnectReady"
  shows "balanced (cfg_name cfg) c (new_ops (cn_ops c) (cn_ops (connect_ends cfg peer r a now c)))
    (connect_ends cfg peer r a now c)"
proof (cases r)
  case Connected
  then show ?thesis
    using assms begin_relay_balance [of c cfg now c]
    by (auto simp: connect_ends_def Let_def begin_relay_def balance_defs)
qed (use assms in \<open>simp_all add: connect_ends_def balance_defs\<close>)

lemma conn_step_balance:
  assumes inv: "conn_inv cfg peer c" and step: "conn_step cfg peer e c = Some c'"
  shows "balanced (cfg_name cfg) c (new_ops (cn_ops c) (cn_ops c')) c'"
proof (cases e)
  case (RelayMoves re)
  then obtain r r' where ph: "cn_phase c = InRelay r" and st: "relay_step cfg re r = Some r'"
    and c': "c' = c\<lparr>cn_phase := InRelay r',
      cn_ops := cn_ops c @ new_ops (metric_ops (r_shared r)) (metric_ops (r_shared r'))\<rparr>"
    using step by (auto split: conn_phase.splits if_splits option.splits)
  have "relay_inv cfg r"
    using inv ph relay.inv_reachable [of cfg r] by (simp add: conn_inv_def)
  from relay_step_balance [OF this st] show ?thesis
    using ph by (simp add: c' balance_defs)
next
  case TokenReaches
  then show ?thesis
    using step by (cases "cn_phase c") (auto simp: balance_defs split: if_splits)
next
  case PollToken
  then show ?thesis
    using step by (cases "cn_phase c"; cases "cn_token c") (auto simp: balance_defs)
next
  case NotYet
  then show ?thesis
    using step by (cases "cn_phase c") (auto simp: balance_defs)
next
  case (ConnectEnds r a now)
  then show ?thesis
    using step connect_balance by (cases "cn_phase c") auto
next
  case (HeaderTook k now)
  then obtain rest where ph: "cn_phase c = HeaderReady rest" and k: "0 < k" "k \<le> length rest"
    using step by (auto split: conn_phase.splits if_splits)
  show ?thesis
  proof (cases "k = length rest")
    case True
    let ?c = "c\<lparr>cn_upstream := cn_upstream c @ take k rest\<rparr>"
    have c': "c' = begin_relay cfg now ?c" using step HeaderTook ph k True by simp
    have "new_ops (cn_ops c) (cn_ops c') = [Inc Active [cfg_name cfg]]"
      by (simp add: c' begin_relay_def call_metric_def)
    moreover have "open_conn c = 1" "relaying c = 0" "\<not> is_over c"
      using ph by (simp_all add: open_conn_def relaying_def is_over_def)
    ultimately show ?thesis using begin_relay_balance c' by simp
  next
    case False
    then show ?thesis using step HeaderTook ph k by (auto simp: balance_defs)
  qed
next
  case HeaderFails
  then show ?thesis using step by (cases "cn_phase c") (auto simp: balance_defs)
next
  case RelayEnds
  then show ?thesis
    using step by (cases "cn_phase c") (auto simp: balance_defs split: if_splits)
qed

lemma conn_step_token:
  "conn_step cfg peer e c = Some c' \<Longrightarrow> cn_token c' = (cn_token c \<or> e = TokenReaches)"
  by (cases e; cases "cn_phase c") (auto simp: call_metric_def begin_relay_def connect_ends_def Let_def
      split: if_splits option.splits connect_result.splits)

section \<open>Invariant\<close>

definition total :: "(conn \<Rightarrow> nat) \<Rightarrow> (socket_addr \<times> conn) list \<Rightarrow> nat" where
  "total f cs = sum_list (map (\<lambda>pc. f (snd pc)) cs)"

lemma total_simps [simp]:
  "total f [] = 0" "total f (pc # cs) = f (snd pc) + total f cs"
  "total f (cs @ cs') = total f cs + total f cs'"
  by (simp_all add: total_def)

lemma total_update:
  "i < length cs \<Longrightarrow> total f (cs[i := (p, c)]) + f (snd (cs ! i)) = total f cs + f c"
  using sum_map_update [of i cs "\<lambda>pc. f (snd pc)" "(p, c)"] by (simp add: total_def)

lemma total_remove:
  "i < length cs \<Longrightarrow> total f (take i cs @ drop (Suc i) cs) + f (snd (cs ! i)) = total f cs"
  by (subst (3) id_take_nth_drop, assumption) simp

text \<open>A task of the join set has ended only if its handler has.\<close>

definition tasks_match :: "conn_task list \<Rightarrow> (socket_addr \<times> conn) list \<Rightarrow> bool" where
  "tasks_match ts cs \<longleftrightarrow> list_all2 (\<lambda>t pc. t = Ended \<longrightarrow> is_over (snd pc)) ts cs"

definition accounts :: "ProxyConfig \<Rightarrow> proxy_sys \<Rightarrow> bool" where
  "accounts cfg s \<longleftrightarrow>
     (let nm = cfg_name cfg; ops = px_ops s;
          seen = outcomes nm ops + total open_conn (px_conns s) in
      gauge Active [nm] 0 ops = int (total relaying (px_conns s)) \<and>
      seen \<le> counted ConnectionsTotal [nm, ''tcp''] ops \<and>
      (\<not> px_force s \<longrightarrow> seen = counted ConnectionsTotal [nm, ''tcp''] ops))"

definition proxy_inv :: "ProxyConfig \<Rightarrow> proxy_sys \<Rightarrow> bool" where
  "proxy_inv cfg s \<longleftrightarrow>
     serve_inv cfg (px_serve s) \<and> tasks_match (sv_tasks (px_serve s)) (px_conns s) \<and>
     (\<forall>(p, c)\<in>set (px_conns s). conn_inv cfg p c \<and> (cn_token c \<longrightarrow> px_force s)) \<and>
     accounts cfg s"

lemma over_counts:
  "is_over c \<Longrightarrow> open_conn c = 0 \<and> relaying c = 0"
  by (auto simp: is_over_def open_conn_def relaying_def split: conn_phase.splits)

lemma start_counts:
  "open_conn (conn_start\<lparr>cn_token := b\<rparr>) = 1" "relaying (conn_start\<lparr>cn_token := b\<rparr>) = 0"
  "conn_inv cfg p (conn_start\<lparr>cn_token := b\<rparr>)"
  by (simp_all add: open_conn_def relaying_def conn_start_def conn_inv_def)

lemma tasks_match_update:
  assumes "tasks_match ts cs" and "i < length cs" and "is_over (snd (cs ! i)) \<Longrightarrow> is_over c"
  shows "tasks_match ts (cs[i := (p, c)])"
  using assms by (auto simp: tasks_match_def list_all2_conv_all_nth nth_list_update)

lemma tasks_match_remove:
  assumes "tasks_match ts cs" and "i < length ts"
  shows "tasks_match (take i ts @ drop (Suc i) ts) (take i cs @ drop (Suc i) cs)"
  using assms unfolding tasks_match_def
  by (intro list_all2_appendI) (simp_all add: list_all2_takeI list_all2_dropI)

text \<open>What the loop does to the tasks and to the calls.\<close>

lemma serve_step_tasks:
  assumes "serve_step cfg e s = Some t"
  shows "case e of
      Accepted p \<Rightarrow>
        (\<exists>i g. sv_tasks t = sv_tasks s @ [Running i p g] \<and>
           sv_ops t = sv_ops s @ [Inc ConnectionsTotal [cfg_name cfg, ''tcp'']]) \<or>
        (\<exists>r. sv_tasks t = sv_tasks s \<and> sv_ops t = sv_ops s @ [Inc ConnectionsRejected [cfg_name cfg, r]])
    | TaskEnds i \<Rightarrow> i < length (sv_tasks s) \<and> sv_tasks t = (sv_tasks s)[i := Ended] \<and> sv_ops t = sv_ops s
    | Joined i b \<Rightarrow>
        i < length (sv_tasks s) \<and> sv_tasks s ! i = Ended \<and>
        sv_tasks t = take i (sv_tasks s) @ drop (Suc i) (sv_tasks s) \<and> sv_ops t = sv_ops s
    | _ \<Rightarrow> sv_tasks t = sv_tasks s \<and> sv_ops t = sv_ops s"
  using assms
  by (cases e) (auto simp: accept_conn_def join_task_def split: if_splits conn_task.splits
      serve_phase.splits prod.splits sum.splits)

lemma serve_conns_inv:
  assumes inv: "proxy_inv cfg s" and room: "task_room cfg (px_serve s)"
    and step: "proxy_step cfg (Serve e) s = Some t"
  shows "proxy_inv cfg t"
proof -
  obtain u where allowed: "serve_allowed e s" and st: "serve_step cfg e (px_serve s) = Some u"
    and t: "t = s\<lparr>px_serve := u, px_conns := conns_after e u s,
      px_ops := px_ops s @ new_ops (sv_ops (px_serve s)) (sv_ops u)\<rparr>"
    using step by (auto split: if_splits option.splits)
  have sinv: "serve_inv cfg u"
    using serve.inv_next [of cfg "px_serve s" e u] inv st room by (simp add: proxy_inv_def roomy_step_def)
  have match: "tasks_match (sv_tasks (px_serve s)) (px_conns s)"
    and conns: "\<forall>(p, c)\<in>set (px_conns s). conn_inv cfg p c \<and> (cn_token c \<longrightarrow> px_force s)"
    and acc: "accounts cfg s"
    using inv by (simp_all add: proxy_inv_def)
  have len: "length (sv_tasks (px_serve s)) = length (px_conns s)"
    using match by (auto simp: tasks_match_def dest: list_all2_lengthD)
  note tasks = serve_step_tasks [OF st]
  show ?thesis
  proof (cases "(\<forall>i b. e \<noteq> Joined i b) \<and> conns_after e u s = px_conns s \<and> sv_ops u = sv_ops (px_serve s)")
    case True
    then have "tasks_match (sv_tasks u) (px_conns s)"
      using tasks match allowed len
      by (cases e) (auto simp: tasks_match_def list_all2_conv_all_nth nth_list_update serve_allowed_def
          conns_after_def)
    then show ?thesis
      using True sinv conns acc by (simp add: proxy_inv_def t accounts_def)
  next
    case False
    show ?thesis
    proof (cases e)
      case (Accepted p)
      show ?thesis
      proof (cases "sv_tasks u = sv_tasks (px_serve s)")
        case True
        then obtain r where ops: "sv_ops u = sv_ops (px_serve s) @ [Inc ConnectionsRejected [cfg_name cfg, r]]"
          using tasks Accepted by auto
        then show ?thesis
          using True Accepted sinv match conns acc
          by (simp add: proxy_inv_def t accounts_def conns_after_def outcomes_def close_reasons_def Let_def)
      next
        case False
        then obtain i g where ts: "sv_tasks u = sv_tasks (px_serve s) @ [Running i p g]"
          and ops: "sv_ops u = sv_ops (px_serve s) @ [Inc ConnectionsTotal [cfg_name cfg, ''tcp'']]"
          using tasks Accepted by auto
        have cs: "conns_after e u s = px_conns s @ [(p, conn_start\<lparr>cn_token := px_force s\<rparr>)]"
          using ts Accepted by (simp add: conns_after_def)
        have "tasks_match (sv_tasks u) (conns_after e u s)"
          using match len by (simp add: tasks_match_def ts cs list_all2_append)
        moreover have "outcomes nm [Inc ConnectionsTotal ls] = 0" for nm ls
          by (simp add: outcomes_def close_reasons_def)
        ultimately show ?thesis
          using sinv conns acc
          by (auto simp: proxy_inv_def t cs ops accounts_def start_counts Let_def)
      qed
    next
      case (Joined i b)
      then have i: "i < length (px_conns s)" and ended: "sv_tasks (px_serve s) ! i = Ended"
        and ts: "sv_tasks u = take i (sv_tasks (px_serve s)) @ drop (Suc i) (sv_tasks (px_serve s))"
        and ops: "sv_ops u = sv_ops (px_serve s)"
        and cs: "conns_after e u s = take i (px_conns s) @ drop (Suc i) (px_conns s)"
        using tasks len by (simp_all add: conns_after_def)
      have "is_over (snd (px_conns s ! i))"
        using match i ended len by (auto simp: tasks_match_def list_all2_conv_all_nth)
      then have "total open_conn (conns_after e u s) = total open_conn (px_conns s)"
          "total relaying (conns_after e u s) = total relaying (px_conns s)"
        using total_remove [OF i, of open_conn] total_remove [OF i, of relaying] over_counts
        by (simp_all add: cs)
      moreover have "set (conns_after e u s) \<subseteq> set (px_conns s)"
        by (auto simp: cs dest: in_set_takeD in_set_dropD)
      ultimately show ?thesis
        using sinv conns acc tasks_match_remove [OF match, of i] i len
        by (auto simp: proxy_inv_def t ops ts accounts_def cs simp del: total_simps(3))
    qed (use False tasks in \<open>auto simp: conns_after_def\<close>)
  qed
qed

lemma conn_conns_inv:
  assumes inv: "proxy_inv cfg s" and step: "proxy_step cfg (Conn i e) s = Some t"
  shows "proxy_inv cfg t"
proof -
  obtain p c c' where i: "i < length (px_conns s)" and pc: "px_conns s ! i = (p, c)"
    and tok: "e = TokenReaches \<Longrightarrow> px_force s" and st: "conn_step cfg p e c = Some c'"
    and t: "t = s\<lparr>px_conns := (px_conns s)[i := (p, c')],
      px_ops := px_ops s @ new_ops (cn_ops c) (cn_ops c')\<rparr>"
    using step by (auto split: if_splits option.splits prod.splits)
  have mem: "(p, c) \<in> set (px_conns s)" using nth_mem [OF i] pc by simp
  then have c: "conn_inv cfg p c" "cn_token c \<Longrightarrow> px_force s"
    using inv by (auto simp: proxy_inv_def)
  have bal: "balanced (cfg_name cfg) c (new_ops (cn_ops c) (cn_ops c')) c'"
    using conn_step_balance [OF c(1) st] .
  have tots: "total f (px_conns t) + f c = total f (px_conns s) + f c'" for f
    using total_update [OF i, of f p c'] by (simp add: t pc)
  have "tasks_match (sv_tasks (px_serve s)) (px_conns t)"
    using inv i bal pc by (auto simp: proxy_inv_def t balanced_def intro: tasks_match_update)
  moreover have "conn_inv cfg q b \<and> (cn_token b \<longrightarrow> px_force s)" if "(q, b) \<in> set (px_conns t)" for q b
  proof -
    have "(q, b) = (p, c') \<or> (q, b) \<in> set (px_conns s)"
      using that set_update_subset_insert [of "px_conns s" i "(p, c')"] by (auto simp: t)
    then show ?thesis
    proof
      assume "(q, b) = (p, c')"
      then show ?thesis
        using conn.inv_next [OF c(1) st] conn_step_token [OF st] c(2) tok by auto
    qed (use inv in \<open>auto simp: proxy_inv_def\<close>)
  qed
  moreover have "accounts cfg t"
  proof -
    let ?new = "new_ops (cn_ops c) (cn_ops c')"
    have g: "gauge Active [cfg_name cfg] x ?new + int (relaying c) = x + int (relaying c')" for x
      using bal by (simp add: balanced_def)
    have o: "outcomes (cfg_name cfg) ?new + open_conn c' = open_conn c \<or>
        px_force s \<and> outcomes (cfg_name cfg) ?new = 0 \<and> open_conn c' \<le> open_conn c"
      using bal c(2) by (auto simp: balanced_def)
    have n: "counted ConnectionsTotal ls ?new = 0" for ls
      using bal by (simp add: balanced_def)
    show ?thesis
      using inv g [of "int (total relaying (px_conns s))"] o n tots [of relaying] tots [of open_conn]
      by (auto simp: proxy_inv_def accounts_def Let_def t)
  qed
  ultimately show ?thesis using inv by (auto simp: proxy_inv_def t)
qed

definition proxy_init :: "ProxyConfig \<Rightarrow> proxy_sys \<Rightarrow> bool" where
  "proxy_init cfg s \<longleftrightarrow> (\<exists>conn_id. s = proxy_start cfg conn_id)"

lemma proxy_step_inv:
  assumes inv: "proxy_inv cfg s" and step: "roomy_proxy_step cfg e s = Some t"
  shows "proxy_inv cfg t"
proof -
  have room: "task_room cfg (px_serve s)" and st: "proxy_step cfg e s = Some t"
    using step by (simp_all add: roomy_proxy_step_def split: if_splits)
  show ?thesis
  proof (cases e)
    case (Serve se)
    then show ?thesis using serve_conns_inv [OF inv room] st by blast
  next
    case (Conn i ce)
    then show ?thesis using conn_conns_inv [OF inv] st by blast
  next
    case ForceFires
    then show ?thesis using inv st by (auto simp: proxy_inv_def accounts_def Let_def split: if_splits)
  qed
qed

text \<open>Seen through its loop, the proxy is the listener of \<open>Tcp_Serve\<close>.\<close>

interpretation proxy: refining_system "proxy_init cfg" "roomy_proxy_step cfg" "proxy_inv cfg"
    "serve_init cfg" "roomy_step cfg" px_serve for cfg
proof unfold_locales
  show "proxy_inv cfg s" if start: "proxy_init cfg s" for s
  proof -
    obtain i where "s = proxy_start cfg i" using start by (auto simp: proxy_init_def)
    moreover have "serve_inv cfg (serve_start cfg i)"
      by (rule serve.inv_start) (auto simp: serve_init_def)
    ultimately show ?thesis
      by (simp add: proxy_inv_def proxy_start_def serve_start_def accounts_def tasks_match_def)
  qed
  show "proxy_inv cfg t" if "proxy_inv cfg s" "roomy_proxy_step cfg e s = Some t" for s e t
    using that by (rule proxy_step_inv)
  show "serve_init cfg (px_serve s)" if "proxy_init cfg s" for s
    using that by (auto simp: proxy_init_def serve_init_def proxy_start_def)
  show "\<exists>fs. run (roomy_step cfg) fs (px_serve s) = Some (px_serve t)"
    if "proxy_inv cfg s" and step: "roomy_proxy_step cfg e s = Some t" for s e t
  proof (cases e)
    case (Serve se)
    then show ?thesis
      using step by (intro exI [of _ "[se]"])
        (auto simp: roomy_proxy_step_def roomy_step_def split: if_splits option.splits)
  qed (use step in \<open>auto simp: roomy_proxy_step_def intro!: exI [of _ "[]"]
      split: if_splits option.splits prod.splits\<close>)
qed

section \<open>The end of a proxy\<close>

text \<open>The moves that wait for no peer: those of the loop but accepting, and those of the tasks.\<close>

fun own_move :: "proxy_event \<Rightarrow> bool" where
  "own_move (Serve e) =
     (case e of
        PollStop \<Rightarrow> True | NothingReady \<Rightarrow> True | BackedOff \<Rightarrow> True | TaskEnds i \<Rightarrow> True
      | Joined i b \<Rightarrow> True | JoinedAll \<Rightarrow> True | _ \<Rightarrow> False)"
| "own_move (Conn i e) = (own_conn e \<or> e = TokenReaches)"
| "own_move ForceFires = False"

text \<open>
  The proxy can end on its own: it was told to stop, and every connection is over or the force token will
  end it.
\<close>

definition ending :: "ProxyConfig \<Rightarrow> proxy_sys \<Rightarrow> bool" where
  "ending cfg s \<longleftrightarrow>
     sv_stop (px_serve s) \<and> task_room cfg (px_serve s) \<and>
     (px_force s \<or> list_all (\<lambda>pc. is_over (snd pc)) (px_conns s))"

definition task_rank :: "conn \<Rightarrow> nat" where
  "task_rank c = conn_rank c + (if cn_token c \<or> is_over c then 0 else 1)"

definition phase_rank :: "serve_phase \<Rightarrow> nat" where
  "phase_rank ph =
     (case ph of AtSelect \<Rightarrow> 2 | Armed \<Rightarrow> 3 | BackingOff \<Rightarrow> 3 | Draining \<Rightarrow> 1 | Returned \<Rightarrow> 0)"

definition shutdown_rank :: "proxy_sys \<Rightarrow> nat" where
  "shutdown_rank s =
     phase_rank (sv_phase (px_serve s)) + length (sv_tasks (px_serve s)) +
     size (live_ips (sv_tasks (px_serve s))) + total task_rank (px_conns s)"

lemma total_bound:
  "(\<And>pc. pc \<in> set cs \<Longrightarrow> f (snd pc) \<le> b) \<Longrightarrow> total f cs \<le> length cs * b"
  by (induction cs) (auto intro: add_mono)

lemma shutdown_rank_bound:
  assumes "proxy_inv cfg s"
  shows "shutdown_rank s \<le> 3 + length (px_conns s) * (2 * BUF_SIZE + 12)"
proof -
  have "task_rank (snd pc) \<le> 2 * BUF_SIZE + 10" if "pc \<in> set (px_conns s)" for pc
    using assms that conn_rank_bound [of cfg "fst pc" "snd pc"]
    by (auto simp: proxy_inv_def task_rank_def)
  then have "total task_rank (px_conns s) \<le> length (px_conns s) * (2 * BUF_SIZE + 10)"
    by (rule total_bound)
  moreover have "length (sv_tasks (px_serve s)) = length (px_conns s)"
    using assms by (auto simp: proxy_inv_def tasks_match_def dest: list_all2_lengthD)
  moreover have "phase_rank (sv_phase (px_serve s)) \<le> 3"
    by (simp add: phase_rank_def split: serve_phase.split)
  ultimately show ?thesis
    using size_live_ips [of "sv_tasks (px_serve s)"]
    by (simp add: shutdown_rank_def algebra_simps)
qed

text \<open>A task that is not over: the token reaches it, or it moves on its own.\<close>

lemma ending_conn_move:
  assumes inv: "proxy_inv cfg s" and live: "ending cfg s" and i: "i < length (px_conns s)"
    and open': "\<not> is_over (snd (px_conns s ! i))"
  shows "\<exists>e t. own_move e \<and> roomy_proxy_step cfg e s = Some t \<and> ending cfg t \<and>
    shutdown_rank t < shutdown_rank s"
proof -
  have force: "px_force s"
    using live open' i by (auto simp: ending_def list_all_length)
  obtain p c where pc: "px_conns s ! i = (p, c)" by fastforce
  then have c: "conn_inv cfg p c" "\<not> is_over c"
    using inv nth_mem [OF i] open' by (auto simp: proxy_inv_def)
  obtain e c' where e: "own_conn e \<or> e = TokenReaches" "conn_step cfg p e c = Some c'"
      "task_rank c' < task_rank c"
  proof (cases "cn_token c")
    case True
    then obtain e c' where "own_conn e" "conn_step cfg p e c = Some c'" "cn_token c'" "conn_rank c' < conn_rank c"
      using conn_close.progress [OF c(1)] c(2) by blast
    then show thesis using that [of e c'] True by (simp add: task_rank_def)
  next
    case False
    let ?c = "c\<lparr>cn_token := True,
      cn_phase := (case cn_phase c of InRelay r \<Rightarrow> InRelay (r\<lparr>r_shutdown := True\<rparr>) | ph \<Rightarrow> ph)\<rparr>"
    have "conn_rank ?c \<le> conn_rank c"
      by (cases "cn_phase c") (simp_all add: conn_rank_def close_rank_def relay_rank_def)
    then show thesis using that [of TokenReaches ?c] False c(2) by (simp add: task_rank_def)
  qed
  let ?t = "s\<lparr>px_conns := (px_conns s)[i := (p, c')],
    px_ops := px_ops s @ new_ops (cn_ops c) (cn_ops c')\<rparr>"
  have "shutdown_rank ?t < shutdown_rank s"
    using total_update [OF i, of task_rank p c'] pc e(3) by (simp add: shutdown_rank_def)
  then show ?thesis
    using e live i pc force
    by (intro exI [of _ "Conn i e"] exI [of _ ?t]) (auto simp: roomy_proxy_step_def ending_def)
qed

text \<open>The loop's own moves.\<close>

lemma ending_serve_move:
  assumes live: "ending cfg s" and own: "own_move (Serve e)" and allowed: "serve_allowed e s"
    and st: "serve_step cfg e (px_serve s) = Some u"
    and less: "phase_rank (sv_phase u) + length (sv_tasks u) + size (live_ips (sv_tasks u)) +
      total task_rank (conns_after e u s) < shutdown_rank s"
    and stay: "sv_stop u" "length (sv_tasks u) \<le> length (sv_tasks (px_serve s))"
      "set (conns_after e u s) \<subseteq> set (px_conns s)"
  shows "\<exists>e t. own_move e \<and> roomy_proxy_step cfg e s = Some t \<and> ending cfg t \<and>
    shutdown_rank t < shutdown_rank s"
  using assms
  by (intro exI [of _ "Serve e"])
    (auto simp: roomy_proxy_step_def ending_def shutdown_rank_def task_room_def list_all_iff)

interpretation proxy_shutdown: progress_system "proxy_init cfg" "roomy_proxy_step cfg" "proxy_inv cfg"
    "ending cfg" "\<lambda>s. sv_phase (px_serve s) = Returned" own_move shutdown_rank for cfg
proof unfold_locales
  fix s
  assume inv: "proxy_inv cfg s" and live: "ending cfg s" and run: "sv_phase (px_serve s) \<noteq> Returned"
  have stop: "sv_stop (px_serve s)" using live by (simp add: ending_def)
  have match: "tasks_match (sv_tasks (px_serve s)) (px_conns s)" using inv by (simp add: proxy_inv_def)
  show "\<exists>e t. own_move e \<and> roomy_proxy_step cfg e s = Some t \<and> ending cfg t \<and>
      shutdown_rank t < shutdown_rank s"
  proof (cases "sv_phase (px_serve s)")
    case AtSelect
    then show ?thesis
      using stop by (intro ending_serve_move [OF live, where e = PollStop and
          u = "px_serve s\<lparr>sv_phase := Draining, sv_log := sv_log (px_serve s) @ [LogShuttingDown]\<rparr>"])
        (auto simp: serve_allowed_def conns_after_def shutdown_rank_def phase_rank_def)
  next
    case Armed
    then show ?thesis
      using stop by (intro ending_serve_move [OF live, where e = NothingReady and
          u = "px_serve s\<lparr>sv_phase := AtSelect\<rparr>"])
        (auto simp: serve_allowed_def conns_after_def shutdown_rank_def phase_rank_def)
  next
    case BackingOff
    then show ?thesis
      using stop by (intro ending_serve_move [OF live, where e = BackedOff and
          u = "px_serve s\<lparr>sv_phase := AtSelect\<rparr>"])
        (auto simp: serve_allowed_def conns_after_def shutdown_rank_def phase_rank_def)
  next
    case Draining
    show ?thesis
    proof (cases "sv_tasks (px_serve s)")
      case Nil
      then show ?thesis
        using Draining stop by (intro ending_serve_move [OF live, where e = JoinedAll and
            u = "px_serve s\<lparr>sv_phase := Returned\<rparr>"])
          (auto simp: serve_allowed_def conns_after_def shutdown_rank_def phase_rank_def)
    next
      case (Cons task ts)
      then obtain pc cs where cs: "px_conns s = pc # cs" "task = Ended \<longrightarrow> is_over (snd pc)"
        using match by (auto simp: tasks_match_def list_all2_Cons1)
      show ?thesis
      proof (cases "is_over (snd pc)")
        case False
        then show ?thesis using ending_conn_move [OF inv live, of 0] cs by simp
      next
        case over: True
        show ?thesis
        proof (cases task)
          case (Running j p g)
          then show ?thesis
            using Cons cs over Draining stop
            by (intro ending_serve_move [OF live, where e = "TaskEnds 0" and
              u = "px_serve s\<lparr>sv_tasks := Ended # ts, sv_limits := guard_drop g (sv_limits (px_serve s))\<rparr>"])
              (auto simp: serve_allowed_def conns_after_def shutdown_rank_def)
        next
          case Ended
          then show ?thesis
            using Cons cs over Draining stop
            by (intro ending_serve_move [OF live, where e = "Joined 0 False" and
              u = "join_task 0 False (px_serve s)"])
              (auto simp: serve_allowed_def conns_after_def shutdown_rank_def join_task_def)
        qed
      qed
    qed
  qed (use run in simp)
qed

section \<open>One token\<close>

text \<open>\<open>run\<close> and \<open>serve\<close> pass their one token as both: it stops and forces at once.\<close>

definition tcp_run_step :: "ProxyConfig \<Rightarrow> proxy_event \<Rightarrow> proxy_sys \<Rightarrow> proxy_sys option" where
  "tcp_run_step cfg e s =
     (case e of
        Serve StopFires \<Rightarrow> None
      | ForceFires \<Rightarrow>
          if px_force s then None
          else Some (s\<lparr>px_serve := px_serve s\<lparr>sv_stop := True\<rparr>, px_force := True\<rparr>)
      | _ \<Rightarrow> proxy_step cfg e s)"

lemma proxy_tokens_kept:
  assumes "proxy_step cfg e s = Some t" and "e \<noteq> Serve StopFires" and "e \<noteq> ForceFires"
  shows "sv_stop (px_serve t) = sv_stop (px_serve s) \<and> px_force t = px_force s"
proof -
  have "sv_stop v = sv_stop u" if "serve_step cfg se u = Some v" "se \<noteq> StopFires" for se u v
    using that by (cases se) (auto simp: accept_conn_def join_task_def split: if_splits conn_task.splits
        serve_phase.splits prod.splits sum.splits)
  then show ?thesis
    using assms by (cases e) (auto split: if_splits option.splits prod.splits)
qed

text \<open>So whatever holds of every run with two tokens holds of the runs of \<open>run\<close> and \<open>serve\<close>.\<close>

lemma tcp_one_token_run:
  "sv_stop (px_serve s) = px_force s \<Longrightarrow> run (tcp_run_step cfg) es s = Some t \<Longrightarrow>
     \<exists>fs. run (proxy_step cfg) fs s = Some t"
proof (induction es arbitrary: s)
  case Nil
  then show ?case by (intro exI [of _ "[]"]) simp
next
  case (Cons e es)
  obtain u where u: "tcp_run_step cfg e s = Some u" "run (tcp_run_step cfg) es u = Some t"
    using Cons.prems(2) by (auto split: option.splits)
  show ?case
  proof (cases "e = ForceFires")
    case True
    then have f: "\<not> px_force s" and v: "u = s\<lparr>px_serve := px_serve s\<lparr>sv_stop := True\<rparr>, px_force := True\<rparr>"
      using u(1) by (auto simp: tcp_run_step_def split: if_splits)
    then obtain fs where "run (proxy_step cfg) fs u = Some t"
      using Cons.IH [of u] u(2) by auto
    then show ?thesis
      using f v Cons.prems(1)
      by (intro exI [of _ "Serve StopFires # ForceFires # fs"]) (simp add: conns_after_def serve_allowed_def new_ops_def)
  next
    case False
    then have st: "proxy_step cfg e s = Some u" and ne: "e \<noteq> Serve StopFires"
      using u(1) by (auto simp: tcp_run_step_def simp del: proxy_step.simps
          split: proxy_event.splits serve_event.splits)
    then obtain fs where "run (proxy_step cfg) fs u = Some t"
      using Cons.IH [of u] u(2) Cons.prems(1) proxy_tokens_kept [OF st ne False] by auto
    then show ?thesis using st by (intro exI [of _ "e # fs"]) simp
  qed
qed

section \<open>Properties\<close>

text \<open>
  C4: The counters of a whole TCP proxy agree with its connections, at every moment and in every
  interleaving of the accept loop, the connection tasks, their relays and the tokens: the active gauge
  is the number of connections being relayed, and every connection counted as accepted is still open
  or was counted once as failed, timed out or closed; only a forced shutdown lets a connection end
  uncounted. At most the configured number of connections is in progress.
\<close>

theorem proxy_counters_agree:
  assumes "reach (proxy_init cfg) (roomy_proxy_step cfg) s"
  shows "gauge Active [cfg_name cfg] 0 (px_ops s) = int (total relaying (px_conns s)) \<and>
    outcomes (cfg_name cfg) (px_ops s) + total open_conn (px_conns s) \<le>
      counted ConnectionsTotal [cfg_name cfg, ''tcp''] (px_ops s) \<and>
    (\<not> px_force s \<longrightarrow>
      counted ConnectionsTotal [cfg_name cfg, ''tcp''] (px_ops s) =
        outcomes (cfg_name cfg) (px_ops s) + total open_conn (px_conns s)) \<and>
    (max_connections cfg = 0 \<or> total open_conn (px_conns s) \<le> unat (max_connections cfg))"
proof -
  note inv = proxy.inv_reachable [OF assms]
  have match: "tasks_match (sv_tasks (px_serve s)) (px_conns s)" and acc: "accounts cfg s"
    using inv by (simp_all add: proxy_inv_def)
  have "total open_conn cs \<le> size (live_ips ts)" if "tasks_match ts cs" for ts cs
    using that unfolding tasks_match_def
  proof (induction rule: list_all2_induct)
    case (Cons t ts pc cs)
    have "open_conn (snd pc) \<le> 1" by (simp add: open_conn_def split: conn_phase.split)
    then show ?case using Cons over_counts [of "snd pc"] by (cases t) auto
  qed simp
  from this [OF match] have "max_connections cfg = 0 \<or> total open_conn (px_conns s) \<le> unat (max_connections cfg)"
    using inv by (auto simp: proxy_inv_def serve_inv_def limiter_ok_def within_caps_def)
  then show ?thesis using acc by (simp add: accounts_def Let_def)
qed

text \<open>
  C10: No peer can hold up a forced shutdown: from every reachable state of a whole TCP proxy whose two
  tokens are cancelled, moves of the proxy's own tasks alone (no data, no end of stream, no new
  connection) lead to the return of the listener with no connection left, and with \<open>n\<close> connections
  at most \<open>3 + n * (2 * BUF_SIZE + 12)\<close> of them.
\<close>

theorem forced_shutdown_completes:
  assumes "reach (proxy_init cfg) (roomy_proxy_step cfg) s"
    and "sv_stop (px_serve s)" and "px_force s" and "task_room cfg (px_serve s)"
  shows "\<exists>es t. run (roomy_proxy_step cfg) es s = Some t \<and> list_all own_move es \<and>
    length es \<le> 3 + length (px_conns s) * (2 * BUF_SIZE + 12) \<and>
    sv_phase (px_serve t) = Returned \<and> px_conns t = []"
proof -
  note inv = proxy.inv_reachable [OF assms(1)]
  obtain es t where t: "run (roomy_proxy_step cfg) es s = Some t" "sv_phase (px_serve t) = Returned"
      "list_all own_move es" "length es \<le> shutdown_rank s"
    using proxy_shutdown.completes [OF inv] assms(2-4) by (auto simp: ending_def)
  have "proxy_inv cfg t" using proxy.inv_along_run [OF inv t(1)] .
  then have "px_conns t = []"
    using t(2) by (auto simp: proxy_inv_def serve_inv_def tasks_match_def)
  then show ?thesis using t shutdown_rank_bound [OF inv] by (meson order_trans)
qed

section \<open>A proxy with two connections\<close>

text \<open>One connection is refused by the target, another is relayed when the tokens are cancelled.\<close>

definition proxy_events :: "proxy_event list" where
  "proxy_events =
     [Serve PollStop, Serve (Accepted demo_peer), Serve PollStop, Serve (Accepted demo_peer),
      Conn 0 PollToken, Conn 0 (ConnectEnds ConnectError None 3),
      Conn 1 PollToken, Conn 1 (ConnectEnds Connected None 4)]"

definition proxy_now :: proxy_sys where
  "proxy_now = the (run (roomy_proxy_step demo_serve_cfg) proxy_events (proxy_start demo_serve_cfg 1))"

definition proxy_forced :: proxy_sys where
  "proxy_forced = the (run (roomy_proxy_step demo_serve_cfg) [Serve StopFires, ForceFires] proxy_now)"

lemmas proxy_eval = proxy_start_def roomy_proxy_step_def serve_allowed_def conns_after_def conn_start_def
  connect_ends_def begin_relay_def call_metric_def new_ops_def relay_start_def serve_eval

lemma proxy_runs:
  "run (roomy_proxy_step demo_serve_cfg) proxy_events (proxy_start demo_serve_cfg 1) = Some proxy_now"
  "run (roomy_proxy_step demo_serve_cfg) [Serve StopFires, ForceFires] proxy_now = Some proxy_forced"
  "total relaying (px_conns proxy_now) = 1" "total open_conn (px_conns proxy_now) = 1"
  "\<not> px_force proxy_now" "px_force proxy_forced" "sv_stop (px_serve proxy_forced)"
  "length (px_conns proxy_forced) = 2"
  by (simp_all add: proxy_now_def proxy_forced_def proxy_events_def relaying_def open_conn_def proxy_eval)

lemma proxy_reach:
  "reach (proxy_init demo_serve_cfg) (roomy_proxy_step demo_serve_cfg) proxy_now"
  "reach (proxy_init demo_serve_cfg) (roomy_proxy_step demo_serve_cfg) proxy_forced"
proof -
  show 1: "reach (proxy_init demo_serve_cfg) (roomy_proxy_step demo_serve_cfg) proxy_now"
    by (rule run_reach [OF reach_init proxy_runs(1)]) (auto simp: proxy_init_def)
  show "reach (proxy_init demo_serve_cfg) (roomy_proxy_step demo_serve_cfg) proxy_forced"
    by (rule run_reach [OF 1 proxy_runs(2)])
qed

theorem proxy_counters_agree_witness:
  "gauge Active [''n''] 0 (px_ops proxy_now) = 1 \<and>
   counted ConnectionsTotal [''n'', ''tcp''] (px_ops proxy_now) = outcomes ''n'' (px_ops proxy_now) + 1"
proof -
  have "cfg_name demo_serve_cfg = ''n''" by (simp add: demo_serve_cfg_def default_config_def)
  then show ?thesis using proxy_counters_agree [OF proxy_reach(1)] proxy_runs(3-5) by simp
qed

theorem forced_shutdown_completes_witness:
  "\<exists>es t. run (roomy_proxy_step demo_serve_cfg) es proxy_forced = Some t \<and> list_all own_move es \<and>
     sv_phase (px_serve t) = Returned \<and> px_conns t = []"
proof -
  have "task_room demo_serve_cfg (px_serve proxy_forced)"
    by (simp add: task_room_def demo_serve_cfg_def word_less_nat_alt)
  from forced_shutdown_completes [OF proxy_reach(2) proxy_runs(7,6) this] show ?thesis by blast
qed

end
