(* ===== verification/Udp.thy ===== *)
theory Udp
  imports Limits Metrics Tcp_Watchdog Socket_Opts
begin

text \<open>
  The UDP proxy of \<open>src/proxy/udp.rs\<close>: the listener loop, one setup task per new source, the cleanup
  task, and the two relay tasks of a session. They run in any interleaving over the session map, the
  set of pending sources, the limiter and the tokens. A step is one critical section or one poll of
  a task, so what happens between two critical sections of a task is up to the others.
\<close>

section \<open>Sessions\<close>

text \<open>
  A session as its relay tasks see it: the channel from the listener, the activity stamp, the token,
  whether a sender still exists, which of the two tasks run, and the send each of them is in: the
  up task with the datagram it took from the channel, the down task with one from the upstream.
\<close>

definition CHANNEL_CAP :: nat where "CHANNEL_CAP = 256"

record session =
  se_src :: socket_addr
  se_chan :: "u8 list list"
  se_tx_open :: bool
  se_last :: u64
  se_cancelled :: bool
  se_up_runs :: bool
  se_down_runs :: bool
  se_up_sends :: "u8 list option"
  se_down_sends :: bool

definition new_session :: "socket_addr \<Rightarrow> u64 \<Rightarrow> session" where
  "new_session src now =
     \<lparr>se_src = src, se_chan = [], se_tx_open = True, se_last = now, se_cancelled = False,
      se_up_runs = True, se_down_runs = True, se_up_sends = None, se_down_sends = False\<rparr>"

text \<open>\<open>tx.try_send\<close>: fails on a full channel or when the receiving task is gone.\<close>

definition try_send :: "u8 list \<Rightarrow> session \<Rightarrow> session" where
  "try_send d se =
     (if se_up_runs se \<and> length (se_chan se) < CHANNEL_CAP
      then se\<lparr>se_chan := se_chan se @ [d]\<rparr> else se)"

section \<open>State\<close>

text \<open>
  The listener between two awaits or critical sections: at the top of the loop, in the \<open>select!\<close> after
  the force token was found not cancelled, with a datagram before the lookup of its session,
  after a lookup that found none, with the source marked pending, between the two reads of the
  drain check, or returned.
\<close>

datatype listener =
    LSelect
  | LReady
  | LGot socket_addr "u8 list"
  | LMissed socket_addr "u8 list"
  | LMarked socket_addr "u8 list"
  | LDrainCheck bool
  | LReturned

text \<open>
  A setup task: inside \<open>open_session\<close> with the slot, with an open session, past the check of the
  force token, with the first datagram queued, or about to end with only the pending mark
  left.
\<close>

datatype setup_phase =
    Opening guard "u8 list"
  | Opened nat guard "u8 list"
  | Checked nat guard "u8 list"
  | Queued nat guard
  | Leaving

text \<open>
  The map holds for a source the session (its index in the pool of all sessions ever opened) and the
  limiter's guard. The pool is the tasks' side of a session, which outlives its map entry.
\<close>

record udp_sys =
  ud_listener :: listener
  ud_draining :: bool
  ud_stop :: bool
  ud_force :: bool
  ud_cleanup_runs :: bool
  ud_map :: "(socket_addr \<times> nat \<times> guard) list"
  ud_pending :: "socket_addr set"
  ud_setups :: "(socket_addr \<times> setup_phase) list"
  ud_pool :: "session list"
  ud_limits :: conn_limits
  ud_ops :: "metric_op list"
  ud_warned :: "limit_warning list"
  ud_log :: "(ip_addr \<times> u32 \<times> string) list"

text \<open>\<open>ud_log\<close> are the rejection lines of the listener, \<open>ud_warned\<close> the warnings of the limiter.\<close>

definition udp_start :: "ProxyConfig \<Rightarrow> udp_sys" where
  "udp_start cfg =
     \<lparr>ud_listener = LSelect, ud_draining = False, ud_stop = False, ud_force = False,
      ud_cleanup_runs = True, ud_map = [], ud_pending = {}, ud_setups = [], ud_pool = [],
      ud_limits = new_limits (max_connections cfg) (cfg_max_per_ip cfg), ud_ops = [],
      ud_warned = [], ud_log = []\<rparr>"

section \<open>The map and the pool\<close>

definition del_key :: "socket_addr \<Rightarrow> (socket_addr \<times> 'a) list \<Rightarrow> (socket_addr \<times> 'a) list" where
  "del_key k m = filter (\<lambda>e. fst e \<noteq> k) m"

definition upd_session :: "nat \<Rightarrow> (session \<Rightarrow> session) \<Rightarrow> session list \<Rightarrow> session list" where
  "upd_session i f pool = (if i < length pool then pool[i := f (pool ! i)] else pool)"

text \<open>Dropping a \<open>Session\<close>: the slot goes back and the sender is gone.\<close>

definition drop_session :: "nat \<Rightarrow> guard \<Rightarrow> udp_sys \<Rightarrow> udp_sys" where
  "drop_session i g s =
     s\<lparr>ud_pool := upd_session i (\<lambda>se. se\<lparr>se_tx_open := False\<rparr>) (ud_pool s),
       ud_limits := guard_drop g (ud_limits s)\<rparr>"

definition session_cancelled :: "udp_sys \<Rightarrow> nat \<Rightarrow> bool" where
  "session_cancelled s i = se_cancelled (ud_pool s ! i)"

definition set_active :: "ProxyConfig \<Rightarrow> udp_sys \<Rightarrow> metric_op" where
  "set_active cfg s = Set Active [cfg_name cfg] (int (length (ud_map s)))"

definition emit :: "metric_op list \<Rightarrow> udp_sys \<Rightarrow> udp_sys" where
  "emit ops s = s\<lparr>ud_ops := ud_ops s @ ops\<rparr>"

text \<open>The \<open>Drop\<close> of a \<open>PendingGuard\<close>, on every way out of a setup.\<close>

definition drop_pending :: "socket_addr \<Rightarrow> udp_sys \<Rightarrow> udp_sys" where
  [simp]: "drop_pending src s = s\<lparr>ud_pending := ud_pending s - {src}\<rparr>"

section \<open>The listener\<close>

text \<open>
  The fast path, one critical section on the map: a dead session is evicted, a live one gets the
  datagram, an unknown source goes on to the slow path.
\<close>

definition lookup_session :: "ProxyConfig \<Rightarrow> u64 \<Rightarrow> socket_addr \<Rightarrow> u8 list \<Rightarrow> udp_sys \<Rightarrow> udp_sys" where
  "lookup_session cfg now src d s =
     (case map_of (ud_map s) src of
        Some (i, g) \<Rightarrow>
          if session_cancelled s i then
            (let s1 = drop_session i g (s\<lparr>ud_map := del_key src (ud_map s)\<rparr>) in
             emit [Inc ConnectionsClosed [cfg_name cfg, ''error''], set_active cfg s1] s1
               \<lparr>ud_listener := LMissed src d\<rparr>)
          else
            s\<lparr>ud_pool := upd_session i (\<lambda>se. try_send d (se\<lparr>se_last := now\<rparr>)) (ud_pool s),
              ud_listener := LSelect\<rparr>
      | None \<Rightarrow> s\<lparr>ud_listener := LMissed src d\<rparr>)"

text \<open>A draining listener and a source with a setup in flight drop the datagram.\<close>

definition mark_pending :: "socket_addr \<Rightarrow> u8 list \<Rightarrow> udp_sys \<Rightarrow> udp_sys" where
  "mark_pending src d s =
     (if ud_draining s \<or> src \<in> ud_pending s then s\<lparr>ud_listener := LSelect\<rparr>
      else s\<lparr>ud_pending := insert src (ud_pending s), ud_listener := LMarked src d\<rparr>)"

definition admit_source :: "ProxyConfig \<Rightarrow> socket_addr \<Rightarrow> u8 list \<Rightarrow> udp_sys \<Rightarrow> udp_sys" where
  "admit_source cfg src d s =
     (case try_acquire (sock_ip src) (ud_limits s) of
        (Inl rej, w, l) \<Rightarrow>
          emit [Inc ConnectionsRejected [cfg_name cfg, reject_label rej]]
            ((drop_pending src s)\<lparr>ud_limits := l, ud_warned := ud_warned s @ w,
               ud_log := ud_log s @ [(sock_ip src, reject_limit rej l, reject_label rej)],
               ud_listener := LSelect\<rparr>)
      | (Inr g, w, l) \<Rightarrow>
          s\<lparr>ud_limits := l, ud_warned := ud_warned s @ w, ud_setups := ud_setups s @ [(src, Opening g d)], ud_listener := LSelect\<rparr>)"

text \<open>The branch on the force token: every session is cancelled and counted, the loop ends.\<close>

definition force_close :: "ProxyConfig \<Rightarrow> udp_sys \<Rightarrow> udp_sys" where
  "force_close cfg s =
     emit [IncBy ConnectionsClosed [cfg_name cfg, ''shutdown''] (of_nat (length (ud_map s))),
           Set Active [cfg_name cfg] 0]
       (s\<lparr>ud_pool := fold (\<lambda>(k, i, g). upd_session i (\<lambda>se. se\<lparr>se_cancelled := True\<rparr>))
                      (ud_map s) (ud_pool s),
          ud_listener := LReturned\<rparr>)"

datatype listener_event =
    PollForce
  | NothingHere
  | StopSeen
  | DrainTick
  | DrainDecide
  | RecvError
  | Recvd socket_addr "u8 list"
  | Lookup u64
  | Mark
  | Admit

fun listener_step :: "ProxyConfig \<Rightarrow> listener_event \<Rightarrow> udp_sys \<Rightarrow> udp_sys option" where
  "listener_step cfg PollForce s =
     (if ud_listener s = LSelect then
        Some (if ud_force s then force_close cfg s else s\<lparr>ud_listener := LReady\<rparr>)
      else None)"
| "listener_step cfg NothingHere s =
     (if ud_listener s = LReady then Some (s\<lparr>ud_listener := LSelect\<rparr>) else None)"
| "listener_step cfg StopSeen s =
     (if ud_listener s = LReady \<and> ud_stop s \<and> \<not> ud_draining s
      then Some (s\<lparr>ud_draining := True, ud_listener := LSelect\<rparr>) else None)"
| "listener_step cfg DrainTick s =
     (if ud_listener s = LReady \<and> ud_draining s
      then Some (s\<lparr>ud_listener := LDrainCheck (ud_map s = [])\<rparr>) else None)"
| "listener_step cfg DrainDecide s =
     (case ud_listener s of
        LDrainCheck no_sessions \<Rightarrow>
          Some (s\<lparr>ud_listener := (if no_sessions \<and> ud_pending s = {} then LReturned else LSelect)\<rparr>)
      | _ \<Rightarrow> None)"
| "listener_step cfg RecvError s =
     (if ud_listener s = LReady then Some (s\<lparr>ud_listener := LSelect\<rparr>) else None)"
| "listener_step cfg (Recvd src d) s =
     (if ud_listener s = LReady \<and> length d \<le> 65535
      then Some (s\<lparr>ud_listener := LGot src d\<rparr>) else None)"
| "listener_step cfg (Lookup now) s =
     (case ud_listener s of LGot src d \<Rightarrow> Some (lookup_session cfg now src d s) | _ \<Rightarrow> None)"
| "listener_step cfg Mark s =
     (case ud_listener s of LMissed src d \<Rightarrow> Some (mark_pending src d s) | _ \<Rightarrow> None)"
| "listener_step cfg Admit s =
     (case ud_listener s of LMarked src d \<Rightarrow> Some (admit_source cfg src d s) | _ \<Rightarrow> None)"

section \<open>Setup tasks\<close>

datatype setup_event = SetupOpened u64 | SetupFailed | CheckForce | QueueFirst | InsertSession | SetupEnds

definition set_setup :: "nat \<Rightarrow> setup_phase \<Rightarrow> udp_sys \<Rightarrow> udp_sys" where
  "set_setup n ph s = s\<lparr>ud_setups := (ud_setups s)[n := (fst (ud_setups s ! n), ph)]\<rparr>"

text \<open>The insertion, one critical section on the map: whatever was there for the source is dropped.\<close>

definition insert_session :: "ProxyConfig \<Rightarrow> socket_addr \<Rightarrow> nat \<Rightarrow> guard \<Rightarrow> udp_sys \<Rightarrow> udp_sys" where
  "insert_session cfg src j g s =
     (let s1 = (case map_of (ud_map s) src of
                  Some (i, g') \<Rightarrow> drop_session i g' s
                | None \<Rightarrow> s);
          s2 = s1\<lparr>ud_map := (src, j, g) # del_key src (ud_map s1)\<rparr>
      in emit [Inc ConnectionsTotal [cfg_name cfg, ''udp''], set_active cfg s2] s2)"

fun setup_step :: "ProxyConfig \<Rightarrow> nat \<Rightarrow> setup_event \<Rightarrow> udp_sys \<Rightarrow> udp_sys option" where
  "setup_step cfg n (SetupOpened now) s =
     (case ud_setups s ! n of
        (src, Opening g d) \<Rightarrow>
          Some (set_setup n (Opened (length (ud_pool s)) g d)
                  (s\<lparr>ud_pool := ud_pool s @ [new_session src now]\<rparr>))
      | _ \<Rightarrow> None)"
| "setup_step cfg n SetupFailed s =
     (case ud_setups s ! n of
        (src, Opening g d) \<Rightarrow> Some (set_setup n Leaving (s\<lparr>ud_limits := guard_drop g (ud_limits s)\<rparr>))
      | _ \<Rightarrow> None)"
| "setup_step cfg n CheckForce s =
     (case ud_setups s ! n of
        (src, Opened j g d) \<Rightarrow>
          Some (if ud_force s then
                  set_setup n Leaving (drop_session j g
                    (s\<lparr>ud_pool := upd_session j (\<lambda>se. se\<lparr>se_cancelled := True\<rparr>) (ud_pool s)\<rparr>))
                else set_setup n (Checked j g d) s)
      | _ \<Rightarrow> None)"
| "setup_step cfg n QueueFirst s =
     (case ud_setups s ! n of
        (src, Checked j g d) \<Rightarrow>
          Some (set_setup n (Queued j g) (s\<lparr>ud_pool := upd_session j (try_send d) (ud_pool s)\<rparr>))
      | _ \<Rightarrow> None)"
| "setup_step cfg n InsertSession s =
     (case ud_setups s ! n of
        (src, Queued j g) \<Rightarrow> Some (set_setup n Leaving (insert_session cfg src j g s))
      | _ \<Rightarrow> None)"
| "setup_step cfg n SetupEnds s =
     (case ud_setups s ! n of
        (src, Leaving) \<Rightarrow>
          Some ((drop_pending src s)\<lparr>ud_setups := take n (ud_setups s) @ drop (Suc n) (ud_setups s)\<rparr>)
      | _ \<Rightarrow> None)"

section \<open>The cleanup task\<close>

text \<open>How long it sleeps, over the sessions of the map, and which sessions a sweep evicts.\<close>

definition cleanup_wait :: "u64 \<Rightarrow> u64 \<Rightarrow> session list \<Rightarrow> u64" where
  "cleanup_wait idle_secs now ses =
     (if \<exists>se\<in>set ses. se_cancelled se then 0
      else if 0 < idle_secs then
        (let idle_ms = sat_mul idle_secs 1000;
             until = map (\<lambda>se. sat_sub (sat_add (se_last se) idle_ms) now) ses
         in min (case until of [] \<Rightarrow> 5000 | t # ts \<Rightarrow> fold min ts t) 5000)
      else 5000)"

definition stale :: "u64 \<Rightarrow> u64 \<Rightarrow> session \<Rightarrow> bool" where
  "stale idle_secs now se \<longleftrightarrow>
     0 < idle_secs \<and> sat_mul idle_secs 1000 \<le> sat_sub now (se_last se)"

definition verdict :: "u64 \<Rightarrow> u64 \<Rightarrow> session \<Rightarrow> string option" where
  "verdict idle_secs now se =
     (if se_cancelled se then Some ''error''
      else if stale idle_secs now se then Some ''idle_timeout'' else None)"

fun retain :: "ProxyConfig \<Rightarrow> u64 \<Rightarrow> (socket_addr \<times> nat \<times> guard) list \<Rightarrow> udp_sys \<Rightarrow> udp_sys" where
  "retain cfg now [] s = s"
| "retain cfg now ((k, i, g) # es) s =
     (case verdict (idle_timeout_secs cfg) now (ud_pool s ! i) of
        None \<Rightarrow> retain cfg now es s
      | Some reason \<Rightarrow>
          retain cfg now es
            (emit [Inc ConnectionsClosed [cfg_name cfg, reason]]
              (drop_session i g
                (s\<lparr>ud_map := del_key k (ud_map s),
                   ud_pool := upd_session i (\<lambda>se. se\<lparr>se_cancelled := True\<rparr>) (ud_pool s)\<rparr>))))"

definition sweep :: "ProxyConfig \<Rightarrow> u64 \<Rightarrow> udp_sys \<Rightarrow> udp_sys" where
  "sweep cfg now s =
     (let s1 = retain cfg now (ud_map s) s in emit [set_active cfg s1] s1)"

section \<open>The relay tasks of a session\<close>

text \<open>
  A relay task waits in its \<open>select!\<close> (for the tokens, and the channel or the upstream) or in a send,
  where it looks at no token until the send is over. \<open>UpTake\<close> takes a datagram from the channel,
  \<open>UpSent\<close> is the answer to its send (\<open>Some n\<close> bytes, or a failure); \<open>DownRecv\<close> is a datagram of the
  upstream, \<open>DownSent\<close> the answer to passing it to the client, \<open>DownError\<close> an error of the upstream
  socket. A task that ends cancels the session.
\<close>

datatype session_event =
    UpTake u64
  | UpSent "nat option"
  | UpStops
  | DownRecv u64
  | DownSent "nat option"
  | DownError
  | DownStops

definition up_ends :: "session \<Rightarrow> session" where
  "up_ends se = se\<lparr>se_up_runs := False, se_cancelled := True\<rparr>"

definition down_ends :: "session \<Rightarrow> session" where
  "down_ends se = se\<lparr>se_down_runs := False, se_cancelled := True\<rparr>"

fun session_step ::
    "ProxyConfig \<Rightarrow> bool \<Rightarrow> session_event \<Rightarrow> session \<Rightarrow> (session \<times> metric_op list) option" where
  "session_step cfg force (UpTake now) se =
     (case se_chan se of
        [] \<Rightarrow> None
      | d # ds \<Rightarrow>
          if se_up_runs se \<and> se_up_sends se = None
          then Some (se\<lparr>se_chan := ds, se_last := now, se_up_sends := Some d\<rparr>, []) else None)"
| "session_step cfg force (UpSent r) se =
     (if se_up_runs se \<and> se_up_sends se \<noteq> None then
        (let se1 = se\<lparr>se_up_sends := None\<rparr> in
         case r of
           Some n \<Rightarrow> Some (se1, [IncBy BytesTotal [cfg_name cfg, ''up''] (of_nat n)])
         | None \<Rightarrow> Some (up_ends se1, []))
      else None)"
| "session_step cfg force UpStops se =
     (if se_up_runs se \<and> se_up_sends se = None \<and>
         (force \<or> se_cancelled se \<or> \<not> se_tx_open se \<and> se_chan se = [])
      then Some (up_ends se, []) else None)"
| "session_step cfg force (DownRecv now) se =
     (if se_down_runs se \<and> \<not> se_down_sends se
      then Some (se\<lparr>se_last := now, se_down_sends := True\<rparr>, []) else None)"
| "session_step cfg force (DownSent r) se =
     (if se_down_runs se \<and> se_down_sends se then
        (let se1 = se\<lparr>se_down_sends := False\<rparr> in
         case r of
           Some n \<Rightarrow> Some (se1, [IncBy BytesTotal [cfg_name cfg, ''down''] (of_nat n)])
         | None \<Rightarrow> Some (down_ends se1, []))
      else None)"
| "session_step cfg force DownError se =
     (if se_down_runs se \<and> \<not> se_down_sends se then Some (down_ends se, []) else None)"
| "session_step cfg force DownStops se =
     (if se_down_runs se \<and> \<not> se_down_sends se \<and> (force \<or> se_cancelled se)
      then Some (down_ends se, []) else None)"

section \<open>The whole\<close>

text \<open>
  The listener, the cleanup task and every setup task hold a reference to the map of sessions. When
  the last of them has ended the map is dropped, with the sessions that are still in it: their
  slots go back and their senders are gone, and no metric is touched. The sessions' own tasks go
  on until the up task finds its channel closed and empty (\<open>UpStops\<close>).
\<close>

fun drop_sessions :: "(socket_addr \<times> nat \<times> guard) list \<Rightarrow> udp_sys \<Rightarrow> udp_sys" where
  "drop_sessions [] s = s"
| "drop_sessions ((k, i, g) # es) s =
     drop_sessions es (drop_session i g (s\<lparr>ud_map := del_key k (ud_map s)\<rparr>))"

definition map_unheld :: "udp_sys \<Rightarrow> bool" where
  "map_unheld s \<longleftrightarrow> ud_listener s = LReturned \<and> \<not> ud_cleanup_runs s \<and> ud_setups s = []"

datatype udp_event =
    StopToken
  | ForceToken
  | Listener listener_event
  | Setup nat setup_event
  | Sweep u64
  | CleanupStops
  | MapDropped
  | Relay nat session_event

fun udp_step :: "ProxyConfig \<Rightarrow> udp_event \<Rightarrow> udp_sys \<Rightarrow> udp_sys option" where
  "udp_step cfg StopToken s = (if ud_stop s then None else Some (s\<lparr>ud_stop := True\<rparr>))"
| "udp_step cfg ForceToken s = (if ud_force s then None else Some (s\<lparr>ud_force := True\<rparr>))"
| "udp_step cfg (Listener e) s = listener_step cfg e s"
| "udp_step cfg (Setup n e) s = (if n < length (ud_setups s) then setup_step cfg n e s else None)"
| "udp_step cfg (Sweep now) s = (if ud_cleanup_runs s then Some (sweep cfg now s) else None)"
| "udp_step cfg CleanupStops s =
     (if ud_cleanup_runs s \<and> (ud_force s \<or> ud_listener s = LReturned)
      then Some (s\<lparr>ud_cleanup_runs := False\<rparr>) else None)"
| "udp_step cfg MapDropped s =
     (if map_unheld s \<and> ud_map s \<noteq> [] then Some (drop_sessions (ud_map s) s) else None)"
| "udp_step cfg (Relay i e) s =
     (if i < length (ud_pool s) then
        (case session_step cfg (ud_force s) e (ud_pool s ! i) of
           None \<Rightarrow> None
         | Some (se, ops) \<Rightarrow> Some (emit ops (s\<lparr>ud_pool := (ud_pool s)[i := se]\<rparr>)))
      else None)"

end
