(* ===== verification/Udp_Slots.thy ===== *)
theory Udp_Slots
  imports Udp
begin

text \<open>
  The slots of the UDP proxy: which sessions and setup tasks own a guard, the invariant that the
  limiter accounts for exactly them and the pending set for exactly the setups in flight, its
  preservation by every step of \<open>Udp\<close>, and the refinement of the limiter's own system.
\<close>

section \<open>Slots\<close>

fun setup_guard :: "setup_phase \<Rightarrow> guard option" where
  "setup_guard (Opening g d) = Some g"
| "setup_guard (Opened j g d) = Some g"
| "setup_guard (Checked j g d) = Some g"
| "setup_guard (Queued j g) = Some g"
| "setup_guard Leaving = None"

definition phase_ips :: "setup_phase \<Rightarrow> ip_addr multiset" where
  "phase_ips ph = (case setup_guard ph of Some g \<Rightarrow> {#src_ip g#} | None \<Rightarrow> {#})"

text \<open>The addresses whose slots the map's sessions and the setup tasks own.\<close>

definition map_ips :: "(socket_addr \<times> nat \<times> guard) list \<Rightarrow> ip_addr multiset" where
  "map_ips m = mset (map (\<lambda>(k, i, g). src_ip g) m)"

definition setup_ips :: "(socket_addr \<times> setup_phase) list \<Rightarrow> ip_addr multiset" where
  "setup_ips ss = sum_list (map (\<lambda>(k, ph). phase_ips ph) ss)"

definition held :: "udp_sys \<Rightarrow> ip_addr multiset" where
  "held s = map_ips (ud_map s) + setup_ips (ud_setups s)"

lemma phase_ips_simps [simp]:
  "phase_ips (Opening g d) = {#src_ip g#}" "phase_ips (Opened j g d) = {#src_ip g#}"
  "phase_ips (Checked j g d) = {#src_ip g#}" "phase_ips (Queued j g) = {#src_ip g#}"
  "phase_ips Leaving = {#}"
  by (simp_all add: phase_ips_def)

lemma del_key_absent: "map_of m k = None \<Longrightarrow> del_key k m = m"
  by (induction m) (auto simp: del_key_def split: if_splits)

lemma del_key_absent': "k \<notin> fst ` set m \<Longrightarrow> del_key k m = m"
  by (induction m) (auto simp: del_key_def)

lemma map_ips_Cons [simp]: "map_ips ((k, i, g) # m) = add_mset (src_ip g) (map_ips m)"
  by (simp add: map_ips_def)

lemma map_ips_Nil [simp]: "map_ips [] = {#}"
  by (simp add: map_ips_def)

lemma map_ips_del:
  "distinct (map fst m) \<Longrightarrow> map_of m k = Some (i, g) \<Longrightarrow>
     map_ips m = add_mset (src_ip g) (map_ips (del_key k m))"
proof (induction m)
  case (Cons e m)
  obtain k' i' g' where e: "e = (k', i', g')" by (cases e)
  show ?case
  proof (cases "k' = k")
    case True
    then have "del_key k m = m" using Cons.prems(1) e by (intro del_key_absent') auto
    then show ?thesis using Cons.prems True e by (simp add: del_key_def)
  next
    case False
    then show ?thesis using Cons e by (simp add: del_key_def)
  qed
qed simp

lemma setup_ips_nth:
  assumes "n < length ss" and "ss ! n = (src, ph)"
  shows "setup_ips ss = phase_ips ph + setup_ips (take n ss @ drop (Suc n) ss)"
    and "setup_ips (ss[n := (src, ph')]) = phase_ips ph' + setup_ips (take n ss @ drop (Suc n) ss)"
proof -
  show "setup_ips ss = phase_ips ph + setup_ips (take n ss @ drop (Suc n) ss)"
    using assms by (subst id_take_nth_drop [OF assms(1)]) (simp add: setup_ips_def)
  show "setup_ips (ss[n := (src, ph')]) = phase_ips ph' + setup_ips (take n ss @ drop (Suc n) ss)"
    using assms by (simp add: setup_ips_def upd_conv_take_nth_drop)
qed

section \<open>Invariant\<close>

definition marked :: "listener \<Rightarrow> socket_addr set" where
  "marked l = (case l of LMarked src d \<Rightarrow> {src} | _ \<Rightarrow> {})"

definition setup_sources :: "udp_sys \<Rightarrow> socket_addr list" where
  "setup_sources s = map fst (ud_setups s)"

definition udp_inv :: "ProxyConfig \<Rightarrow> udp_sys \<Rightarrow> bool" where
  "udp_inv cfg s \<longleftrightarrow>
     limiter_ok (ud_limits s) (held s) \<and>
     max_total (ud_limits s) = max_connections cfg \<and> max_per_ip (ud_limits s) = cfg_max_per_ip cfg \<and>
     distinct (map fst (ud_map s)) \<and> (\<forall>(k, i, g)\<in>set (ud_map s). src_ip g = sock_ip k) \<and>
     distinct (setup_sources s) \<and>
     ud_pending s = set (setup_sources s) \<union> marked (ud_listener s) \<and>
     set (setup_sources s) \<inter> marked (ud_listener s) = {} \<and>
     (\<forall>(k, ph)\<in>set (ud_setups s). phase_ips ph \<subseteq># {#sock_ip k#})"

text \<open>The invariant looks at no session and no metric.\<close>

definition same_core :: "udp_sys \<Rightarrow> udp_sys \<Rightarrow> bool" where
  "same_core s t \<longleftrightarrow>
     ud_limits t = ud_limits s \<and> ud_map t = ud_map s \<and> ud_setups t = ud_setups s \<and>
     ud_pending t = ud_pending s \<and> marked (ud_listener t) = marked (ud_listener s)"

lemma same_core_inv: "udp_inv cfg s \<Longrightarrow> same_core s t \<Longrightarrow> udp_inv cfg t"
  by (simp add: udp_inv_def same_core_def held_def setup_sources_def)

lemma emit_core [simp]:
  "ud_limits (emit ops s) = ud_limits s" "ud_map (emit ops s) = ud_map s"
  "ud_setups (emit ops s) = ud_setups s" "ud_pending (emit ops s) = ud_pending s"
  "ud_listener (emit ops s) = ud_listener s" "ud_pool (emit ops s) = ud_pool s"
  "ud_draining (emit ops s) = ud_draining s" "ud_force (emit ops s) = ud_force s"
  "ud_ops (emit ops s) = ud_ops s @ ops" "udp_inv cfg (emit ops s) = udp_inv cfg s"
  by (simp_all add: emit_def udp_inv_def held_def setup_sources_def)

lemma drop_session_core [simp]:
  "ud_limits (drop_session i g s) = guard_drop g (ud_limits s)" "ud_map (drop_session i g s) = ud_map s"
  "ud_setups (drop_session i g s) = ud_setups s" "ud_pending (drop_session i g s) = ud_pending s"
  "ud_listener (drop_session i g s) = ud_listener s" "ud_ops (drop_session i g s) = ud_ops s"
  "ud_draining (drop_session i g s) = ud_draining s" "ud_force (drop_session i g s) = ud_force s"
  by (simp_all add: drop_session_def)

lemma distinct_del_key: "distinct (map fst m) \<Longrightarrow> distinct (map fst (del_key k m))"
  by (induction m) (auto simp: del_key_def)

lemma set_del_key [simp]: "set (del_key k m) = {e \<in> set m. fst e \<noteq> k}"
  by (simp add: del_key_def)

text \<open>Removing one session from the map and giving its slot back.\<close>

lemma evict_held:
  assumes "udp_inv cfg s" and "map_of (ud_map s) k = Some (i, g)"
    and "ud_map t = del_key k (ud_map s)" and "ud_setups t = ud_setups s"
  shows "held s = add_mset (src_ip g) (held t)"
  using assms map_ips_del [of "ud_map s" k i g] by (simp add: held_def udp_inv_def)

lemma evict_inv:
  assumes inv: "udp_inv cfg s" and at: "map_of (ud_map s) k = Some (i, g)"
    and t: "ud_limits t = guard_drop g (ud_limits s)" "ud_map t = del_key k (ud_map s)"
      "ud_setups t = ud_setups s" "ud_pending t = ud_pending s"
      "marked (ud_listener t) = marked (ud_listener s)"
  shows "udp_inv cfg t"
proof -
  have "limiter_ok (ud_limits t) (held t)"
    using inv limiter.release_swap [of "ud_limits s" g "held t"] evict_held [OF inv at t(2,3)]
    by (simp add: udp_inv_def t(1))
  then show ?thesis
    using inv t distinct_del_key [of "ud_map s" k] by (auto simp: udp_inv_def setup_sources_def)
qed

section \<open>Every step keeps the invariant\<close>

lemma lookup_inv:
  assumes inv: "udp_inv cfg s" and ls: "ud_listener s = LGot src d"
  shows "udp_inv cfg (lookup_session cfg now src d s)"
proof (cases "map_of (ud_map s) src")
  case None
  then show ?thesis
    using inv ls by (intro same_core_inv [OF inv]) (simp add: lookup_session_def same_core_def marked_def)
next
  case (Some e)
  obtain i g where e: "e = (i, g)" by (cases e)
  show ?thesis
  proof (cases "session_cancelled s i")
    case True
    show ?thesis
      by (rule evict_inv [OF inv Some [unfolded e]])
        (simp_all add: lookup_session_def Some e True Let_def ls marked_def)
  next
    case False
    then show ?thesis
      using ls Some e
      by (intro same_core_inv [OF inv]) (simp add: lookup_session_def same_core_def marked_def)
  qed
qed

lemma mark_inv:
  assumes inv: "udp_inv cfg s" and ls: "ud_listener s = LMissed src d"
  shows "udp_inv cfg (mark_pending src d s)"
proof (cases "ud_draining s \<or> src \<in> ud_pending s")
  case True
  then show ?thesis
    using ls by (intro same_core_inv [OF inv]) (simp add: mark_pending_def same_core_def marked_def)
next
  case False
  then show ?thesis
    using inv ls by (simp add: mark_pending_def udp_inv_def marked_def held_def setup_sources_def)
qed

text \<open>Room for one more slot: with no cap, fewer than \<open>2 ^ 32\<close> sessions and setups.\<close>

definition slot_room :: "ProxyConfig \<Rightarrow> udp_sys \<Rightarrow> bool" where
  "slot_room cfg s \<longleftrightarrow>
     0 < max_connections cfg \<or> Suc (length (ud_map s) + length (ud_setups s)) < 2 ^ 32"

lemma size_setup_ips: "size (setup_ips ss) \<le> length ss"
proof (induction ss)
  case (Cons e ss)
  obtain k ph where e: "e = (k, ph)" by (cases e)
  have "size (phase_ips ph) \<le> 1" by (simp add: phase_ips_def split: option.split)
  then show ?case using Cons e by (simp add: setup_ips_def)
qed (simp add: setup_ips_def)

lemma slot_room_counter:
  assumes "slot_room cfg s" and "udp_inv cfg s"
  shows "counter_room (ud_limits s) (held s)"
  using assms size_setup_ips [of "ud_setups s"]
  by (auto simp: slot_room_def udp_inv_def counter_room_def held_def map_ips_def)

lemma admit_source_inv:
  assumes inv: "udp_inv cfg s" and room: "slot_room cfg s" and ls: "ud_listener s = LMarked src d"
  shows "udp_inv cfg (admit_source cfg src d s)"
proof -
  obtain r w l where acq: "try_acquire (sock_ip src) (ud_limits s) = (r, w, l)"
    by (cases "try_acquire (sock_ip src) (ud_limits s)")
  have ok: "limiter_ok (ud_limits s) (held s)" using inv by (simp add: udp_inv_def)
  note acc = limiter.acquire_accounts [OF ok slot_room_counter [OF room inv] acq]
  have caps: "max_total l = max_total (ud_limits s) \<and> max_per_ip l = max_per_ip (ud_limits s)"
    using acq admit_slot_max [of "sock_ip src" "ud_limits s"]
    by (cases "sock_ip src" "ud_limits s" rule: try_acquire_cases) auto
  show ?thesis
  proof (cases r)
    case (Inl rej)
    then show ?thesis
      using inv acc acq caps ls
      by (auto simp: admit_source_def udp_inv_def held_def setup_sources_def marked_def)
  next
    case (Inr g)
    have g: "src_ip g = sock_ip src" using limiter.acquire_key acq Inr by blast
    let ?t = "admit_source cfg src d s"
    have "held ?t = add_mset (sock_ip src) (held s)"
      using acq Inr g by (simp add: admit_source_def held_def setup_ips_def)
    then show ?thesis
      using inv acc acq caps ls Inr g
      by (auto simp: admit_source_def udp_inv_def setup_sources_def marked_def)
  qed
qed

lemma listener_step_inv:
  assumes inv: "udp_inv cfg s" and room: "slot_room cfg s" and st: "listener_step cfg e s = Some t"
  shows "udp_inv cfg t"
proof (cases e)
  case (Lookup now)
  then show ?thesis using st lookup_inv [OF inv] by (auto split: listener.splits)
next
  case Mark
  then show ?thesis using st mark_inv [OF inv] by (auto split: listener.splits)
next
  case Admit
  then show ?thesis using st admit_source_inv [OF inv room] by (auto split: listener.splits)
next
  case DrainDecide
  then show ?thesis
    using st by (intro same_core_inv [OF inv]) (auto simp: same_core_def marked_def split: listener.splits if_splits)
qed ((rule same_core_inv [OF inv], (use st in \<open>auto simp: same_core_def marked_def force_close_def
      split: if_splits\<close>) [1])+)

text \<open>A setup task in phase \<open>ph\<close> moves to \<open>ph'\<close>.\<close>

lemma set_setup_inv:
  assumes inv: "udp_inv cfg s" and n: "n < length (ud_setups s)" "ud_setups s ! n = (src, ph)"
    and t: "ud_setups t = (ud_setups s)[n := (src, ph')]" "ud_pending t = ud_pending s"
      "marked (ud_listener t) = marked (ud_listener s)"
    and core: "limiter_ok (ud_limits t) (held t)"
      "max_total (ud_limits t) = max_total (ud_limits s)"
      "max_per_ip (ud_limits t) = max_per_ip (ud_limits s)"
    and map: "distinct (map fst (ud_map t))" "\<forall>(k, i, g)\<in>set (ud_map t). src_ip g = sock_ip k"
    and ph': "phase_ips ph' \<subseteq># phase_ips ph"
  shows "udp_inv cfg t"
proof -
  have srcs: "setup_sources t = setup_sources s"
    using n by (simp add: setup_sources_def t(1) map_update list_update_same_conv)
  have "(src, ph) \<in> set (ud_setups s)" using n by (metis nth_mem)
  then have "phase_ips ph' \<subseteq># {#sock_ip src#}"
    using inv ph' by (auto simp: udp_inv_def dest: subset_mset.order_trans)
  then have "\<forall>(k, p)\<in>set (ud_setups t). phase_ips p \<subseteq># {#sock_ip k#}"
    using inv set_update_subset_insert [of "ud_setups s" n "(src, ph')"]
    by (auto simp: udp_inv_def t(1))
  then show ?thesis
    using inv core map srcs t(2,3) by (simp add: udp_inv_def)
qed

lemma set_setup_core [simp]:
  "ud_limits (set_setup n ph s) = ud_limits s" "ud_map (set_setup n ph s) = ud_map s"
  "ud_pending (set_setup n ph s) = ud_pending s" "ud_listener (set_setup n ph s) = ud_listener s"
  "ud_ops (set_setup n ph s) = ud_ops s"
  "ud_setups (set_setup n ph s) = (ud_setups s)[n := (fst (ud_setups s ! n), ph)]"
  by (simp_all add: set_setup_def)

lemma held_set_setup:
  assumes "n < length (ud_setups s)" and "ud_setups s ! n = (src, ph)"
    and "ud_setups t = (ud_setups s)[n := (src, ph')]" and "ud_map t = ud_map s"
  shows "held t + phase_ips ph = held s + phase_ips ph'"
  using setup_ips_nth [OF assms(1,2)] assms(3,4) by (simp add: held_def)

lemma setup_moves_inv:
  assumes inv: "udp_inv cfg s" and n: "n < length (ud_setups s)" "ud_setups s ! n = (src, ph)"
    and t: "ud_setups t = (ud_setups s)[n := (src, ph')]" "ud_pending t = ud_pending s"
      "ud_listener t = ud_listener s" "ud_map t = ud_map s" "ud_limits t = ud_limits s"
    and ph': "phase_ips ph' = phase_ips ph"
  shows "udp_inv cfg t"
proof (rule set_setup_inv [OF inv n t(1,2)])
  have "held t = held s" using held_set_setup [OF n t(1) t(4)] ph' by simp
  then show "limiter_ok (ud_limits t) (held t)" using inv t(5) by (simp add: udp_inv_def)
qed (use inv t ph' in \<open>simp_all add: udp_inv_def\<close>)

lemma setup_drop_held:
  assumes "n < length (ud_setups s)" and "ud_setups s ! n = (src, ph)" and "setup_guard ph = Some g"
    and "ud_setups t = (ud_setups s)[n := (src, Leaving)]" and "ud_map t = ud_map s"
  shows "held s = add_mset (src_ip g) (held t)"
  using held_set_setup [OF assms(1,2,4,5)] assms(3) by (simp add: phase_ips_def)

lemma setup_drops_inv:
  assumes inv: "udp_inv cfg s" and n: "n < length (ud_setups s)" "ud_setups s ! n = (src, ph)"
    and t: "ud_setups t = (ud_setups s)[n := (src, Leaving)]" "ud_pending t = ud_pending s"
      "ud_listener t = ud_listener s" "ud_map t = ud_map s" "ud_limits t = guard_drop g (ud_limits s)"
    and ph: "setup_guard ph = Some g"
  shows "udp_inv cfg t"
proof (rule set_setup_inv [OF inv n t(1,2)])
  have "held s = add_mset (src_ip g) (held t)"
    by (rule setup_drop_held [OF n ph t(1,4)])
  then show "limiter_ok (ud_limits t) (held t)"
    using inv limiter.release_swap [of "ud_limits s" g "held t"] by (simp add: udp_inv_def t(5))
qed (use inv t ph in \<open>simp_all add: udp_inv_def\<close>)

lemma insert_session_core [simp]:
  "ud_setups (insert_session cfg src j g s) = ud_setups s"
  "ud_pending (insert_session cfg src j g s) = ud_pending s"
  "ud_listener (insert_session cfg src j g s) = ud_listener s"
  "ud_map (insert_session cfg src j g s) = (src, j, g) # del_key src (ud_map s)"
  "ud_limits (insert_session cfg src j g s) =
     (case map_of (ud_map s) src of Some (i, g') \<Rightarrow> guard_drop g' (ud_limits s) | None \<Rightarrow> ud_limits s)"
  by (simp_all add: insert_session_def Let_def split: option.split)

lemma insert_held:
  assumes inv: "udp_inv cfg s" and n: "n < length (ud_setups s)" "ud_setups s ! n = (src, Queued j g)"
  shows "held s = (case map_of (ud_map s) src of
      Some (i, g') \<Rightarrow> add_mset (src_ip g') (held (set_setup n Leaving (insert_session cfg src j g s)))
    | None \<Rightarrow> held (set_setup n Leaving (insert_session cfg src j g s)))"
proof -
  let ?t = "set_setup n Leaving (insert_session cfg src j g s)"
  have held_t: "held ?t + phase_ips (Queued j g) =
      add_mset (src_ip g) (map_ips (del_key src (ud_map s))) + setup_ips (ud_setups s)"
    using setup_ips_nth [OF n] n by (simp add: held_def)
  show ?thesis
  proof (cases "map_of (ud_map s) src")
    case None
    then show ?thesis using held_t by (simp add: held_def [of s] del_key_absent)
  next
    case (Some e)
    obtain i g' where e: "e = (i, g')" by (cases e)
    have "map_ips (ud_map s) = add_mset (src_ip g') (map_ips (del_key src (ud_map s)))"
      using inv Some e by (intro map_ips_del) (simp_all add: udp_inv_def)
    then have "held s = add_mset (src_ip g') (held ?t)"
      using held_t by (simp add: held_def [of s])
    then show ?thesis using Some e by simp
  qed
qed

lemma insert_inv:
  assumes inv: "udp_inv cfg s" and n: "n < length (ud_setups s)" "ud_setups s ! n = (src, Queued j g)"
  shows "udp_inv cfg (set_setup n Leaving (insert_session cfg src j g s))"
proof -
  let ?t = "set_setup n Leaving (insert_session cfg src j g s)"
  have setups: "ud_setups ?t = (ud_setups s)[n := (src, Leaving)]"
    using n by simp
  have "(src, Queued j g) \<in> set (ud_setups s)" using n by (metis nth_mem)
  then have g: "src_ip g = sock_ip src" using inv by (auto simp: udp_inv_def)
  have ok: "limiter_ok (ud_limits ?t) (held ?t)"
  proof (cases "map_of (ud_map s) src")
    case None
    then show ?thesis using insert_held [OF inv n] inv by (simp add: udp_inv_def)
  next
    case (Some e)
    obtain i g' where e: "e = (i, g')" by (cases e)
    then have "held s = add_mset (src_ip g') (held ?t)"
      using insert_held [OF inv n] Some by simp
    then show ?thesis
      using inv limiter.release_swap [of "ud_limits s" g' "held ?t"] Some e
      by (simp add: udp_inv_def)
  qed
  show ?thesis
    by (rule set_setup_inv [OF inv n setups])
      (use inv ok g in \<open>auto simp: udp_inv_def distinct_del_key split: option.split\<close>)
qed

lemma setup_ends_inv:
  assumes inv: "udp_inv cfg s" and n: "n < length (ud_setups s)" "ud_setups s ! n = (src, Leaving)"
  shows "udp_inv cfg (s\<lparr>ud_pending := ud_pending s - {src},
    ud_setups := take n (ud_setups s) @ drop (Suc n) (ud_setups s)\<rparr>)"
proof -
  let ?ss = "take n (ud_setups s) @ drop (Suc n) (ud_setups s)"
  have split: "ud_setups s = take n (ud_setups s) @ (src, Leaving) # drop (Suc n) (ud_setups s)"
    using id_take_nth_drop [OF n(1)] n(2) by simp
  have ips: "setup_ips ?ss = setup_ips (ud_setups s)"
    using setup_ips_nth(1) [OF n] by simp
  have sub: "set ?ss \<subseteq> set (ud_setups s)" by (subst (3) split) auto
  have srcs: "map fst (ud_setups s) = map fst (take n (ud_setups s)) @ src # map fst (drop (Suc n) (ud_setups s))"
    by (subst split) simp
  have d: "distinct (map fst ?ss)" "src \<notin> set (map fst ?ss)"
      "set (map fst (ud_setups s)) = insert src (set (map fst ?ss))"
    using inv srcs by (simp_all add: udp_inv_def setup_sources_def)
  have "ud_pending s - {src} = set (map fst ?ss) \<union> marked (ud_listener s)"
    using inv d by (auto simp: udp_inv_def setup_sources_def)
  moreover have "set (map fst ?ss) \<inter> marked (ud_listener s) = {}"
    using inv d(3) by (auto simp: udp_inv_def setup_sources_def)
  ultimately show ?thesis
    using inv d(1) sub ips unfolding udp_inv_def setup_sources_def held_def by auto
qed

lemma setup_step_inv:
  assumes inv: "udp_inv cfg s" and n: "n < length (ud_setups s)" and st: "setup_step cfg n e s = Some t"
  shows "udp_inv cfg t"
proof -
  obtain src ph where at: "ud_setups s ! n = (src, ph)" by fastforce
  show ?thesis
  proof (cases e)
    case (SetupOpened now)
    then obtain g d where ph: "ph = Opening g d"
      using st at by (cases ph) auto
    show ?thesis
      by (rule setup_moves_inv [OF inv n at, of _ "Opened (length (ud_pool s)) g d"])
        (use st SetupOpened at ph in auto)
  next
    case SetupFailed
    then obtain g d where ph: "ph = Opening g d"
      using st at by (cases ph) auto
    show ?thesis
      by (rule setup_drops_inv [OF inv n at, of _ g]) (use st SetupFailed at ph in auto)
  next
    case CheckForce
    then obtain j g d where ph: "ph = Opened j g d"
      using st at by (cases ph) auto
    show ?thesis
    proof (cases "ud_force s")
      case True
      show ?thesis
        by (rule setup_drops_inv [OF inv n at, of _ g]) (use st CheckForce at ph True in auto)
    next
      case False
      show ?thesis
        by (rule setup_moves_inv [OF inv n at, of _ "Checked j g d"])
          (use st CheckForce at ph False in auto)
    qed
  next
    case QueueFirst
    then obtain j g d where ph: "ph = Checked j g d"
      using st at by (cases ph) auto
    show ?thesis
      by (rule setup_moves_inv [OF inv n at, of _ "Queued j g"]) (use st QueueFirst at ph in auto)
  next
    case InsertSession
    then obtain j g where ph: "ph = Queued j g"
      using st at by (cases ph) auto
    then show ?thesis using insert_inv [OF inv n] st InsertSession at by auto
  next
    case SetupEnds
    then have ph: "ph = Leaving"
      using st at by (cases ph) auto
    then show ?thesis using setup_ends_inv [OF inv n] st SetupEnds at by auto
  qed
qed

lemma map_of_del_key: "map_of (del_key k m) k' = (if k' = k then None else map_of m k')"
  by (induction m) (auto simp: del_key_def)

text \<open>The entries a sweep still has to visit are entries of the map.\<close>

lemma retain_inv:
  "udp_inv cfg s \<Longrightarrow> distinct (map fst es) \<Longrightarrow>
   (\<forall>(k, v)\<in>set es. map_of (ud_map s) k = Some v) \<Longrightarrow> udp_inv cfg (retain cfg now es s)"
proof (induction cfg now es s rule: retain.induct)
  case (2 cfg now k i g es s)
  show ?case
  proof (cases "verdict (idle_timeout_secs cfg) now (ud_pool s ! i)")
    case None
    then show ?thesis using "2.IH"(1) [OF None] "2.prems" by simp
  next
    case (Some r)
    let ?s = "emit [Inc ConnectionsClosed [cfg_name cfg, r]] (drop_session i g
        (s\<lparr>ud_map := del_key k (ud_map s),
           ud_pool := upd_session i (\<lambda>se. se\<lparr>se_cancelled := True\<rparr>) (ud_pool s)\<rparr>))"
    have "udp_inv cfg ?s"
      by (rule evict_inv [OF "2.prems"(1), of k i g]) (use "2.prems"(3) in simp_all)
    moreover have "\<forall>(k', v)\<in>set es. map_of (ud_map ?s) k' = Some v"
      using "2.prems"(2,3) by (force simp: map_of_del_key)
    ultimately show ?thesis using "2.IH"(2) [OF Some] "2.prems"(2) Some by simp
  qed
qed simp

lemma sweep_inv:
  assumes "udp_inv cfg s"
  shows "udp_inv cfg (sweep cfg now s)"
proof -
  have "udp_inv cfg (retain cfg now (ud_map s) s)"
    using assms by (intro retain_inv) (auto simp: udp_inv_def)
  then show ?thesis by (simp add: sweep_def Let_def)
qed

text \<open>The drop of the map, one entry after the other.\<close>

lemma drop_sessions_inv:
  "udp_inv cfg s \<Longrightarrow> distinct (map fst es) \<Longrightarrow>
   (\<forall>(k, v)\<in>set es. map_of (ud_map s) k = Some v) \<Longrightarrow> udp_inv cfg (drop_sessions es s)"
proof (induction es s rule: drop_sessions.induct)
  case (2 k i g es s)
  let ?s = "drop_session i g (s\<lparr>ud_map := del_key k (ud_map s)\<rparr>)"
  have "udp_inv cfg ?s"
    by (rule evict_inv [OF "2.prems"(1), of k i g]) (use "2.prems"(3) in simp_all)
  moreover have "\<forall>(k', v)\<in>set es. map_of (ud_map ?s) k' = Some v"
    using "2.prems"(2,3) by (force simp: map_of_del_key)
  ultimately show ?case using "2.IH" "2.prems"(2) by simp
qed simp

lemma drop_sessions_core [simp]:
  "ud_listener (drop_sessions es s) = ud_listener s" "ud_setups (drop_sessions es s) = ud_setups s"
  "ud_pending (drop_sessions es s) = ud_pending s" "ud_ops (drop_sessions es s) = ud_ops s"
  "ud_draining (drop_sessions es s) = ud_draining s" "ud_force (drop_sessions es s) = ud_force s"
  "ud_stop (drop_sessions es s) = ud_stop s" "ud_cleanup_runs (drop_sessions es s) = ud_cleanup_runs s"
  "ud_warned (drop_sessions es s) = ud_warned s" "ud_log (drop_sessions es s) = ud_log s"
  by (induction es s rule: drop_sessions.induct) (simp_all add: drop_session_def)

lemma drop_sessions_map:
  "ud_map (drop_sessions es s) = filter (\<lambda>e. fst e \<notin> fst ` set es) (ud_map s)"
  by (induction es s rule: drop_sessions.induct)
    (auto simp: del_key_def intro!: filter_cong)

text \<open>The proxy of a process with room for one more slot.\<close>

definition udp_roomy_step :: "ProxyConfig \<Rightarrow> udp_event \<Rightarrow> udp_sys \<Rightarrow> udp_sys option" where
  "udp_roomy_step cfg e s = (if slot_room cfg s then udp_step cfg e s else None)"

lemma udp_step_inv:
  assumes inv: "udp_inv cfg s" and step: "udp_roomy_step cfg e s = Some t"
  shows "udp_inv cfg t"
proof -
  have room: "slot_room cfg s" and st: "udp_step cfg e s = Some t"
    using step by (simp_all add: udp_roomy_step_def split: if_splits)
  show ?thesis
  proof (cases e)
    case (Listener le)
    then show ?thesis using st listener_step_inv [OF inv room] by simp
  next
    case (Setup n se)
    then show ?thesis using st setup_step_inv [OF inv] by (simp split: if_splits)
  next
    case (Sweep now)
    then show ?thesis using st sweep_inv [OF inv] by (auto split: if_splits)
  next
    case MapDropped
    have "udp_inv cfg (drop_sessions (ud_map s) s)"
      using inv by (intro drop_sessions_inv) (auto simp: udp_inv_def)
    then show ?thesis using st MapDropped by (simp split: if_splits)
  next
    case (Relay i re)
    then show ?thesis
      using st by (intro same_core_inv [OF inv])
        (auto simp: same_core_def split: if_splits option.splits prod.splits)
  qed ((rule same_core_inv [OF inv], (use st in \<open>auto simp: same_core_def split: if_splits\<close>) [1])+)
qed

definition udp_init :: "ProxyConfig \<Rightarrow> udp_sys \<Rightarrow> bool" where
  "udp_init cfg s \<longleftrightarrow> s = udp_start cfg"

interpretation udp: invariant_system "udp_init cfg" "udp_roomy_step cfg" "udp_inv cfg" for cfg
proof unfold_locales
  show "udp_inv cfg s" if "udp_init cfg s" for s
    using that by (auto simp: udp_init_def udp_inv_def udp_start_def held_def setup_sources_def
        setup_ips_def marked_def) (simp_all add: new_limits_def)
  show "udp_inv cfg t" if "udp_inv cfg s" "udp_roomy_step cfg e s = Some t" for s e t
    using that by (rule udp_step_inv)
qed

section \<open>Refinement\<close>

text \<open>
  To the limiter the UDP proxy is a sequence of acquisitions and drops: an admission acquires; an
  eviction, a replacement, a failed or cancelled setup and every close of a sweep drop.
\<close>

definition udp_slots :: "udp_sys \<Rightarrow> limiter_sys" where
  "udp_slots s = \<lparr>ly_lim = ud_limits s, ly_live = held s, ly_warned = ud_warned s\<rparr>"

definition slots_run :: "udp_sys \<Rightarrow> udp_sys \<Rightarrow> bool" where
  "slots_run s t \<longleftrightarrow> (\<exists>fs. run limiter_step fs (udp_slots s) = Some (udp_slots t))"

lemma slots_stutter:
  "ud_limits t = ud_limits s \<Longrightarrow> held t = held s \<Longrightarrow> ud_warned t = ud_warned s \<Longrightarrow> slots_run s t"
  unfolding slots_run_def by (rule exI [of _ "[]"]) (simp add: udp_slots_def)

lemma slots_same_core: "same_core s t \<Longrightarrow> ud_warned t = ud_warned s \<Longrightarrow> slots_run s t"
  by (rule slots_stutter) (simp_all add: same_core_def held_def)

lemma slots_release:
  assumes "ud_limits t = guard_drop g (ud_limits s)" and "held s = add_mset (src_ip g) (held t)"
    and "ud_warned t = ud_warned s"
  shows "slots_run s t"
proof -
  obtain ip where g: "g = \<lparr>src_ip = ip\<rparr>" by (cases g)
  have "run limiter_step [Release ip] (udp_slots s) = Some (udp_slots t)"
    using assms by (simp add: udp_slots_def g)
  then show ?thesis unfolding slots_run_def by blast
qed

lemma slots_trans: "slots_run s t \<Longrightarrow> slots_run t u \<Longrightarrow> slots_run s u"
  unfolding slots_run_def by (metis run_append option.simps(5))

lemma ud_warned_simps [simp]:
  "ud_warned (emit ops s) = ud_warned s" "ud_warned (drop_session i g s) = ud_warned s"
  "ud_warned (set_setup n ph s) = ud_warned s" "ud_warned (insert_session cfg src j g s) = ud_warned s"
  by (simp_all add: emit_def drop_session_def set_setup_def insert_session_def Let_def
      split: option.split)

lemma retain_slots:
  "udp_inv cfg s \<Longrightarrow> distinct (map fst es) \<Longrightarrow>
   (\<forall>(k, v)\<in>set es. map_of (ud_map s) k = Some v) \<Longrightarrow> slots_run s (retain cfg now es s)"
proof (induction cfg now es s rule: retain.induct)
  case (1 cfg now s)
  then show ?case by (simp add: slots_stutter)
next
  case (2 cfg now k i g es s)
  show ?case
  proof (cases "verdict (idle_timeout_secs cfg) now (ud_pool s ! i)")
    case None
    then show ?thesis using "2.IH"(1) [OF None] "2.prems" by simp
  next
    case (Some r)
    let ?s = "emit [Inc ConnectionsClosed [cfg_name cfg, r]] (drop_session i g
        (s\<lparr>ud_map := del_key k (ud_map s),
           ud_pool := upd_session i (\<lambda>se. se\<lparr>se_cancelled := True\<rparr>) (ud_pool s)\<rparr>))"
    have at: "map_of (ud_map s) k = Some (i, g)" using "2.prems"(3) by simp
    have inv: "udp_inv cfg ?s" by (rule evict_inv [OF "2.prems"(1) at]) simp_all
    have "slots_run s ?s"
      by (rule slots_release [of _ g]) (simp_all add: evict_held [OF "2.prems"(1) at])
    moreover have "\<forall>(k', v)\<in>set es. map_of (ud_map ?s) k' = Some v"
      using "2.prems"(2,3) by (force simp: map_of_del_key)
    ultimately show ?thesis
      using "2.IH"(2) [OF Some inv] "2.prems"(2) Some slots_trans by auto
  qed
qed

lemma drop_sessions_slots:
  "udp_inv cfg s \<Longrightarrow> distinct (map fst es) \<Longrightarrow>
   (\<forall>(k, v)\<in>set es. map_of (ud_map s) k = Some v) \<Longrightarrow> slots_run s (drop_sessions es s)"
proof (induction es s rule: drop_sessions.induct)
  case (1 s)
  then show ?case by (simp add: slots_stutter)
next
  case (2 k i g es s)
  let ?s = "drop_session i g (s\<lparr>ud_map := del_key k (ud_map s)\<rparr>)"
  have at: "map_of (ud_map s) k = Some (i, g)" using "2.prems"(3) by simp
  have inv: "udp_inv cfg ?s" by (rule evict_inv [OF "2.prems"(1) at]) simp_all
  have "slots_run s ?s"
    by (rule slots_release [of _ g]) (simp_all add: evict_held [OF "2.prems"(1) at])
  moreover have "\<forall>(k', v)\<in>set es. map_of (ud_map ?s) k' = Some v"
    using "2.prems"(2,3) by (force simp: map_of_del_key)
  ultimately show ?case using "2.IH" [OF inv] "2.prems"(2) slots_trans by auto
qed

lemma listener_slots:
  assumes inv: "udp_inv cfg s" and room: "slot_room cfg s" and st: "listener_step cfg e s = Some t"
  shows "slots_run s t"
proof (cases e)
  case (Lookup now)
  then obtain src d where t: "t = lookup_session cfg now src d s"
    using st by (auto split: listener.splits)
  show ?thesis
  proof (cases "map_of (ud_map s) src")
    case None
    then show ?thesis by (intro slots_stutter) (simp_all add: t lookup_session_def held_def)
  next
    case (Some v)
    obtain i g where v: "v = (i, g)" by (cases v)
    show ?thesis
    proof (cases "session_cancelled s i")
      case True
      have "held s = add_mset (src_ip g) (held t)"
        by (rule evict_held [OF inv Some [unfolded v]])
          (simp_all add: t lookup_session_def Some v True Let_def)
      then show ?thesis
        by (intro slots_release [of _ g]) (simp_all add: t lookup_session_def Some v True Let_def)
    next
      case False
      then show ?thesis
        using Some v by (intro slots_stutter) (simp_all add: t lookup_session_def held_def)
    qed
  qed
next
  case Admit
  then obtain src d where t: "t = admit_source cfg src d s"
    using st by (auto split: listener.splits)
  obtain r w l where acq: "try_acquire (sock_ip src) (ud_limits s) = (r, w, l)"
    by (cases "try_acquire (sock_ip src) (ud_limits s)")
  have "run limiter_step [Acquire (sock_ip src)] (udp_slots s) = Some (udp_slots t)"
    using slot_room_counter [OF room inv] acq
    by (cases r) (simp_all add: t udp_slots_def admit_source_def held_def setup_ips_def emit_def)
  then show ?thesis unfolding slots_run_def by blast
next
  case Mark
  then show ?thesis
    using st by (intro slots_stutter) (auto simp: mark_pending_def held_def split: listener.splits)
next
  case PollForce
  then show ?thesis
    using st by (intro slots_stutter) (auto simp: force_close_def held_def split: if_splits)
qed ((rule slots_stutter; use st in \<open>auto simp: held_def split: if_splits listener.splits\<close>)+)

lemma setup_slots:
  assumes inv: "udp_inv cfg s" and n: "n < length (ud_setups s)" and st: "setup_step cfg n e s = Some t"
  shows "slots_run s t"
proof -
  obtain src ph where at: "ud_setups s ! n = (src, ph)" by fastforce
  have moves: "slots_run s t"
    if "ud_setups t = (ud_setups s)[n := (src, ph')]" "ud_map t = ud_map s" "phase_ips ph' = phase_ips ph"
      "ud_limits t = ud_limits s" "ud_warned t = ud_warned s" for ph'
    using that held_set_setup [OF n at that(1,2)] by (intro slots_stutter) simp_all
  have drops: "slots_run s t"
    if "ud_setups t = (ud_setups s)[n := (src, Leaving)]" "ud_map t = ud_map s" "setup_guard ph = Some g"
      "ud_limits t = guard_drop g (ud_limits s)" "ud_warned t = ud_warned s" for g
    using that setup_drop_held [OF n at that(3,1,2)] by (intro slots_release)
  show ?thesis
  proof (cases e)
    case (SetupOpened now)
    then obtain g d where "ph = Opening g d" using st at by (cases ph) auto
    then show ?thesis
      using st SetupOpened at by (intro moves [of "Opened (length (ud_pool s)) g d"]) auto
  next
    case SetupFailed
    then obtain g d where "ph = Opening g d" using st at by (cases ph) auto
    then show ?thesis using st SetupFailed at by (intro drops [of g]) auto
  next
    case CheckForce
    then obtain j g d where ph: "ph = Opened j g d" using st at by (cases ph) auto
    show ?thesis
    proof (cases "ud_force s")
      case True
      then show ?thesis using st CheckForce at ph by (intro drops [of g]) auto
    next
      case False
      then show ?thesis using st CheckForce at ph by (intro moves [of "Checked j g d"]) auto
    qed
  next
    case QueueFirst
    then obtain j g d where "ph = Checked j g d" using st at by (cases ph) auto
    then show ?thesis using st QueueFirst at by (intro moves [of "Queued j g"]) auto
  next
    case InsertSession
    then obtain j g where ph: "ph = Queued j g" using st at by (cases ph) auto
    then have t: "t = set_setup n Leaving (insert_session cfg src j g s)"
      using st InsertSession at by simp
    note held = insert_held [OF inv n at [unfolded ph], folded t]
    show ?thesis
    proof (cases "map_of (ud_map s) src")
      case None
      then show ?thesis using held by (intro slots_stutter) (simp_all add: t)
    next
      case (Some v)
      obtain i g' where v: "v = (i, g')" by (cases v)
      then show ?thesis using held Some by (intro slots_release [of _ g']) (simp_all add: t)
    qed
  next
    case SetupEnds
    then have ph: "ph = Leaving" using st at by (cases ph) auto
    then show ?thesis
      using st SetupEnds at setup_ips_nth(1) [OF n at]
      by (intro slots_stutter) (auto simp: held_def)
  qed
qed

lemma udp_slots_step:
  assumes inv: "udp_inv cfg s" and step: "udp_roomy_step cfg e s = Some t"
  shows "slots_run s t"
proof -
  have room: "slot_room cfg s" and st: "udp_step cfg e s = Some t"
    using step by (simp_all add: udp_roomy_step_def split: if_splits)
  show ?thesis
  proof (cases e)
    case (Listener le)
    then show ?thesis using st listener_slots [OF inv room] by simp
  next
    case (Setup n se)
    then show ?thesis using st setup_slots [OF inv] by (simp split: if_splits)
  next
    case (Sweep now)
    have "slots_run s (retain cfg now (ud_map s) s)"
      using inv by (intro retain_slots) (auto simp: udp_inv_def)
    moreover have "slots_run u (emit ops u)" for u ops
      by (rule slots_stutter) (simp_all add: held_def)
    ultimately show ?thesis
      using st Sweep slots_trans by (auto simp: sweep_def Let_def split: if_splits)
  next
    case MapDropped
    have "slots_run s (drop_sessions (ud_map s) s)"
      using inv by (intro drop_sessions_slots) (auto simp: udp_inv_def)
    then show ?thesis using st MapDropped by (simp split: if_splits)
  next
    case (Relay i re)
    then show ?thesis
      using st by (intro slots_stutter) (auto simp: held_def split: if_splits option.splits prod.splits)
  qed ((rule slots_stutter; use st in \<open>auto simp: held_def split: if_splits\<close>)+)
qed

interpretation udp_limiter: refining_system "udp_init cfg" "udp_roomy_step cfg" "udp_inv cfg"
    "limiter_init (max_connections cfg) (cfg_max_per_ip cfg)" limiter_step udp_slots for cfg
proof unfold_locales
  show "limiter_init (max_connections cfg) (cfg_max_per_ip cfg) (udp_slots s)"
    if "udp_init cfg s" for s
    using that by (auto simp: udp_init_def udp_start_def udp_slots_def limiter_init_def held_def
        setup_ips_def)
  show "\<exists>fs. run limiter_step fs (udp_slots s) = Some (udp_slots t)"
    if "udp_inv cfg s" "udp_roomy_step cfg e s = Some t" for s e t
    using udp_slots_step [OF that] by (simp add: slots_run_def)
qed

end
