(* ===== verification/Udp_Ledger.thy ===== *)
theory Udp_Ledger
  imports Udp_Slots
begin

text \<open>
  The ledger of the UDP sessions (what was opened, closed, replaced, and what the gauge shows), the
  drain, three schedules of \<open>Udp\<close> that reach unintended states, and the
  properties of the proxy.
\<close>

section \<open>Accounting\<close>

definition opened :: "ProxyConfig \<Rightarrow> udp_sys \<Rightarrow> nat" where
  "opened cfg s = counted ConnectionsTotal [cfg_name cfg, ''udp''] (ud_ops s)"

definition closed_as :: "ProxyConfig \<Rightarrow> string \<Rightarrow> udp_sys \<Rightarrow> nat" where
  "closed_as cfg r s = counted ConnectionsClosed [cfg_name cfg, r] (ud_ops s)"

text \<open>The insertion that finds a session of the same source in the map.\<close>

definition replaces :: "udp_event \<Rightarrow> udp_sys \<Rightarrow> bool" where
  "replaces e s =
     (case e of
        Setup n InsertSession \<Rightarrow> map_of (ud_map s) (fst (ud_setups s ! n)) \<noteq> None
      | _ \<Rightarrow> False)"

fun replacements :: "ProxyConfig \<Rightarrow> udp_event list \<Rightarrow> udp_sys \<Rightarrow> nat" where
  "replacements cfg [] s = 0"
| "replacements cfg (e # es) s =
     (if replaces e s then 1 else 0) +
     (case udp_step cfg e s of None \<Rightarrow> 0 | Some t \<Rightarrow> replacements cfg es t)"

text \<open>What the ledger of a running listener says: \<open>lost\<close> sessions were opened and never closed.\<close>

definition ledger :: "ProxyConfig \<Rightarrow> nat \<Rightarrow> udp_sys \<Rightarrow> bool" where
  "ledger cfg lost s \<longleftrightarrow>
     opened cfg s = length (ud_map s) + closed_as cfg ''idle_timeout'' s + closed_as cfg ''error'' s + lost \<and>
     closed_as cfg ''shutdown'' s = 0 \<and>
     gauge Active [cfg_name cfg] 0 (ud_ops s) = int (length (ud_map s))"

lemma length_del_key:
  "distinct (map fst m) \<Longrightarrow> map_of m k = Some v \<Longrightarrow> length m = Suc (length (del_key k m))"
proof (induction m)
  case (Cons e m)
  show ?case
  proof (cases "fst e = k")
    case True
    then have "del_key k m = m" using Cons.prems(1) by (intro del_key_absent') auto
    then show ?thesis using True by (simp add: del_key_def)
  next
    case False
    then show ?thesis using Cons by (simp add: del_key_def)
  qed
qed simp

lemma ledger_same:
  "ledger cfg lost s \<Longrightarrow> ud_map t = ud_map s \<Longrightarrow> ud_ops t = ud_ops s \<Longrightarrow> ledger cfg lost t"
  by (simp add: ledger_def opened_def closed_as_def)

lemma ledger_other_ops:
  assumes "ledger cfg lost s" and "ud_map t = ud_map s" and "ud_ops t = ud_ops s @ ops"
    and "\<forall>op\<in>set ops. op_family op \<in> {BytesTotal, ConnectionsRejected}"
  shows "ledger cfg lost t"
proof -
  have "counted f ls ops = 0" if "f \<in> {ConnectionsTotal, ConnectionsClosed}" for f ls
    using assms(4)
  proof (induction ops)
    case (Cons op ops)
    then show ?case using that by (cases op) auto
  qed simp
  moreover have "gauge Active ls x ops = x" for ls x
    using assms(4)
  proof (induction ops arbitrary: x)
    case (Cons op ops)
    then show ?case by (cases op) auto
  qed simp
  ultimately show ?thesis
    using assms(1-3) by (simp add: ledger_def opened_def closed_as_def)
qed

text \<open>All the books need of the map: a source has at most one session.\<close>

definition one_per_source :: "udp_sys \<Rightarrow> bool" where
  "one_per_source s \<longleftrightarrow> distinct (map fst (ud_map s))"

lemma one_in_inv: "udp_inv cfg s \<Longrightarrow> one_per_source s"
  by (simp add: udp_inv_def one_per_source_def)

lemma lookup_ledger:
  assumes "one_per_source s" and "ledger cfg lost s"
  shows "ledger cfg lost (lookup_session cfg now src d s)"
proof (cases "map_of (ud_map s) src")
  case None
  then show ?thesis by (intro ledger_same [OF assms(2)]) (simp_all add: lookup_session_def)
next
  case (Some e)
  obtain i g where e: "e = (i, g)" by (cases e)
  show ?thesis
  proof (cases "session_cancelled s i")
    case True
    have "length (ud_map s) = Suc (length (del_key src (ud_map s)))"
      using assms(1) Some by (intro length_del_key) (simp_all add: one_per_source_def)
    then show ?thesis
      using assms(2) Some e True
      by (simp add: lookup_session_def Let_def ledger_def opened_def closed_as_def set_active_def)
  next
    case False
    then show ?thesis
      using Some e by (intro ledger_same [OF assms(2)]) (simp_all add: lookup_session_def)
  qed
qed

lemma insert_ledger:
  assumes inv: "one_per_source s" and led: "ledger cfg lost s"
  shows "ledger cfg (lost + (if map_of (ud_map s) src \<noteq> None then 1 else 0))
    (insert_session cfg src j g s)"
proof (cases "map_of (ud_map s) src")
  case None
  then show ?thesis
    using led by (simp add: insert_session_def Let_def ledger_def opened_def closed_as_def
        set_active_def del_key_absent)
next
  case (Some e)
  have "length (ud_map s) = Suc (length (del_key src (ud_map s)))"
    using inv Some by (intro length_del_key) (simp_all add: one_per_source_def)
  then show ?thesis
    using led Some
    by (simp add: insert_session_def Let_def ledger_def opened_def closed_as_def set_active_def
        split: prod.split)
qed

text \<open>A sweep counts one close per evicted session; the gauge is set at its end.\<close>

lemma retain_counts:
  "distinct (map fst (ud_map s)) \<Longrightarrow> distinct (map fst es) \<Longrightarrow>
   (\<forall>(k, v)\<in>set es. map_of (ud_map s) k = Some v) \<Longrightarrow>
   (let t = retain cfg now es s in
     opened cfg t = opened cfg s \<and> closed_as cfg ''shutdown'' t = closed_as cfg ''shutdown'' s \<and>
     length (ud_map t) + closed_as cfg ''idle_timeout'' t + closed_as cfg ''error'' t =
       length (ud_map s) + closed_as cfg ''idle_timeout'' s + closed_as cfg ''error'' s)"
proof (induction cfg now es s rule: retain.induct)
  case (2 cfg now k i g es s)
  show ?case
  proof (cases "verdict (idle_timeout_secs cfg) now (ud_pool s ! i)")
    case None
    then show ?thesis using "2.IH"(1) [OF None] "2.prems" by simp
  next
    case (Some r)
    then have r: "r = ''error'' \<or> r = ''idle_timeout''"
      by (simp add: verdict_def split: if_splits)
    let ?s = "emit [Inc ConnectionsClosed [cfg_name cfg, r]] (drop_session i g
        (s\<lparr>ud_map := del_key k (ud_map s),
           ud_pool := upd_session i (\<lambda>se. se\<lparr>se_cancelled := True\<rparr>) (ud_pool s)\<rparr>))"
    have len: "length (ud_map s) = Suc (length (ud_map ?s))"
      using length_del_key [OF "2.prems"(1), of k "(i, g)"] "2.prems"(3) by simp
    have d: "distinct (map fst (ud_map ?s))"
      using distinct_del_key [OF "2.prems"(1)] by simp
    have sub: "\<forall>(k', v)\<in>set es. map_of (ud_map ?s) k' = Some v"
      using "2.prems"(2,3) by (force simp: map_of_del_key)
    have step: "opened cfg ?s = opened cfg s"
        "closed_as cfg ''shutdown'' ?s = closed_as cfg ''shutdown'' s"
        "closed_as cfg ''idle_timeout'' ?s + closed_as cfg ''error'' ?s =
           Suc (closed_as cfg ''idle_timeout'' s + closed_as cfg ''error'' s)"
      using r by (auto simp: opened_def closed_as_def)
    have "retain cfg now ((k, i, g) # es) s = retain cfg now es ?s"
      using Some by simp
    then show ?thesis
      using "2.IH"(2) [OF Some d _ sub] "2.prems"(2) len step by (simp add: Let_def)
  qed
qed simp

lemma sweep_ledger:
  assumes "one_per_source s" and "ledger cfg lost s"
  shows "ledger cfg lost (sweep cfg now s)"
proof -
  let ?t = "retain cfg now (ud_map s) s"
  have d: "distinct (map fst (ud_map s))" using assms(1) by (simp add: one_per_source_def)
  have "\<forall>(k, v)\<in>set (ud_map s). map_of (ud_map s) k = Some v" using d by auto
  then show ?thesis
    using retain_counts [OF d d, of cfg now] assms(2)
    by (auto simp: sweep_def Let_def ledger_def opened_def closed_as_def set_active_def)
qed

lemma listener_ledger:
  assumes inv: "one_per_source s" and led: "ledger cfg lost s"
    and st: "listener_step cfg e s = Some t" and run: "ud_listener t \<noteq> LReturned"
  shows "ledger cfg lost t"
proof (cases e)
  case PollForce
  then show ?thesis
    using st run by (intro ledger_same [OF led]) (auto simp: force_close_def split: if_splits)
next
  case (Lookup now)
  then show ?thesis using st lookup_ledger [OF inv led] by (auto split: listener.splits)
next
  case Admit
  then obtain src d where t: "t = admit_source cfg src d s"
    using st by (auto split: listener.splits)
  show ?thesis
  proof (cases "sock_ip src" "ud_limits s" rule: try_acquire_cases)
    case (rejected r)
    then show ?thesis
      by (intro ledger_other_ops [OF led,
          of _ "[Inc ConnectionsRejected [cfg_name cfg, reject_label r]]"])
        (simp_all add: t admit_source_def)
  next
    case admitted
    then show ?thesis
      by (intro ledger_same [OF led]) (simp_all add: t admit_source_def split: prod.split)
  qed
next
  case Mark
  then show ?thesis
    using st by (intro ledger_same [OF led]) (auto simp: mark_pending_def split: listener.splits)
qed ((rule ledger_same [OF led]; use st in \<open>auto split: if_splits listener.splits\<close>)+)

lemma session_step_ops:
  "session_step cfg force e se = Some (se', ops) \<Longrightarrow>
     \<forall>op\<in>set ops. op_family op \<in> {BytesTotal, ConnectionsRejected}"
  by (cases e) (auto simp: Let_def split: list.splits option.splits if_splits)

lemma dropped_returned:
  "udp_step cfg MapDropped s = Some t \<Longrightarrow> ud_listener t = LReturned"
  by (auto simp: map_unheld_def split: if_splits)

lemma udp_step_ledger:
  assumes inv: "one_per_source s" and led: "ledger cfg lost s"
    and st: "udp_step cfg e s = Some t" and run: "ud_listener t \<noteq> LReturned"
  shows "ledger cfg (lost + (if replaces e s then 1 else 0)) t"
proof (cases e)
  case (Listener le)
  then show ?thesis using listener_ledger [OF inv led _ run] st by (simp add: replaces_def)
next
  case (Sweep now)
  then show ?thesis using sweep_ledger [OF inv led] st by (auto simp: replaces_def split: if_splits)
next
  case MapDropped
  then show ?thesis using st run dropped_returned by blast
next
  case (Relay i re)
  then obtain se ops where "session_step cfg (ud_force s) re (ud_pool s ! i) = Some (se, ops)"
      and t: "t = emit ops (s\<lparr>ud_pool := (ud_pool s)[i := se]\<rparr>)"
    using st by (auto split: if_splits option.splits)
  then have "ledger cfg lost t"
    using session_step_ops by (intro ledger_other_ops [OF led, of _ ops]) auto
  then show ?thesis using Relay by (simp add: replaces_def)
next
  case (Setup n se)
  then have n: "n < length (ud_setups s)" and ss: "setup_step cfg n se s = Some t"
    using st by (simp_all split: if_splits)
  obtain src ph where at: "ud_setups s ! n = (src, ph)" by fastforce
  show ?thesis
  proof (cases "se = InsertSession")
    case True
    then obtain j g where t: "t = set_setup n Leaving (insert_session cfg src j g s)"
      using ss at by (cases ph) auto
    show ?thesis
      using ledger_same [OF insert_ledger [OF inv led, of src j g], of t] Setup True at
      by (simp add: t replaces_def)
  next
    case False
    then have "ud_map t = ud_map s \<and> ud_ops t = ud_ops s"
      using ss at by (cases se; cases ph) (auto split: if_splits)
    moreover have "\<not> replaces e s" using False Setup by (simp add: replaces_def split: setup_event.splits)
    ultimately show ?thesis using ledger_same [OF led] by simp
  qed
qed (use led st in \<open>auto simp: replaces_def intro: ledger_same split: if_splits\<close>)

lemma returned_stays:
  assumes "udp_step cfg e s = Some t" and "ud_listener s = LReturned"
  shows "ud_listener t = LReturned"
proof (cases e)
  case (Listener le)
  then show ?thesis using assms by (cases le) auto
next
  case (Setup n se)
  then show ?thesis using assms by (cases se) (auto split: if_splits prod.splits setup_phase.splits)
next
  case (Sweep now)
  have "ud_listener (retain cfg now es s) = ud_listener s" for es
    by (induction cfg now es s rule: retain.induct) (auto split: option.split)
  then show ?thesis using assms Sweep by (auto simp: sweep_def Let_def split: if_splits)
qed (use assms in \<open>auto simp: map_unheld_def split: if_splits option.splits\<close>)

lemma returned_stays_run:
  "run (udp_roomy_step cfg) es s = Some t \<Longrightarrow> ud_listener s = LReturned \<Longrightarrow> ud_listener t = LReturned"
proof (induction es arbitrary: s)
  case (Cons e es)
  then obtain u where u: "udp_roomy_step cfg e s = Some u" "run (udp_roomy_step cfg) es u = Some t"
    by (auto split: option.splits)
  then have "ud_listener u = LReturned"
    using returned_stays [of cfg e s u] Cons.prems(2) by (simp add: udp_roomy_step_def split: if_splits)
  then show ?case using Cons.IH u(2) by blast
qed simp

lemma udp_run_ledger:
  "udp_inv cfg s \<Longrightarrow> ledger cfg lost s \<Longrightarrow> run (udp_roomy_step cfg) es s = Some t \<Longrightarrow>
     ud_listener t \<noteq> LReturned \<Longrightarrow> ledger cfg (lost + replacements cfg es s) t"
proof (induction es arbitrary: s lost)
  case (Cons e es)
  then obtain u where u: "udp_roomy_step cfg e s = Some u" "run (udp_roomy_step cfg) es u = Some t"
    by (auto split: option.splits)
  then have st: "udp_step cfg e s = Some u" by (simp add: udp_roomy_step_def split: if_splits)
  have "ud_listener u \<noteq> LReturned"
    using returned_stays_run [OF u(2)] Cons.prems(4) by blast
  then have "ledger cfg (lost + (if replaces e s then 1 else 0)) u"
    using udp_step_ledger [OF one_in_inv [OF Cons.prems(1)] Cons.prems(2) st] by simp
  from Cons.IH [OF udp.inv_next [OF Cons.prems(1) u(1)] this u(2) Cons.prems(4)]
  show ?case using st by (simp add: add.assoc split: if_splits)
qed simp

text \<open>So the books are kept with no regard to the limiter's counters.\<close>

lemma one_per_source_step:
  assumes one: "one_per_source s" and st: "udp_step cfg e s = Some t"
  shows "one_per_source t"
proof -
  note ds = distinct_del_key
  have ret: "one_per_source (retain cfg now es u)" if "one_per_source u" for now es u
    using that
    by (induction cfg now es u rule: retain.induct) (auto simp: one_per_source_def intro: ds split: option.split)
  have lis: "one_per_source t" if "listener_step cfg le s = Some t" for le
    using that one
    by (cases le) (auto simp: one_per_source_def lookup_session_def mark_pending_def admit_source_def
        force_close_def Let_def intro: ds
        split: if_splits listener.splits option.splits prod.splits sum.splits)
  have set: "one_per_source t" if "setup_step cfg n se s = Some t" for n se
    using that one
    by (cases se) (auto simp: one_per_source_def set_setup_def insert_session_def Let_def intro: ds
        split: if_splits setup_phase.splits option.splits prod.splits)
  show ?thesis
  proof (cases e)
    case (Sweep now)
    then show ?thesis
      using st ret [OF one] by (auto simp: sweep_def Let_def one_per_source_def split: if_splits)
  next
    case MapDropped
    then show ?thesis
      using st one by (auto simp: one_per_source_def drop_sessions_map distinct_map_filter split: if_splits)
  next
    case (Relay i re)
    then show ?thesis using st one by (auto simp: one_per_source_def split: if_splits option.splits)
  qed (use st one lis set in \<open>auto simp: one_per_source_def split: if_splits\<close>)
qed

definition books_kept :: "ProxyConfig \<Rightarrow> udp_sys \<Rightarrow> bool" where
  "books_kept cfg s \<longleftrightarrow> one_per_source s \<and> (ud_listener s \<noteq> LReturned \<longrightarrow> (\<exists>lost. ledger cfg lost s))"

interpretation udp_books: invariant_system "udp_init cfg" "udp_step cfg" "books_kept cfg" for cfg
proof unfold_locales
  fix s assume "udp_init cfg s"
  then have "ledger cfg 0 s" "one_per_source s"
    by (auto simp: udp_init_def ledger_def udp_start_def opened_def closed_as_def one_per_source_def)
  then show "books_kept cfg s" by (auto simp: books_kept_def)
next
  fix s t e assume books: "books_kept cfg s" and st: "udp_step cfg e s = Some t"
  have one: "one_per_source s" using books by (simp add: books_kept_def)
  have "\<exists>lost. ledger cfg lost t" if run: "ud_listener t \<noteq> LReturned"
  proof -
    have "ud_listener s \<noteq> LReturned" using returned_stays [OF st] run by blast
    then obtain lost where "ledger cfg lost s" using books by (auto simp: books_kept_def)
    from udp_step_ledger [OF one this st run] show ?thesis by blast
  qed
  then show "books_kept cfg t" using one_per_source_step [OF one st] by (simp add: books_kept_def)
qed

section \<open>Draining\<close>

lemma draining_step:
  assumes inv: "udp_inv cfg s" and "ud_draining s" and st: "udp_step cfg e s = Some t"
  shows "ud_draining t \<and> ud_pending t \<subseteq> ud_pending s"
proof (cases e)
  case (Listener le)
  then show ?thesis
    using assms
    by (cases le; auto simp: force_close_def lookup_session_def Let_def mark_pending_def
        admit_source_def split: if_splits listener.splits option.splits prod.splits sum.splits)
next
  case (Setup n se)
  have "ud_draining (insert_session cfg src j g s) = ud_draining s" for src j g
    by (simp add: insert_session_def Let_def emit_def drop_session_def split: option.splits)
  then show ?thesis
    using assms Setup
    by (cases se; auto simp: set_setup_def split: if_splits prod.splits setup_phase.splits)
next
  case (Sweep now)
  have "ud_draining (retain cfg now es s) = ud_draining s \<and> ud_pending (retain cfg now es s) = ud_pending s" for es
    by (induction cfg now es s rule: retain.induct) (auto split: option.split)
  then show ?thesis using assms Sweep by (auto simp: sweep_def Let_def split: if_splits)
qed (use assms in \<open>auto split: if_splits option.splits\<close>)

lemma draining_run:
  "udp_inv cfg s \<Longrightarrow> ud_draining s \<Longrightarrow> run (udp_roomy_step cfg) es s = Some t \<Longrightarrow>
     ud_pending t \<subseteq> ud_pending s"
proof (induction es arbitrary: s)
  case (Cons e es)
  then obtain u where u: "udp_roomy_step cfg e s = Some u" "run (udp_roomy_step cfg) es u = Some t"
    by (auto split: option.splits)
  then have st: "udp_step cfg e s = Some u" by (simp add: udp_roomy_step_def split: if_splits)
  show ?case
    using draining_step [OF Cons.prems(1,2) st] Cons.IH [OF udp.inv_next [OF Cons.prems(1) u(1)] _ u(2)]
    by blast
qed simp

section \<open>Three schedules\<close>

definition demo_src :: socket_addr where
  "demo_src = SockV4 (Ipv4 192 0 2 1) 5353"

text \<open>A first datagram is admitted and its setup runs up to the insertion.\<close>

definition first_packet :: "udp_event list" where
  "first_packet =
     [Listener PollForce, Listener (Recvd demo_src [1]), Listener (Lookup 0), Listener Mark,
      Listener Admit, Setup 0 (SetupOpened 0), Setup 0 CheckForce, Setup 0 QueueFirst]"

definition finish_setup :: "udp_event list" where
  "finish_setup = [Setup 0 InsertSession, Setup 0 SetupEnds]"

text \<open>
  The second datagram's lookup comes before the insertion of the first one's session, its pending mark
  after that setup has ended.
\<close>

definition race_events :: "udp_event list" where
  "race_events =
     first_packet @
     [Listener PollForce, Listener (Recvd demo_src [2]), Listener (Lookup 1)] @ finish_setup @
     [Listener Mark, Listener Admit, Setup 0 (SetupOpened 2), Setup 0 CheckForce, Setup 0 QueueFirst,
      Setup 0 InsertSession]"

text \<open>The insertion falls between the two reads of the drain check.\<close>

definition drain_events :: "udp_event list" where
  "drain_events =
     first_packet @
     [StopToken, Listener PollForce, Listener StopSeen, Listener PollForce, Listener DrainTick] @
     finish_setup @ [Listener DrainDecide]"

text \<open>A sweep whose sleep was over when the force token fired comes after the listener's close.\<close>

definition force_events :: "udp_event list" where
  "force_events =
     first_packet @ finish_setup @ [ForceToken, Listener PollForce, Sweep 5]"

lemmas udp_eval = udp_roomy_step_def slot_room_def udp_start_def default_config_def
  lookup_session_def mark_pending_def admit_source_def try_acquire_def admit_slot_def
  reached_90pct_def new_limits_def guard_drop_def sat_sub_def Let_def set_setup_def
  insert_session_def emit_def drop_session_def upd_session_def new_session_def try_send_def
  CHANNEL_CAP_def set_active_def del_key_def force_close_def session_cancelled_def
  demo_src_def first_packet_def finish_setup_def sweep_def verdict_def stale_def
  word_le_nat_alt word_less_nat_alt

definition race_state :: udp_sys where
  "race_state = the (run (udp_roomy_step default_config) race_events (udp_start default_config))"

definition drain_state :: udp_sys where
  "drain_state = the (run (udp_roomy_step default_config) drain_events (udp_start default_config))"

definition force_state :: udp_sys where
  "force_state = the (run (udp_roomy_step default_config) force_events (udp_start default_config))"

text \<open>After that drain the cleanup task ends, the map is dropped and the session's tasks end.\<close>

definition lost_events :: "udp_event list" where
  "lost_events =
     [CleanupStops, MapDropped, Relay 0 (UpTake 1), Relay 0 (UpSent (Some 1)), Relay 0 UpStops, Relay 0 DownStops]"

definition lost_state :: udp_sys where
  "lost_state = the (run (udp_roomy_step default_config) lost_events drain_state)"

lemma lost_run: "run (udp_roomy_step default_config) lost_events drain_state = Some lost_state"
  by (simp add: lost_state_def lost_events_def drain_state_def drain_events_def udp_eval
      up_ends_def down_ends_def map_unheld_def)

lemma udp_demo_runs:
  "run (udp_roomy_step default_config) race_events (udp_start default_config) = Some race_state"
  "run (udp_roomy_step default_config) drain_events (udp_start default_config) = Some drain_state"
  "run (udp_roomy_step default_config) force_events (udp_start default_config) = Some force_state"
  by (simp_all add: race_state_def drain_state_def force_state_def race_events_def drain_events_def
      force_events_def udp_eval)

lemma udp_demo_reach:
  "run (udp_roomy_step cfg) es (udp_start cfg) = Some t \<Longrightarrow> reach (udp_init cfg) (udp_roomy_step cfg) t"
  by (rule run_reach [where s = "udp_start cfg"]) (auto intro: reach_init simp: udp_init_def)

section \<open>Properties\<close>

text \<open>
  C14: The UDP proxy holds no more slots than configured: sessions and setups in flight together, in
  total and per source address, in any interleaving of the listener, the setup tasks, the cleanup
  and the relay tasks; and the limiter counts exactly them (a replaced session's slot included).
\<close>

theorem udp_within_caps:
  assumes "reach (udp_init cfg) (udp_roomy_step cfg) s"
  shows "(max_connections cfg = 0 \<or> size (held s) \<le> unat (max_connections cfg)) \<and>
    (cfg_max_per_ip cfg = 0 \<or> count (held s) ip \<le> unat (cfg_max_per_ip cfg)) \<and>
    unat (st_total (lim_state (ud_limits s))) = size (held s) \<and> length (ud_map s) \<le> size (held s)"
  using udp.inv_reachable [OF assms]
  by (auto simp: udp_inv_def limiter_ok_def within_caps_def tracks_total held_def map_ips_def)

theorem udp_within_caps_witness:
  "size (held race_state) \<le> 32000 \<and> count (held race_state) (sock_ip demo_src) \<le> 320"
  using udp_within_caps [OF udp_demo_reach [OF udp_demo_runs(1)], of "sock_ip demo_src"]
  by (simp add: default_config_def)

text \<open>
  The UDP proxy refines the abstract limiter: its limiter together with the addresses of its sessions
  and of its setups in flight is a reachable state of the limiter alone, under every interleaving of
  listener, setup tasks, cleanup and relays.
\<close>

theorem udp_refines_limiter:
  assumes "reach (udp_init cfg) (udp_roomy_step cfg) s"
  shows "reach (limiter_init (max_connections cfg) (cfg_max_per_ip cfg)) limiter_step (udp_slots s)"
  using assms by (rule udp_limiter.abs_reachable)

theorem udp_refines_limiter_witness:
  "reach (limiter_init (max_connections default_config) (cfg_max_per_ip default_config)) limiter_step
     (udp_slots race_state)"
  by (rule udp_refines_limiter [OF udp_demo_reach [OF udp_demo_runs(1)]])

text \<open>
  A source has at most one session in the map and at most one setup in flight, and the pending
  marks are those of the setups in flight (and of the source the listener is about to admit): no
  mark outlives its setup, whatever way it ends.
\<close>

theorem udp_single_setup:
  assumes "reach (udp_init cfg) (udp_roomy_step cfg) s"
  shows "distinct (map fst (ud_map s)) \<and> distinct (map fst (ud_setups s)) \<and>
    ud_pending s = set (map fst (ud_setups s)) \<union> marked (ud_listener s)"
  using udp.inv_reachable [OF assms] by (simp add: udp_inv_def setup_sources_def)

theorem udp_single_setup_witness:
  "distinct (map fst (ud_map race_state)) \<and>
   ud_pending race_state = set (map fst (ud_setups race_state)) \<union> marked (ud_listener race_state)"
  using udp_single_setup [OF udp_demo_reach [OF udp_demo_runs(1)]] by blast

text \<open>
  C15: The ledger of the sessions. As long as the listener runs, every session ever opened is in the
  map, or was closed once as idle or as dead, or was replaced by a second setup of the same
  source, and then nothing counted its close; and the active gauge shows the size of the map.
\<close>

theorem udp_sessions_accounted:
  assumes "run (udp_roomy_step cfg) es (udp_start cfg) = Some t" and "ud_listener t \<noteq> LReturned"
  shows "opened cfg t = length (ud_map t) + closed_as cfg ''idle_timeout'' t + closed_as cfg ''error'' t +
      replacements cfg es (udp_start cfg) \<and>
    gauge Active [cfg_name cfg] 0 (ud_ops t) = int (length (ud_map t))"
proof -
  have start: "udp_inv cfg (udp_start cfg)" by (rule udp.inv_start) (simp add: udp_init_def)
  have "ledger cfg 0 (udp_start cfg)"
    by (simp add: ledger_def udp_start_def opened_def closed_as_def)
  from udp_run_ledger [OF start this assms] show ?thesis by (simp add: ledger_def)
qed

theorem udp_sessions_accounted_witness:
  "opened default_config race_state = length (ud_map race_state) +
     closed_as default_config ''idle_timeout'' race_state + closed_as default_config ''error'' race_state +
     replacements default_config race_events (udp_start default_config)"
proof -
  have "ud_listener race_state \<noteq> LReturned"
    by (simp add: race_state_def race_events_def udp_eval)
  from udp_sessions_accounted [OF udp_demo_runs(1) this] show ?thesis by simp
qed

text \<open>
  A draining listener opens no setup for a new source: whatever arrives, the set of sources with a
  setup in flight only shrinks.
\<close>

theorem udp_drain_admits_none:
  assumes "reach (udp_init cfg) (udp_roomy_step cfg) s" and "ud_draining s"
    and "run (udp_roomy_step cfg) es s = Some t"
  shows "set (map fst (ud_setups t)) \<subseteq> ud_pending s"
proof -
  have "udp_inv cfg t"
    using udp.inv_along_run [OF udp.inv_reachable [OF assms(1)] assms(3)] .
  then show ?thesis
    using draining_run [OF udp.inv_reachable [OF assms(1)] assms(2,3)]
    by (auto simp: udp_inv_def setup_sources_def)
qed

theorem udp_drain_admits_none_witness:
  "set (map fst (ud_setups drain_state)) \<subseteq> ud_pending drain_state"
proof -
  have "ud_draining drain_state"
    by (simp add: drain_state_def drain_events_def udp_eval)
  from udp_drain_admits_none [OF udp_demo_reach [OF udp_demo_runs(2)] this, of "[]"]
  show ?thesis by simp
qed

text \<open>
  C29: The pending mark does not exclude a second setup for a source that has a session: the lookup of
  the map and the mark are two critical sections, and a setup that inserts its session and clears
  its mark between them goes unnoticed. The second setup then replaces a live session, two sessions
  are opened for one source, and no close is ever counted for the first.
\<close>

theorem udp_live_session_replaced:
  "\<exists>es s. run (udp_roomy_step default_config) es (udp_start default_config) = Some s \<and>
     ud_listener s \<noteq> LReturned \<and> map fst (ud_map s) = [demo_src] \<and> opened default_config s = 2 \<and>
     closed_as default_config ''error'' s = 0 \<and> closed_as default_config ''idle_timeout'' s = 0 \<and>
     replacements default_config es (udp_start default_config) = 1 \<and>
     \<not> se_cancelled (ud_pool s ! 0) \<and> \<not> se_tx_open (ud_pool s ! 0)"
  by (rule exI [of _ race_events], rule exI [of _ race_state], intro conjI udp_demo_runs(1))
    (simp_all add: race_state_def race_events_def udp_eval opened_def closed_as_def replaces_def)

text \<open>
  C30: The drain check can let the listener return over a live session: it reads the map first and the
  pending set second, so a setup that inserts its session and clears its mark in between is in
  neither. The listener then returns as drained, without the force token, with a session in the map
  that was opened and not closed. And the session is lost with the map: once the cleanup task has
  seen the return, the map is dropped, the session's channel is closed and both its tasks end,
  with no token fired and no close counted.
\<close>

theorem udp_drained_over_session:
  "\<exists>s. reach (udp_init default_config) (udp_roomy_step default_config) s \<and>
     ud_listener s = LReturned \<and> \<not> ud_force s \<and> map fst (ud_map s) = [demo_src] \<and>
     \<not> se_cancelled (ud_pool s ! 0) \<and> opened default_config s = 1 \<and>
     (\<exists>es t. run (udp_roomy_step default_config) es s = Some t \<and> \<not> ud_force t \<and> ud_map t = [] \<and>
        \<not> se_up_runs (ud_pool t ! 0) \<and> \<not> se_down_runs (ud_pool t ! 0) \<and> held t = {#} \<and>
        (\<forall>r. closed_as default_config r t = 0))"
proof (intro exI [of _ drain_state] conjI)
  show "\<exists>es t. run (udp_roomy_step default_config) es drain_state = Some t \<and> \<not> ud_force t \<and> ud_map t = [] \<and>
      \<not> se_up_runs (ud_pool t ! 0) \<and> \<not> se_down_runs (ud_pool t ! 0) \<and> held t = {#} \<and>
      (\<forall>r. closed_as default_config r t = 0)"
    by (rule exI [of _ lost_events], rule exI [of _ lost_state], intro conjI lost_run allI)
      (simp_all add: lost_state_def lost_events_def drain_state_def drain_events_def udp_eval
        up_ends_def down_ends_def map_unheld_def closed_as_def held_def setup_ips_def)
qed (simp_all add: udp_demo_reach [OF udp_demo_runs(2)],
     simp_all add: drain_state_def drain_events_def udp_eval opened_def)

text \<open>
  C31: A forced shutdown can count a session twice: the listener cancels the sessions and counts them
  as \<open>shutdown\<close> but leaves them in the map, so a sweep that was already past its sleep finds them
  dead and counts them again as \<open>error\<close>.
\<close>

theorem udp_shutdown_counted_twice:
  "\<exists>s. reach (udp_init default_config) (udp_roomy_step default_config) s \<and>
     opened default_config s = 1 \<and> closed_as default_config ''shutdown'' s = 1 \<and>
     closed_as default_config ''error'' s = 1"
  by (rule exI [of _ force_state], intro conjI udp_demo_reach [OF udp_demo_runs(3)])
    (simp_all add: force_state_def force_events_def udp_eval opened_def closed_as_def)

end
