(* ===== verification/Udp_Open.thy ===== *)
theory Udp_Open
  imports Udp_Ledger
begin

text \<open>
  The first half of \<open>open_session\<close> in \<open>src/proxy/udp.rs\<close>: resolving the target and opening the upstream
  socket, under the force token and one timeout. Its outcome is the event \<open>SetupOpened\<close> or
  \<open>SetupFailed\<close> of the setup task in \<open>Udp\<close>. The resolver and the socket calls are parameters.
\<close>

section \<open>The upstream socket\<close>

text \<open>
  An await inside the block: it completes with a result, or the force token or the timeout ends the
  whole block there.
\<close>

datatype 'a awaited = Ready 'a | Interrupted | Elapsed

datatype open_error =
    SetupCancelled
  | SetupTimedOut
  | LookupFailed string string
  | NoAddress string
  | UpstreamBind string
  | UpstreamConnect string

datatype open_call = LookupHost string | BindUpstream socket_addr | ConnectUpstream socket_addr

text \<open>
  The environment: whether the token is already cancelled at the first poll (the \<open>select!\<close> is
  biased), and what each call answers (\<open>None\<close> is success of a bind or a connect).
\<close>

record open_env =
  oe_cancelled :: bool
  oe_lookup :: "string \<Rightarrow> (string + socket_addr list) awaited"
  oe_bind :: "socket_addr \<Rightarrow> string option awaited"
  oe_connect :: "socket_addr \<Rightarrow> string option awaited"

type_synonym open_result = "open_call list \<times> (open_error + socket_addr)"

definition await :: "'a awaited \<Rightarrow> ('a \<Rightarrow> open_result) \<Rightarrow> open_result" where
  "await r f =
     (case r of
        Ready x \<Rightarrow> f x
      | Interrupted \<Rightarrow> ([], Inl SetupCancelled)
      | Elapsed \<Rightarrow> ([], Inl SetupTimedOut))"

definition call :: "open_call \<Rightarrow> open_result \<Rightarrow> open_result" where
  "call c r = (c # fst r, snd r)"

text \<open>Port 0 of the unspecified address, of the family of the target.\<close>

definition bind_addr :: "socket_addr \<Rightarrow> socket_addr" where
  "bind_addr a =
     (case a of
        SockV6 _ _ _ _ \<Rightarrow> SockV6 (Ipv6 0 0 0 0 0 0 0 0) 0 0 0
      | SockV4 _ _ \<Rightarrow> SockV4 (Ipv4 0 0 0 0) 0)"

definition connect_upstream :: "open_env \<Rightarrow> socket_addr \<Rightarrow> open_result" where
  "connect_upstream env a =
     call (BindUpstream (bind_addr a)) (await (oe_bind env (bind_addr a)) (\<lambda>r.
       case r of
         Some e \<Rightarrow> ([], Inl (UpstreamBind e))
       | None \<Rightarrow>
           call (ConnectUpstream a) (await (oe_connect env a) (\<lambda>r.
             case r of Some e \<Rightarrow> ([], Inl (UpstreamConnect e)) | None \<Rightarrow> ([], Inr a)))))"

definition open_upstream :: "ProxyConfig \<Rightarrow> open_env \<Rightarrow> open_result" where
  "open_upstream cfg env =
     (if oe_cancelled env then ([], Inl SetupCancelled)
      else call (LookupHost (cfg_target cfg)) (await (oe_lookup env (cfg_target cfg)) (\<lambda>r.
        case r of
          Inl e \<Rightarrow> ([], Inl (LookupFailed (cfg_target cfg) e))
        | Inr [] \<Rightarrow> ([], Inl (NoAddress (cfg_target cfg)))
        | Inr (a # _) \<Rightarrow> connect_upstream env a)))"

text \<open>What the setup task does next: with a session (its activity starts now), or with an error.\<close>

definition setup_outcome :: "u64 \<Rightarrow> open_error + socket_addr \<Rightarrow> setup_event" where
  "setup_outcome now r = (case r of Inr _ \<Rightarrow> SetupOpened now | Inl _ \<Rightarrow> SetupFailed)"

section \<open>Lemmas\<close>

lemma await_ok:
  "snd (await r f) = Inr a \<longleftrightarrow> (\<exists>x. r = Ready x \<and> snd (f x) = Inr a)"
  by (simp add: await_def split: awaited.split)

lemma call_simps [simp]: "fst (call c r) = c # fst r" "snd (call c r) = snd r"
  by (simp_all add: call_def)

lemma connect_upstream_ok:
  "snd (connect_upstream env a) = Inr b \<longleftrightarrow>
     b = a \<and> oe_bind env (bind_addr a) = Ready None \<and> oe_connect env a = Ready None"
  by (auto simp: connect_upstream_def await_ok split: option.splits)

lemma connect_upstream_calls:
  "snd (connect_upstream env a) = Inr b \<Longrightarrow>
     fst (connect_upstream env a) = [BindUpstream (bind_addr a), ConnectUpstream a]"
  unfolding connect_upstream_ok by (simp add: connect_upstream_def await_def)

lemma first_address_ok:
  "snd (case r of Inl e \<Rightarrow> ([], Inl (x e)) | Inr [] \<Rightarrow> ([], Inl y) | Inr (a # as) \<Rightarrow> f a) = Inr b \<longleftrightarrow>
     (\<exists>a as. r = Inr (a # as) \<and> snd (f a) = Inr b)"
  by (auto split: sum.split list.split)

lemma setup_fails:
  assumes "n < length (ud_setups s)" and "ud_setups s ! n = (src, Opening g d)"
  shows "run (udp_step cfg) [Setup n SetupFailed, Setup n SetupEnds] s =
    Some (s\<lparr>ud_limits := guard_drop g (ud_limits s), ud_pending := ud_pending s - {src},
      ud_setups := take n (ud_setups s) @ drop (Suc n) (ud_setups s)\<rparr>)"
  using assms by (simp add: set_setup_def)

lemma setup_fails_inv:
  assumes inv: "udp_inv cfg s" and n: "n < length (ud_setups s)" "ud_setups s ! n = (src, Opening g d)"
    and run: "run (udp_step cfg) [Setup n SetupFailed, Setup n SetupEnds] s = Some t"
  shows "udp_inv cfg t" and "held s = add_mset (sock_ip src) (held t)"
    and "src \<notin> set (map fst (ud_setups t))"
proof -
  define u where "u = set_setup n Leaving (s\<lparr>ud_limits := guard_drop g (ud_limits s)\<rparr>)"
  have u: "ud_setups u = (ud_setups s)[n := (src, Leaving)]" "ud_map u = ud_map s"
      "ud_pending u = ud_pending s" "ud_listener u = ud_listener s"
      "ud_limits u = guard_drop g (ud_limits s)"
    using n by (simp_all add: u_def set_setup_def)
  have t: "t = u\<lparr>ud_pending := ud_pending u - {src},
      ud_setups := take n (ud_setups u) @ drop (Suc n) (ud_setups u)\<rparr>"
    using run n by (simp add: u_def set_setup_def)
  have "udp_inv cfg u"
    by (rule setup_drops_inv [OF inv n u(1,3,4,2,5)]) simp
  from setup_ends_inv [OF this, of n src] show "udp_inv cfg t"
    using n by (simp add: t u)
  have ts: "ud_setups t = take n (ud_setups s) @ drop (Suc n) (ud_setups s)"
    by (simp add: t u)
  have "src_ip g = sock_ip src"
    using inv nth_mem [OF n(1)] n(2) by (auto simp: udp_inv_def phase_ips_def)
  then show "held s = add_mset (sock_ip src) (held t)"
    using setup_ips_nth(1) [OF n] by (simp add: held_def ts t u phase_ips_def)
  have "distinct (map fst (take n (ud_setups s) @ (src, Opening g d) # drop (Suc n) (ud_setups s)))"
    using inv n id_take_nth_drop [OF n(1)] by (simp add: udp_inv_def setup_sources_def)
  then show "src \<notin> set (map fst (ud_setups t))" by (simp add: ts)
qed

section \<open>Properties\<close>

text \<open>
  A session's upstream socket is opened exactly when the token is not cancelled, the target resolves
  in time to at least one address, and bind and connect succeed; it is then connected to the first
  of the addresses, from a socket of that address's family, with no other call made.
\<close>

theorem open_upstream_exact:
  "snd (open_upstream cfg env) = Inr a \<longleftrightarrow>
     \<not> oe_cancelled env \<and> (\<exists>as. oe_lookup env (cfg_target cfg) = Ready (Inr (a # as))) \<and>
     oe_bind env (bind_addr a) = Ready None \<and> oe_connect env a = Ready None"
  by (auto simp: open_upstream_def await_ok first_address_ok connect_upstream_ok)

text \<open>
  C27: A setup that cannot open its upstream socket, for whatever reason, leaves nothing behind: from
  every reachable state its two last steps give the slot back, remove the pending mark and the task,
  and touch neither the sessions nor the metrics; so the source can be admitted again.
\<close>

theorem open_failure_leaves_nothing:
  assumes "reach (udp_init cfg) (udp_roomy_step cfg) s"
    and "n < length (ud_setups s)" and "ud_setups s ! n = (src, Opening g d)"
    and "snd (open_upstream cfg env) = Inl err"
  shows "\<exists>t. run (udp_step cfg) [Setup n (setup_outcome now (snd (open_upstream cfg env))),
      Setup n SetupEnds] s = Some t \<and>
    held s = add_mset (sock_ip src) (held t) \<and> limiter_ok (ud_limits t) (held t) \<and>
    src \<notin> ud_pending t \<and> src \<notin> set (map fst (ud_setups t)) \<and>
    ud_map t = ud_map s \<and> ud_pool t = ud_pool s \<and> ud_ops t = ud_ops s"
proof -
  obtain t where run: "run (udp_step cfg) [Setup n SetupFailed, Setup n SetupEnds] s = Some t"
    and t: "t = s\<lparr>ud_limits := guard_drop g (ud_limits s), ud_pending := ud_pending s - {src},
      ud_setups := take n (ud_setups s) @ drop (Suc n) (ud_setups s)\<rparr>"
    using setup_fails [OF assms(2,3)] by blast
  note after = setup_fails_inv [OF udp.inv_reachable [OF assms(1)] assms(2,3) run]
  have "setup_outcome now (snd (open_upstream cfg env)) = SetupFailed"
    using assms(4) by (simp add: setup_outcome_def)
  then show ?thesis
    using run after by (intro exI [of _ t]) (auto simp: t udp_inv_def)
qed

definition demo_opening :: udp_sys where
  "demo_opening = the (run (udp_roomy_step default_config) (take 5 first_packet) (udp_start default_config))"

definition demo_open_env :: open_env where
  "demo_open_env =
     \<lparr>oe_cancelled = False, oe_lookup = (\<lambda>_. Ready (Inr [demo_src])), oe_bind = (\<lambda>_. Ready None),
      oe_connect = (\<lambda>_. Elapsed)\<rparr>"

lemma demo_opening_run:
  "run (udp_roomy_step default_config) (take 5 first_packet) (udp_start default_config) = Some demo_opening"
  "ud_setups demo_opening = [(demo_src, Opening \<lparr>src_ip = sock_ip demo_src\<rparr> [1])]"
  by (simp_all add: demo_opening_def udp_eval)

theorem open_failure_leaves_nothing_witness:
  "\<exists>t. run (udp_step default_config) [Setup 0 SetupFailed, Setup 0 SetupEnds] demo_opening = Some t \<and>
     held demo_opening = add_mset (sock_ip demo_src) (held t) \<and> demo_src \<notin> ud_pending t"
proof -
  have err: "snd (open_upstream default_config demo_open_env) = Inl SetupTimedOut"
    by (simp add: open_upstream_def demo_open_env_def await_def connect_upstream_def)
  have at: "0 < length (ud_setups demo_opening)"
      "ud_setups demo_opening ! 0 = (demo_src, Opening \<lparr>src_ip = sock_ip demo_src\<rparr> [1])"
    by (simp_all add: demo_opening_run(2))
  show ?thesis
    using open_failure_leaves_nothing [OF udp_demo_reach [OF demo_opening_run(1)] at err] err
    by (auto simp: setup_outcome_def)
qed

end
