(* ===== verification/Udp_Order.thy ===== *)
theory Udp_Order
  imports Udp_Ledger "HOL-Library.Sublist"
begin

text \<open>
  The datagrams of the UDP proxy: what the upstream task of a session sends comes from that session's
  source alone, in the order the listener received it. The proxy of \<open>Udp\<close> is observed with two
  histories, the datagrams received so far and those each session sent.
\<close>

section \<open>The observed proxy\<close>

type_synonym datagrams = "(socket_addr \<times> u8 list) list"

record observed =
  ob_sys :: udp_sys
  ob_received :: datagrams
  ob_sent :: "nat \<Rightarrow> u8 list list"

definition note_received :: "udp_event \<Rightarrow> datagrams" where
  "note_received e = (case e of Listener (Recvd src d) \<Rightarrow> [(src, d)] | _ \<Rightarrow> [])"

text \<open>The datagram the up task took from the channel and is sending.\<close>

definition in_flight :: "session \<Rightarrow> u8 list list" where
  "in_flight se = (case se_up_sends se of None \<Rightarrow> [] | Some d \<Rightarrow> [d])"

definition note_sent :: "udp_event \<Rightarrow> udp_sys \<Rightarrow> (nat \<Rightarrow> u8 list list) \<Rightarrow> nat \<Rightarrow> u8 list list" where
  "note_sent e s S =
     (case e of
        Relay i (UpSent (Some n)) \<Rightarrow> S(i := S i @ in_flight (ud_pool s ! i))
      | _ \<Rightarrow> S)"

definition observed_step :: "ProxyConfig \<Rightarrow> udp_event \<Rightarrow> observed \<Rightarrow> observed option" where
  "observed_step cfg e b =
     (case udp_roomy_step cfg e (ob_sys b) of
        None \<Rightarrow> None
      | Some t \<Rightarrow>
          Some \<lparr>ob_sys = t, ob_received = ob_received b @ note_received e,
                ob_sent = note_sent e (ob_sys b) (ob_sent b)\<rparr>)"

definition observed_init :: "ProxyConfig \<Rightarrow> observed \<Rightarrow> bool" where
  "observed_init cfg b \<longleftrightarrow> b = \<lparr>ob_sys = udp_start cfg, ob_received = [], ob_sent = (\<lambda>_. [])\<rparr>"

definition from_src :: "socket_addr \<Rightarrow> datagrams \<Rightarrow> u8 list list" where
  "from_src src D = map snd (filter (\<lambda>r. fst r = src) D)"

lemma from_src_simps [simp]:
  "from_src src [] = []"
  "from_src src (D @ D') = from_src src D @ from_src src D'"
  "from_src src ((k, d) # D) = (if k = src then d # from_src src D else from_src src D)"
  by (simp_all add: from_src_def)

section \<open>What flows where\<close>

text \<open>Of a session only its source, the datagram being sent and its channel matter here.\<close>

definition flow :: "session list \<Rightarrow> (socket_addr \<times> u8 list list) list" where
  "flow pool = map (\<lambda>se. (se_src se, in_flight se @ se_chan se)) pool"

lemma length_flow [simp]: "length (flow pool) = length pool"
  by (simp add: flow_def)

lemma flow_nth: "i < length pool \<Longrightarrow> flow pool ! i = (se_src (pool ! i), in_flight (pool ! i) @ se_chan (pool ! i))"
  by (simp add: flow_def)

lemma flow_upd [simp]:
  "(\<And>se. se_src (f se) = se_src se \<and> se_chan (f se) = se_chan se \<and> se_up_sends (f se) = se_up_sends se) \<Longrightarrow>
     flow (upd_session i f pool) = flow pool"
  by (simp add: flow_def upd_session_def map_update list_update_same_conv in_flight_def)

lemma flow_drop [simp]: "flow (ud_pool (drop_session i g s)) = flow (ud_pool s)"
  by (simp add: drop_session_def)

text \<open>An open session that has not been used: nothing sent, nothing queued, not in the map.\<close>

definition fresh ::
    "(socket_addr \<times> u8 list list) list \<Rightarrow> (socket_addr \<times> nat \<times> guard) list \<Rightarrow> (nat \<Rightarrow> u8 list list) \<Rightarrow>
     socket_addr \<Rightarrow> nat \<Rightarrow> bool" where
  "fresh F m S k j \<longleftrightarrow>
     j < length F \<and> F ! j = (k, []) \<and> S j = [] \<and> (\<forall>g. (k, j, g) \<notin> set m)"

definition phase_ok ::
    "(socket_addr \<times> u8 list list) list \<Rightarrow> (socket_addr \<times> nat \<times> guard) list \<Rightarrow> datagrams \<Rightarrow>
     (nat \<Rightarrow> u8 list list) \<Rightarrow> socket_addr \<Rightarrow> setup_phase \<Rightarrow> bool" where
  "phase_ok F m D S k ph =
     (case ph of
        Opening g d \<Rightarrow> d \<in> set (from_src k D)
      | Opened j g d \<Rightarrow> d \<in> set (from_src k D) \<and> fresh F m S k j
      | Checked j g d \<Rightarrow> d \<in> set (from_src k D) \<and> fresh F m S k j
      | Queued j g \<Rightarrow> j < length F \<and> fst (F ! j) = k
      | Leaving \<Rightarrow> True)"

definition order_ok ::
    "(socket_addr \<times> u8 list list) list \<Rightarrow> (socket_addr \<times> nat \<times> guard) list \<Rightarrow>
     (socket_addr \<times> setup_phase) list \<Rightarrow> datagrams \<Rightarrow> (nat \<Rightarrow> u8 list list) \<Rightarrow> bool" where
  "order_ok F m ss D S \<longleftrightarrow>
     (\<forall>i<length F. subseq (S i @ snd (F ! i)) (from_src (fst (F ! i)) D)) \<and>
     (\<forall>i\<ge>length F. S i = []) \<and>
     (\<forall>(k, i, g)\<in>set m. i < length F \<and> fst (F ! i) = k) \<and>
     (\<forall>(k, ph)\<in>set ss. phase_ok F m D S k ph)"

lemma order_okI:
  assumes "\<And>i. i < length F \<Longrightarrow> subseq (S i @ snd (F ! i)) (from_src (fst (F ! i)) D)"
    and "\<And>i. length F \<le> i \<Longrightarrow> S i = []"
    and "\<And>k i g. (k, i, g) \<in> set m \<Longrightarrow> i < length F \<and> fst (F ! i) = k"
    and "\<And>k ph. (k, ph) \<in> set ss \<Longrightarrow> phase_ok F m D S k ph"
  shows "order_ok F m ss D S"
  using assms by (auto simp: order_ok_def)

lemma order_okD:
  assumes "order_ok F m ss D S"
  shows "i < length F \<Longrightarrow> subseq (S i @ snd (F ! i)) (from_src (fst (F ! i)) D)"
    and "length F \<le> i \<Longrightarrow> S i = []"
    and "(k, i, g) \<in> set m \<Longrightarrow> i < length F \<and> fst (F ! i) = k"
    and "(k, ph) \<in> set ss \<Longrightarrow> phase_ok F m D S k ph"
  using assms by (auto simp: order_ok_def)

text \<open>The datagram the listener holds has been received, but is not due to any session yet.\<close>

definition in_hand :: "listener \<Rightarrow> datagrams" where
  "in_hand l =
     (case l of
        LGot src d \<Rightarrow> [(src, d)]
      | LMissed src d \<Rightarrow> [(src, d)]
      | LMarked src d \<Rightarrow> [(src, d)]
      | _ \<Rightarrow> [])"

definition sys_ok :: "udp_sys \<Rightarrow> datagrams \<Rightarrow> (nat \<Rightarrow> u8 list list) \<Rightarrow> bool" where
  "sys_ok s D S = order_ok (flow (ud_pool s)) (ud_map s) (ud_setups s) D S"

definition order_inv :: "ProxyConfig \<Rightarrow> observed \<Rightarrow> bool" where
  "order_inv cfg b \<longleftrightarrow>
     udp_inv cfg (ob_sys b) \<and>
     (\<exists>D. ob_received b = D @ in_hand (ud_listener (ob_sys b)) \<and> sys_ok (ob_sys b) D (ob_sent b))"

section \<open>Preservation\<close>

lemma phase_ok_mono:
  assumes "phase_ok F m D S k ph" and "set m' \<subseteq> set m"
  shows "phase_ok F m' (D @ X) S k ph"
  using assms by (auto simp: phase_ok_def fresh_def split: setup_phase.splits)

text \<open>Steps that move no datagram: sessions leave the map, tasks leave, the listener lets go.\<close>

lemma order_mono:
  assumes "order_ok F m ss D S" and "set m' \<subseteq> set m"
    and "\<And>k ph. (k, ph) \<in> set ss' \<Longrightarrow> (k, ph) \<in> set ss \<or> ph = Leaving"
  shows "order_ok F m' ss' (D @ X) S"
proof -
  have "phase_ok F m' (D @ X) S k ph" if "(k, ph) \<in> set ss'" for k ph
    using assms(3) [OF that] assms(1) phase_ok_mono [OF _ assms(2)]
    by (auto simp: order_ok_def phase_ok_def)
  moreover have "subseq (S i @ snd (F ! i)) (from_src (fst (F ! i)) D @ Y)" if "i < length F" for i Y
    using assms(1) that by (auto simp: order_ok_def intro: list_emb_prefix)
  ultimately show ?thesis
    using assms(1,2) by (auto simp: order_ok_def)
qed

lemma setup_after:
  assumes "distinct (map fst ss)" and "n < length ss" and "ss ! n = (src, ph)"
    and "(k, p) \<in> set (ss[n := (src, ph')])"
  shows "k = src \<and> p = ph' \<or> k \<noteq> src \<and> (k, p) \<in> set ss"
proof -
  obtain i where i: "i < length ss" "ss[n := (src, ph')] ! i = (k, p)"
    using assms(4) by (auto simp: in_set_conv_nth)
  show ?thesis
  proof (cases "i = n")
    case True
    then show ?thesis using i by simp
  next
    case False
    then have "ss ! i = (k, p)" using i by simp
    moreover from this have "k \<noteq> src"
      using False assms(2,3) i(1) nth_eq_iff_index_eq [OF assms(1), of i n] by auto
    ultimately show ?thesis using i(1) nth_mem by metis
  qed
qed

lemma quiet:
  assumes "sys_ok s D S" and "flow (ud_pool t) = flow (ud_pool s)" and "set (ud_map t) \<subseteq> set (ud_map s)"
    and "\<And>k ph. (k, ph) \<in> set (ud_setups t) \<Longrightarrow> (k, ph) \<in> set (ud_setups s) \<or> ph = Leaving"
  shows "sys_ok t (D @ X) S"
  using order_mono [OF _ assms(3,4), of "flow (ud_pool s)"] assms(1,2) by (simp add: sys_ok_def)

lemmas quiet' = quiet [where X = "[]", simplified]

lemma order_queue:
  assumes ok: "order_ok F m ss D S" and at: "j < length F" "F ! j = (k, ch)"
    and seq: "subseq (S j @ ch @ [d]) (from_src k D')" and D': "D' = D @ X"
    and used: "\<And>k' ph. (k', ph) \<in> set ss' \<Longrightarrow>
      phase_ok F m D' S k' ph \<and> (\<forall>g d. ph \<noteq> Opened j g d \<and> ph \<noteq> Checked j g d)"
  shows "order_ok (F[j := (k, ch @ [d])]) m ss' D' S"
proof -
  let ?F = "F[j := (k, ch @ [d])]"
  have keys: "fst (?F ! i) = fst (F ! i)" for i
    using at by (cases "i = j") simp_all
  have "phase_ok ?F m D' S k' ph" if "(k', ph) \<in> set ss'" for k' ph
    using used [OF that] keys by (auto simp: phase_ok_def fresh_def split: setup_phase.splits)
  moreover have "subseq (S i @ snd (?F ! i)) (from_src (fst (?F ! i)) D')" if i: "i < length F" for i
  proof (cases "i = j")
    case True
    then show ?thesis using seq at i by simp
  next
    case False
    then show ?thesis
      using ok i by (auto simp: order_ok_def D' intro: list_emb_prefix)
  qed
  ultimately show ?thesis
    using ok keys by (auto simp: order_ok_def)
qed

lemma flow_try_send:
  assumes "j < length pool" and "flow pool ! j = (k, ch)"
    and "\<And>se. se_src (f se) = se_src se \<and> se_chan (f se) = se_chan se \<and> se_up_runs (f se) = se_up_runs se \<and>
      se_up_sends (f se) = se_up_sends se"
  shows "flow (upd_session j (\<lambda>se. try_send d (f se)) pool) =
    (if se_up_runs (pool ! j) \<and> length (se_chan (pool ! j)) < CHANNEL_CAP
     then (flow pool)[j := (k, ch @ [d])] else flow pool)"
proof -
  have "flow (pool[j := se]) = (flow pool)[j := (se_src se, in_flight se @ se_chan se)]" for se
    by (simp add: flow_def map_update)
  then show ?thesis
    using assms by (auto simp: upd_session_def try_send_def flow_nth list_update_same_conv in_flight_def)
qed

lemma lookup_order:
  assumes ok: "sys_ok s D S" and l: "ud_listener s = LGot src d"
  shows "\<exists>D'. D @ [(src, d)] = D' @ in_hand (ud_listener (lookup_session cfg now src d s)) \<and>
    sys_ok (lookup_session cfg now src d s) D' S"
proof (cases "map_of (ud_map s) src")
  case None
  then show ?thesis
    by (intro exI [of _ D] conjI quiet' [OF ok]) (simp_all add: lookup_session_def in_hand_def)
next
  case (Some e)
  obtain i g where e: "e = (i, g)" by (cases e)
  then have m: "(src, i, g) \<in> set (ud_map s)" using Some map_of_SomeD by fastforce
  show ?thesis
  proof (cases "session_cancelled s i")
    case True
    then show ?thesis
      using Some e
      by (intro exI [of _ D] conjI quiet' [OF ok])
        (auto simp: lookup_session_def in_hand_def Let_def emit_def del_key_def drop_session_def)
  next
    case False
    let ?t = "lookup_session cfg now src d s"
    have t: "ud_map ?t = ud_map s" "ud_setups ?t = ud_setups s" "ud_listener ?t = LSelect"
        "ud_pool ?t = upd_session i (\<lambda>se. try_send d (se\<lparr>se_last := now\<rparr>)) (ud_pool s)"
      using False Some e by (simp_all add: lookup_session_def)
    have i: "i < length (flow (ud_pool s))" and src: "fst (flow (ud_pool s) ! i) = src"
      using ok m by (auto simp: sys_ok_def order_ok_def)
    then obtain ch where ch: "flow (ud_pool s) ! i = (src, ch)" by (cases "flow (ud_pool s) ! i") auto
    have "order_ok ((flow (ud_pool s))[i := (src, ch @ [d])]) (ud_map s) (ud_setups s) (D @ [(src, d)]) S"
    proof (rule order_queue [OF _ i ch])
      show "order_ok (flow (ud_pool s)) (ud_map s) (ud_setups s) D S" using ok by (simp add: sys_ok_def)
      have "subseq (S i @ ch) (from_src src D)" using ok i ch by (auto simp: sys_ok_def order_ok_def)
      from list_emb_append_mono [OF this, of "[d]" "[d]"]
      show "subseq (S i @ ch @ [d]) (from_src src (D @ [(src, d)]))" by simp
      show "phase_ok (flow (ud_pool s)) (ud_map s) (D @ [(src, d)]) S k' ph \<and>
          (\<forall>g d. ph \<noteq> Opened i g d \<and> ph \<noteq> Checked i g d)"
        if "(k', ph) \<in> set (ud_setups s)" for k' ph
      proof -
        have p: "phase_ok (flow (ud_pool s)) (ud_map s) D S k' ph"
          using ok that by (auto simp: sys_ok_def order_ok_def)
        then have "\<forall>g d. ph \<noteq> Opened i g d \<and> ph \<noteq> Checked i g d"
          using m ch by (auto simp: phase_ok_def fresh_def)
        then show ?thesis using phase_ok_mono [OF p] by auto
      qed
    qed simp
    then have "sys_ok ?t (D @ [(src, d)]) S"
      using quiet [OF ok, of s "[(src, d)]"] i ch flow_try_send [OF _ ch, of "\<lambda>se. se\<lparr>se_last := now\<rparr>" d]
      by (auto simp: sys_ok_def t)
    then show ?thesis by (intro exI [of _ "D @ [(src, d)]"]) (simp add: t(3) in_hand_def)
  qed
qed

lemma admit_order:
  assumes ok: "sys_ok s D S"
  shows "sys_ok (admit_source cfg src d s) (D @ [(src, d)]) S"
proof -
  obtain r w l where acq: "try_acquire (sock_ip src) (ud_limits s) = (r, w, l)"
    by (cases "try_acquire (sock_ip src) (ud_limits s)")
  show ?thesis
  proof (cases r)
    case (Inl rej)
    then show ?thesis by (intro quiet [OF ok]) (auto simp: admit_source_def acq emit_def)
  next
    case (Inr g)
    have "sys_ok s (D @ [(src, d)]) S" by (rule quiet [OF ok]) auto
    moreover have "phase_ok F m (D @ [(src, d)]) S src (Opening g d)" for F m
      by (simp add: phase_ok_def)
    ultimately show ?thesis
      by (auto simp: admit_source_def acq Inr sys_ok_def order_ok_def)
  qed
qed

lemma listener_order:
  assumes ok: "sys_ok s D S" and st: "listener_step cfg e s = Some t"
  shows "\<exists>D'. D @ in_hand (ud_listener s) @ note_received (Listener e) = D' @ in_hand (ud_listener t) \<and>
    sys_ok t D' S"
proof (cases e)
  case (Lookup now)
  then obtain src d where l: "ud_listener s = LGot src d" and t: "t = lookup_session cfg now src d s"
    using st by (auto split: listener.splits)
  then show ?thesis
    using lookup_order [OF ok l, of cfg now] Lookup by (simp add: note_received_def in_hand_def)
next
  case Admit
  then obtain src d where l: "ud_listener s = LMarked src d" and t: "t = admit_source cfg src d s"
    using st by (auto split: listener.splits)
  have "ud_listener t = LSelect"
    by (auto simp: t admit_source_def emit_def split: prod.split sum.split)
  then show ?thesis
    using admit_order [OF ok, of cfg src d] Admit l
    by (intro exI [of _ "D @ [(src, d)]"]) (simp add: t note_received_def in_hand_def)
next
  case Mark
  then obtain src d where l: "ud_listener s = LMissed src d" and t: "t = mark_pending src d s"
    using st by (auto split: listener.splits)
  have "sys_ok t (D @ X) S" for X
    by (rule quiet [OF ok]) (auto simp: t mark_pending_def split: if_splits)
  from this [of "[]"] this [of "[(src, d)]"] show ?thesis
    using Mark l by (auto simp: t mark_pending_def note_received_def in_hand_def)
next
  case PollForce
  have "flow (fold (\<lambda>(k, i, g). upd_session i (\<lambda>se. se\<lparr>se_cancelled := True\<rparr>)) m pool) = flow pool" for m pool
    by (induction m arbitrary: pool) (auto split: prod.split)
  then have "sys_ok t D S"
    using st PollForce by (intro quiet' [OF ok]) (auto simp: force_close_def emit_def split: if_splits)
  moreover have "in_hand (ud_listener s) = []" "in_hand (ud_listener t) = []"
    using st PollForce by (auto simp: in_hand_def force_close_def emit_def split: if_splits)
  ultimately show ?thesis using PollForce by (auto simp: note_received_def)
next
  case (Recvd src d)
  then have "sys_ok t D S" using st by (intro quiet' [OF ok]) (auto split: if_splits)
  then show ?thesis
    using st Recvd by (intro exI [of _ D]) (auto simp: in_hand_def note_received_def split: if_splits)
qed (use st quiet' [OF ok, of t] in
    \<open>auto simp: in_hand_def note_received_def split: if_splits listener.splits\<close>)

lemma phase_moves:
  assumes dist: "distinct (map fst ss)" and n: "n < length ss" "ss ! n = (src, ph)"
    and ok: "order_ok F m ss D S" and new: "phase_ok F m D S src ph'"
  shows "order_ok F m (ss[n := (src, ph')]) D S"
  using ok new setup_after [OF dist n] by (fastforce simp: order_ok_def)

lemma order_opens:
  assumes ok: "order_ok F m ss D S"
  shows "order_ok (F @ [(k, [])]) m ss D S"
proof -
  have "phase_ok (F @ [(k, [])]) m D S k' ph" if "phase_ok F m D S k' ph" for k' ph
    using that by (auto simp: phase_ok_def fresh_def nth_append split: setup_phase.splits)
  moreover have "subseq (S i @ snd ((F @ [(k, [])]) ! i)) (from_src (fst ((F @ [(k, [])]) ! i)) D)"
    if "i < Suc (length F)" for i
    using ok that by (cases "i = length F") (simp_all add: order_ok_def nth_append)
  moreover have "i < length (F @ [(k, [])]) \<and> fst ((F @ [(k, [])]) ! i) = k'" if "(k', i, g) \<in> set m"
    for k' i g
    using order_okD(3) [OF ok that] by (auto simp: nth_append)
  ultimately show ?thesis
    using order_okD(2,4) [OF ok] by (intro order_okI) simp_all
qed

lemma insert_order:
  assumes ok: "order_ok F m ss D S" and dist: "distinct (map fst ss)"
    and n: "n < length ss" "ss ! n = (src, Queued j g)"
  shows "order_ok F ((src, j, g) # del_key src m) (ss[n := (src, Leaving)]) D S"
proof -
  have j: "j < length F \<and> fst (F ! j) = src"
    using ok nth_mem [OF n(1)] n(2) by (auto simp: order_ok_def phase_ok_def)
  have "phase_ok F ((src, j, g) # del_key src m) D S k ph"
    if "(k, ph) \<in> set (ss[n := (src, Leaving)])" for k ph
  proof (cases "ph = Leaving")
    case False
    then have k: "k \<noteq> src" "(k, ph) \<in> set ss" using setup_after [OF dist n that] by auto
    then have "phase_ok F m D S k ph" using ok by (auto simp: order_ok_def)
    then show ?thesis
      using k(1) by (auto simp: phase_ok_def fresh_def del_key_def split: setup_phase.splits)
  qed (simp add: phase_ok_def)
  moreover have "i < length F \<and> fst (F ! i) = k" if "(k, i, g') \<in> set ((src, j, g) # del_key src m)"
    for k i g'
    using order_okD(3) [OF ok, of k i g'] that j by (auto simp: del_key_def)
  ultimately show ?thesis using order_okD(1,2) [OF ok] by (intro order_okI)
qed

lemma queue_order:
  assumes ok: "order_ok F m ss D S" and dist: "distinct (map fst ss)"
    and n: "n < length ss" "ss ! n = (src, Checked j g d)"
    and F': "F' = F \<or> F' = F[j := (src, [d])]"
  shows "order_ok F' m (ss[n := (src, Queued j g)]) D S"
proof -
  have ph: "phase_ok F m D S src (Checked j g d)"
    using ok nth_mem [OF n(1)] n(2) by (auto simp: order_ok_def)
  then have j: "j < length F" "F ! j = (src, [])" "S j = []" and d: "d \<in> set (from_src src D)"
    by (auto simp: phase_ok_def fresh_def)
  have queued: "phase_ok F m D S src (Queued j g)" using j by (simp add: phase_ok_def)
  have other: "phase_ok F m D S k ph \<and> (\<forall>g d. ph \<noteq> Opened j g d \<and> ph \<noteq> Checked j g d)"
    if "(k, ph) \<in> set (ss[n := (src, Queued j g)])" for k ph
  proof (cases "k = src")
    case True
    then show ?thesis using queued setup_after [OF dist n that] by auto
  next
    case False
    then have "phase_ok F m D S k ph"
      using setup_after [OF dist n that] ok by (auto simp: order_ok_def)
    then show ?thesis using False j by (auto simp: phase_ok_def fresh_def)
  qed
  from F' show ?thesis
  proof
    assume "F' = F"
    then show ?thesis using phase_moves [OF dist n ok queued] by simp
  next
    assume F': "F' = F[j := (src, [d])]"
    have "subseq (S j @ [] @ [d]) (from_src src D)" using j(3) d by (simp add: subseq_singleton_left)
    from order_queue [OF ok j(1,2) this, of "[]" "ss[n := (src, Queued j g)]"] other
    show ?thesis by (simp add: F')
  qed
qed

lemma setup_order:
  assumes ok: "sys_ok s D S" and dist: "distinct (map fst (ud_setups s))"
    and n: "n < length (ud_setups s)" and st: "setup_step cfg n e s = Some t"
  shows "sys_ok t D S"
proof -
  obtain src ph where at: "ud_setups s ! n = (src, ph)" by fastforce
  have ph_ok: "phase_ok (flow (ud_pool s)) (ud_map s) D S src ph"
    using ok nth_mem [OF n] at by (auto simp: sys_ok_def order_ok_def)
  have leaves: "sys_ok t D S"
    if "ud_setups t = (ud_setups s)[n := (src, Leaving)]" "ud_map t = ud_map s"
      "flow (ud_pool t) = flow (ud_pool s)"
    using that setup_after [OF dist n at, of _ _ Leaving] by (intro quiet' [OF ok]) auto
  have moves: "sys_ok t D S"
    if "ud_setups t = (ud_setups s)[n := (src, ph')]" "ud_map t = ud_map s" "ud_pool t = ud_pool s"
      "phase_ok (flow (ud_pool s)) (ud_map s) D S src ph'" for ph'
    using that phase_moves [OF dist n at, of "flow (ud_pool s)" "ud_map s" D S ph'] ok
    by (simp add: sys_ok_def)
  show ?thesis
  proof (cases e)
    case SetupFailed
    then show ?thesis
      using st at by (intro leaves) (auto simp: set_setup_def split: setup_phase.splits)
  next
    case CheckForce
    then obtain j g d where ph: "ph = Opened j g d" using st at by (cases ph) auto
    show ?thesis
    proof (cases "ud_force s")
      case True
      then show ?thesis using st CheckForce at ph by (intro leaves) (auto simp: set_setup_def drop_session_def)
    next
      case False
      then show ?thesis
        using st CheckForce at ph ph_ok
        by (intro moves [of "Checked j g d"]) (auto simp: set_setup_def phase_ok_def)
    qed
  next
    case SetupEnds
    then show ?thesis
      using st at by (intro quiet' [OF ok]) (auto split: setup_phase.splits dest: in_set_takeD in_set_dropD)
  next
    case (SetupOpened now)
    then obtain g d where ph: "ph = Opening g d" using st at by (cases ph) auto
    then have t: "ud_setups t = (ud_setups s)[n := (src, Opened (length (ud_pool s)) g d)]"
        "ud_map t = ud_map s" "flow (ud_pool t) = flow (ud_pool s) @ [(src, [])]"
      using st SetupOpened at by (auto simp: set_setup_def flow_def new_session_def in_flight_def)
    have F: "order_ok (flow (ud_pool s) @ [(src, [])]) (ud_map s) (ud_setups s) D S"
      using ok by (intro order_opens) (simp add: sys_ok_def)
    show ?thesis
      unfolding sys_ok_def t
    proof (rule phase_moves [OF dist n at F])
      have "(src, length (ud_pool s), g') \<notin> set (ud_map s)" for g'
        using ok order_okD(3) by (fastforce simp: sys_ok_def)
      moreover have "S (length (ud_pool s)) = []"
        using ok order_okD(2) by (fastforce simp: sys_ok_def)
      ultimately show "phase_ok (flow (ud_pool s) @ [(src, [])]) (ud_map s) D S src
          (Opened (length (ud_pool s)) g d)"
        using ph_ok nth_append_length [of "flow (ud_pool s)"] by (simp add: ph phase_ok_def fresh_def)
    qed
  next
    case QueueFirst
    then obtain j g d where ph: "ph = Checked j g d" using st at by (cases ph) auto
    then have t: "ud_setups t = (ud_setups s)[n := (src, Queued j g)]" "ud_map t = ud_map s"
        "ud_pool t = upd_session j (try_send d) (ud_pool s)"
      using st QueueFirst at by (auto simp: set_setup_def)
    have j: "j < length (ud_pool s)" "flow (ud_pool s) ! j = (src, [])"
      using ph_ok by (simp_all add: ph phase_ok_def fresh_def)
    show ?thesis
      using ok queue_order [OF _ dist n at [unfolded ph], of "flow (ud_pool s)"]
        flow_try_send [OF j, of "\<lambda>se. se" d] by (auto simp: sys_ok_def t)
  next
    case InsertSession
    then obtain j g where ph: "ph = Queued j g" using st at by (cases ph) auto
    then have t: "t = set_setup n Leaving (insert_session cfg src j g s)"
      using st InsertSession at by simp
    have "flow (ud_pool t) = flow (ud_pool s)"
      by (simp add: t set_setup_def insert_session_def Let_def emit_def split: option.split)
    then show ?thesis
      using ok insert_order [OF _ dist n at [unfolded ph], of "flow (ud_pool s)"] at
      by (simp add: sys_ok_def t set_setup_def)
  qed
qed

lemma flow_update:
  "i < length pool \<Longrightarrow> flow (pool[i := se]) = (flow pool)[i := (se_src se, in_flight se @ se_chan se)]"
  by (simp add: flow_def map_update)

lemma order_dequeue:
  assumes ok: "order_ok F m ss D S" and i: "i < length F" "F ! i = (k, d # ds)"
    and S': "S' = S \<or> S' = S(i := S i @ [d])"
  shows "order_ok (F[i := (k, ds)]) m ss D S'"
proof -
  have whole: "subseq (S i @ d # ds) (from_src k D)" using order_okD(1) [OF ok i(1)] i(2) by simp
  moreover have "subseq (S i @ ds) (S i @ d # ds)"
    by (rule list_emb_append_mono) (auto intro: subseq_order.refl)
  ultimately have "subseq (S' i @ ds) (from_src k D)"
    using S' subseq_order.trans by auto
  then have "subseq (S' i' @ snd (F[i := (k, ds)] ! i')) (from_src (fst (F[i := (k, ds)] ! i')) D)"
    if "i' < length F" for i'
    using that S' order_okD(1) [OF ok that] by (cases "i' = i") auto
  moreover have keys: "fst (F[i := (k, ds)] ! i') = fst (F ! i')" for i'
    using i by (cases "i' = i") simp_all
  moreover have "phase_ok (F[i := (k, ds)]) m D S' k' ph" if "(k', ph) \<in> set ss" for k' ph
    using order_okD(4) [OF ok that] keys i S'
    by (auto simp: phase_ok_def fresh_def nth_list_update split: setup_phase.splits)
  moreover have "S' i' = []" if "length F \<le> i'" for i'
    using order_okD(2) [OF ok that] S' i(1) that by auto
  ultimately show ?thesis
    using order_okD(3) [OF ok] by (intro order_okI) simp_all
qed

lemma session_step_flow:
  assumes "session_step cfg force e se = Some (se', ops)"
  shows "se_src se' = se_src se"
    and "in_flight se' @ se_chan se' = in_flight se @ se_chan se \<and> (\<forall>r. e \<noteq> UpSent r) \<or>
      (\<exists>r d. e = UpSent r \<and> in_flight se = [d] \<and> in_flight se @ se_chan se = d # in_flight se' @ se_chan se')"
  using assms
  by (cases e; auto simp: Let_def up_ends_def down_ends_def in_flight_def
      split: list.splits option.splits if_splits)+

lemma relay_order:
  assumes ok: "sys_ok s D S" and st: "udp_step cfg (Relay i e) s = Some t"
  shows "sys_ok t D (note_sent (Relay i e) s S)"
proof -
  obtain se ops where i: "i < length (ud_pool s)"
    and ss: "session_step cfg (ud_force s) e (ud_pool s ! i) = Some (se, ops)"
    and t: "t = emit ops (s\<lparr>ud_pool := (ud_pool s)[i := se]\<rparr>)"
    using st by (auto split: if_splits option.splits)
  let ?ch = "in_flight se @ se_chan se"
  have flow_t: "flow (ud_pool t) = (flow (ud_pool s))[i := (se_src se, ?ch)]"
    using i by (simp add: t emit_def flow_update)
  have same: "ud_map t = ud_map s" "ud_setups t = ud_setups s" by (simp_all add: t emit_def)
  show ?thesis
    using session_step_flow(2) [OF ss]
  proof (elim disjE exE conjE)
    assume "?ch = in_flight (ud_pool s ! i) @ se_chan (ud_pool s ! i)" and "\<forall>r. e \<noteq> UpSent r"
    then show ?thesis
      using quiet' [OF ok, of t] flow_t same session_step_flow(1) [OF ss] i
      by (cases e) (auto simp: note_sent_def flow_nth list_update_same_conv)
  next
    fix r d
    assume e: "e = UpSent r" and d: "in_flight (ud_pool s ! i) = [d]"
      and c: "in_flight (ud_pool s ! i) @ se_chan (ud_pool s ! i) = d # ?ch"
    have "order_ok ((flow (ud_pool s))[i := (se_src se, ?ch)]) (ud_map s) (ud_setups s) D
        (note_sent (Relay i e) s S)"
    proof (rule order_dequeue)
      show "order_ok (flow (ud_pool s)) (ud_map s) (ud_setups s) D S" using ok by (simp add: sys_ok_def)
      show "flow (ud_pool s) ! i = (se_src se, d # ?ch)"
        using i c session_step_flow(1) [OF ss] by (simp add: flow_nth)
      show "note_sent (Relay i e) s S = S \<or> note_sent (Relay i e) s S = S(i := S i @ [d])"
        by (auto simp: note_sent_def e d split: option.split)
    qed (simp add: i)
    then show ?thesis by (simp add: sys_ok_def flow_t same)
  qed
qed

lemma retain_quiet:
  "flow (ud_pool (retain cfg now es s)) = flow (ud_pool s) \<and>
   set (ud_map (retain cfg now es s)) \<subseteq> set (ud_map s) \<and>
   ud_setups (retain cfg now es s) = ud_setups s \<and> ud_listener (retain cfg now es s) = ud_listener s"
proof (induction cfg now es s rule: retain.induct)
  case (2 cfg now k i g es s)
  show ?case
  proof (cases "verdict (idle_timeout_secs cfg) now (ud_pool s ! i)")
    case None
    then show ?thesis using "2.IH"(1) [OF None] by simp
  next
    case (Some r)
    then show ?thesis
      using "2.IH"(2) [OF Some] by (auto simp: emit_def drop_session_def del_key_def)
  qed
qed simp

lemma drop_sessions_quiet: "flow (ud_pool (drop_sessions es s)) = flow (ud_pool s)"
  by (induction es s rule: drop_sessions.induct) (simp_all add: drop_session_def)

lemma order_step:
  assumes ok: "sys_ok s D S" and inv: "udp_inv cfg s" and st: "udp_step cfg e s = Some t"
  shows "\<exists>D'. D @ in_hand (ud_listener s) @ note_received e = D' @ in_hand (ud_listener t) \<and>
    sys_ok t D' (note_sent e s S)"
proof (cases e)
  case (Listener le)
  then show ?thesis using listener_order [OF ok] st by (simp add: note_sent_def)
next
  case (Setup n se)
  then have n: "n < length (ud_setups s)" and ss: "setup_step cfg n se s = Some t"
    using st by (simp_all split: if_splits)
  have "distinct (map fst (ud_setups s))" using inv by (simp add: udp_inv_def setup_sources_def)
  from setup_order [OF ok this n ss] have "sys_ok t D S" .
  moreover have "ud_listener t = ud_listener s"
    using ss by (cases se) (auto simp: set_setup_def drop_session_def insert_session_def Let_def emit_def
        split: setup_phase.splits option.splits if_splits prod.splits)
  ultimately show ?thesis using Setup by (simp add: note_received_def note_sent_def)
next
  case (Sweep now)
  then have t: "t = sweep cfg now s" using st by (simp split: if_splits)
  have "sys_ok t D S"
    using retain_quiet [of cfg now "ud_map s" s]
    by (intro quiet' [OF ok]) (auto simp: t sweep_def Let_def emit_def)
  then show ?thesis
    using retain_quiet [of cfg now "ud_map s" s] Sweep
    by (auto simp: t sweep_def Let_def emit_def note_received_def note_sent_def)
next
  case MapDropped
  then have t: "t = drop_sessions (ud_map s) s" using st by (simp split: if_splits)
  have "sys_ok t D S"
    by (rule quiet' [OF ok]) (auto simp: t drop_sessions_quiet drop_sessions_map)
  then show ?thesis using MapDropped by (auto simp: t note_received_def note_sent_def)
next
  case (Relay i re)
  have "ud_listener t = ud_listener s"
    using st Relay by (auto simp: emit_def split: if_splits option.splits)
  then show ?thesis
    using relay_order [OF ok st [unfolded Relay]] Relay by (auto simp: note_received_def)
qed (use st quiet' [OF ok, of t] in \<open>auto simp: note_received_def note_sent_def split: if_splits\<close>)

interpretation udp_order: invariant_system "observed_init cfg" "observed_step cfg" "order_inv cfg" for cfg
proof unfold_locales
  show "order_inv cfg b" if "observed_init cfg b" for b
    using that udp.inv_start [of cfg "udp_start cfg"]
    by (auto simp: observed_init_def order_inv_def udp_init_def udp_start_def in_hand_def sys_ok_def
        order_ok_def flow_def)
next
  fix b e b'
  assume inv: "order_inv cfg b" and step: "observed_step cfg e b = Some b'"
  then obtain t where t: "udp_roomy_step cfg e (ob_sys b) = Some t"
    and b': "b' = \<lparr>ob_sys = t, ob_received = ob_received b @ note_received e,
      ob_sent = note_sent e (ob_sys b) (ob_sent b)\<rparr>"
    by (auto simp: observed_step_def split: option.splits)
  obtain D where D: "ob_received b = D @ in_hand (ud_listener (ob_sys b))"
      "sys_ok (ob_sys b) D (ob_sent b)" and u: "udp_inv cfg (ob_sys b)"
    using inv by (auto simp: order_inv_def)
  have "udp_step cfg e (ob_sys b) = Some t" using t by (simp add: udp_roomy_step_def split: if_splits)
  from order_step [OF D(2) u this] show "order_inv cfg b'"
    using udp.inv_next [OF u t] by (auto simp: order_inv_def b' D(1))
qed

section \<open>Properties\<close>

text \<open>
  C16: A UDP session carries its source's datagrams and nothing else: in any interleaving, with any number of
  sessions and of setups, what a session's upstream task has sent are datagrams the listener
  received from that session's source, each at most as often as received and in that order (some
  may be dropped); and the session the map holds for a source is one of that source.
\<close>

theorem udp_datagrams_in_order:
  assumes "reach (observed_init cfg) (observed_step cfg) b" and "i < length (ud_pool (ob_sys b))"
  shows "subseq (ob_sent b i) (from_src (se_src (ud_pool (ob_sys b) ! i)) (ob_received b)) \<and>
    (\<forall>k g. (k, i, g) \<in> set (ud_map (ob_sys b)) \<longrightarrow> se_src (ud_pool (ob_sys b) ! i) = k)"
proof -
  obtain D where D: "ob_received b = D @ in_hand (ud_listener (ob_sys b))"
      and ok: "order_ok (flow (ud_pool (ob_sys b))) (ud_map (ob_sys b)) (ud_setups (ob_sys b)) D (ob_sent b)"
    using udp_order.inv_reachable [OF assms(1)] by (auto simp: order_inv_def sys_ok_def)
  let ?se = "ud_pool (ob_sys b) ! i"
  have "subseq (ob_sent b i @ in_flight ?se @ se_chan ?se) (from_src (se_src ?se) D)"
    using order_okD(1) [OF ok, of i] assms(2) by (simp add: flow_nth)
  then have "subseq (ob_sent b i) (from_src (se_src ?se) D)"
    by (rule subseq_order.trans [rotated]) (rule list_emb_prefix, rule subseq_order.refl)
  then have "subseq (ob_sent b i) (from_src (se_src ?se) (ob_received b))"
    unfolding D by (simp add: list_emb_prefix)
  then show ?thesis
    using order_okD(3) [OF ok, of _ i] assms(2) by (auto simp: flow_nth)
qed

text \<open>A session that relays its first datagram and a second one.\<close>

definition order_events :: "udp_event list" where
  "order_events =
     first_packet @ finish_setup @
     [Listener PollForce, Listener (Recvd demo_src [2]), Listener (Lookup 1),
      Relay 0 (UpTake 2), Relay 0 (UpSent (Some 1)), Relay 0 (UpTake 3), Relay 0 (UpSent (Some 1))]"

definition order_end :: observed where
  "order_end = the (run (observed_step default_config) order_events
     \<lparr>ob_sys = udp_start default_config, ob_received = [], ob_sent = (\<lambda>_. [])\<rparr>)"

lemma order_run:
  "run (observed_step default_config) order_events
     \<lparr>ob_sys = udp_start default_config, ob_received = [], ob_sent = (\<lambda>_. [])\<rparr> = Some order_end"
  "ob_sent order_end 0 = [[1], [2]]" "length (ud_pool (ob_sys order_end)) = 1"
  by (simp_all add: order_end_def order_events_def observed_step_def note_received_def note_sent_def
      in_flight_def udp_eval)

theorem udp_datagrams_in_order_witness:
  "subseq [[1], [2]] (from_src (se_src (ud_pool (ob_sys order_end) ! 0)) (ob_received order_end))"
proof -
  have "reach (observed_init default_config) (observed_step default_config) order_end"
    by (rule run_reach [OF reach_init order_run(1)]) (simp add: observed_init_def)
  from udp_datagrams_in_order [OF this, of 0] show ?thesis using order_run(2,3) by simp
qed

end
