(* ===== verification/Udp_Shutdown.thy ===== *)
theory Udp_Shutdown
  imports Udp_Ledger
begin

text \<open>
  The end of a UDP proxy: once the force token is cancelled, the listener, the setup tasks, the
  cleanup task and the relay tasks all end by moves of their own, none of which waits for a peer; and a
  listener that was told to stop and has nothing left to serve returns on its own.
\<close>

section \<open>Moves and ranks\<close>

text \<open>
  The moves that wait for no datagram and no answer of the network. A setup that waits in
  \<open>open_session\<close> ends on the token (\<open>SetupFailed\<close>). A send in flight is not given up; its end, success
  or not (\<open>UpSent\<close>, \<open>DownSent\<close>), is up to the local socket's send buffer and to no peer.
\<close>

fun own_udp :: "udp_event \<Rightarrow> bool" where
  "own_udp (Listener e) =
     (case e of
        PollForce \<Rightarrow> True | NothingHere \<Rightarrow> True | StopSeen \<Rightarrow> True | DrainTick \<Rightarrow> True
      | DrainDecide \<Rightarrow> True | Lookup now \<Rightarrow> True
      | Mark \<Rightarrow> True | Admit \<Rightarrow> True | _ \<Rightarrow> False)"
| "own_udp (Setup n e) =
     (case e of
        SetupFailed \<Rightarrow> True | CheckForce \<Rightarrow> True | QueueFirst \<Rightarrow> True | InsertSession \<Rightarrow> True
      | SetupEnds \<Rightarrow> True | SetupOpened now \<Rightarrow> False)"
| "own_udp CleanupStops = True"
| "own_udp (Relay i e) =
     (case e of UpStops \<Rightarrow> True | DownStops \<Rightarrow> True | UpSent r \<Rightarrow> True | DownSent r \<Rightarrow> True | _ \<Rightarrow> False)"
| "own_udp _ = False"

definition listener_rank :: "listener \<Rightarrow> nat" where
  "listener_rank l =
     (case l of LReturned \<Rightarrow> 0 | LSelect \<Rightarrow> 1 | LReady \<Rightarrow> 2 | LDrainCheck b \<Rightarrow> 2
      | LMarked src d \<Rightarrow> 4 | LMissed src d \<Rightarrow> 5 | LGot src d \<Rightarrow> 6)"

definition setup_rank :: "setup_phase \<Rightarrow> nat" where
  "setup_rank ph =
     (case ph of Leaving \<Rightarrow> 1 | Opening g d \<Rightarrow> 2 | Opened j g d \<Rightarrow> 2 | Queued j g \<Rightarrow> 2 | Checked j g d \<Rightarrow> 3)"

definition relays_run :: "session \<Rightarrow> nat" where
  "relays_run se =
     (if se_up_runs se then (if se_up_sends se = None then 1 else 2) else 0) +
     (if se_down_runs se then (if se_down_sends se then 2 else 1) else 0)"

definition pool_rank :: "session list \<Rightarrow> nat" where
  "pool_rank pool = sum_list (map relays_run pool)"

definition udp_rank :: "udp_sys \<Rightarrow> nat" where
  "udp_rank s =
     listener_rank (ud_listener s) + sum_list (map (setup_rank \<circ> snd) (ud_setups s)) +
     of_bool (ud_cleanup_runs s) + pool_rank (ud_pool s)"

definition udp_over :: "udp_sys \<Rightarrow> bool" where
  "udp_over s \<longleftrightarrow>
     ud_listener s = LReturned \<and> ud_setups s = [] \<and> \<not> ud_cleanup_runs s \<and>
     list_all (\<lambda>se. \<not> se_up_runs se \<and> \<not> se_down_runs se) (ud_pool s)"

section \<open>What a move leaves alone\<close>

lemma pool_rank_update:
  "i < length pool \<Longrightarrow> pool_rank (pool[i := se]) + relays_run (pool ! i) = pool_rank pool + relays_run se"
  unfolding pool_rank_def by (rule sum_map_update)

lemma pool_rank_upd [simp]:
  assumes "\<And>se. relays_run (f se) = relays_run se"
  shows "pool_rank (upd_session i f pool) = pool_rank pool"
  using assms pool_rank_update [of i pool "f (pool ! i)"] by (auto simp: upd_session_def)

lemma relays_run_simps [simp]:
  "relays_run (se\<lparr>se_tx_open := b\<rparr>) = relays_run se" "relays_run (se\<lparr>se_cancelled := b\<rparr>) = relays_run se"
  "relays_run (se\<lparr>se_last := t\<rparr>) = relays_run se" "relays_run (try_send d se) = relays_run se"
  by (simp_all add: relays_run_def try_send_def)

lemma force_pool_rank [simp]:
  "pool_rank (fold (\<lambda>(k, i, g). upd_session i (\<lambda>se. se\<lparr>se_cancelled := True\<rparr>)) m pool) = pool_rank pool"
  by (induction m arbitrary: pool) auto

lemma pool_rank_zero: "pool_rank pool = 0 \<longleftrightarrow> list_all (\<lambda>se. \<not> se_up_runs se \<and> \<not> se_down_runs se) pool"
  by (induction pool) (auto simp: pool_rank_def relays_run_def)

text \<open>What the shutdown looks at.\<close>

definition shutdown_view where
  "shutdown_view s = (ud_listener s, ud_setups s, ud_cleanup_runs s, pool_rank (ud_pool s), ud_force s)"

lemma view_simps [simp]:
  "shutdown_view (emit ops s) = shutdown_view s"
  "shutdown_view (drop_session i g s) = shutdown_view s"
  by (simp_all add: shutdown_view_def emit_def drop_session_def)

lemma view_rank: "shutdown_view s = (l, ss, c, p, b) \<Longrightarrow>
    udp_rank s = listener_rank l + sum_list (map (setup_rank \<circ> snd) ss) + of_bool c + p \<and> ud_force s = b"
  by (auto simp: shutdown_view_def udp_rank_def)

section \<open>Progress\<close>

lemma listener_moves:
  assumes "ud_force s" and "ud_listener s \<noteq> LReturned"
  shows "\<exists>e t. own_udp (Listener e) \<and> listener_step cfg e s = Some t \<and> ud_force t \<and> udp_rank t < udp_rank s"
proof (cases "ud_listener s")
  case LSelect
  then show ?thesis
    using assms by (intro exI [of _ PollForce])
      (simp add: force_close_def emit_def udp_rank_def listener_rank_def)
next
  case LReady
  then show ?thesis
    using assms by (intro exI [of _ NothingHere]) (simp add: udp_rank_def listener_rank_def)
next
  case (LDrainCheck b)
  then show ?thesis
    using assms by (intro exI [of _ DrainDecide]) (simp add: udp_rank_def listener_rank_def)
next
  case (LGot src d)
  then show ?thesis
    using assms by (intro exI [of _ "Lookup 0"])
      (auto simp: lookup_session_def Let_def emit_def drop_session_def udp_rank_def listener_rank_def
        split: option.split)
next
  case (LMissed src d)
  then show ?thesis
    using assms by (intro exI [of _ Mark]) (simp add: mark_pending_def udp_rank_def listener_rank_def)
next
  case (LMarked src d)
  then show ?thesis
    using assms by (intro exI [of _ Admit])
      (auto simp: admit_source_def emit_def udp_rank_def listener_rank_def setup_rank_def
        split: prod.split sum.split)
qed (use assms in simp)

lemma setup_rank_update:
  "n < length ss \<Longrightarrow> sum_list (map (setup_rank \<circ> snd) (ss[n := (k, ph)])) + setup_rank (snd (ss ! n)) =
     sum_list (map (setup_rank \<circ> snd) ss) + setup_rank ph"
  using sum_map_update [of n ss "setup_rank \<circ> snd" "(k, ph)"] by simp

lemma set_setup_rank:
  assumes "shutdown_view s' = shutdown_view s" and "0 < length (ud_setups s)"
    and "setup_rank ph < setup_rank (snd (ud_setups s ! 0))"
  shows "ud_force (set_setup 0 ph s') = ud_force s \<and> udp_rank (set_setup 0 ph s') < udp_rank s"
  using assms setup_rank_update [of 0 "ud_setups s" "fst (ud_setups s ! 0)" ph]
  by (auto simp: set_setup_def udp_rank_def shutdown_view_def)

lemma insert_view: "shutdown_view (insert_session cfg src j g s) = shutdown_view s"
  by (auto simp: insert_session_def Let_def shutdown_view_def emit_def drop_session_def split: option.split)

lemma setup_moves:
  assumes "ud_force s" and "ud_setups s \<noteq> []"
  shows "\<exists>e t. own_udp (Setup 0 e) \<and> setup_step cfg 0 e s = Some t \<and> ud_force t \<and> udp_rank t < udp_rank s"
proof -
  obtain src ph ss where ss: "ud_setups s = (src, ph) # ss" using assms(2) by (cases "ud_setups s") auto
  note rank = set_setup_rank [of _ s]
  show ?thesis
  proof (cases ph)
    case (Opening g d)
    then show ?thesis
      using ss assms rank [of "s\<lparr>ud_limits := guard_drop g (ud_limits s)\<rparr>" Leaving]
      by (intro exI [of _ SetupFailed]) (simp add: setup_rank_def shutdown_view_def)
  next
    case (Opened j g d)
    let ?s = "drop_session j g
      (s\<lparr>ud_pool := upd_session j (\<lambda>se. se\<lparr>se_cancelled := True\<rparr>) (ud_pool s)\<rparr>)"
    have "shutdown_view ?s = shutdown_view s"
      unfolding view_simps(2) by (simp add: shutdown_view_def)
    from rank [OF this, of Leaving] show ?thesis
      using ss assms Opened by (intro exI [of _ CheckForce]) (simp add: setup_rank_def)
  next
    case (Checked j g d)
    then show ?thesis
      using ss assms rank [of "s\<lparr>ud_pool := upd_session j (try_send d) (ud_pool s)\<rparr>" "Queued j g"]
      by (intro exI [of _ QueueFirst]) (simp add: setup_rank_def shutdown_view_def)
  next
    case (Queued j g)
    then show ?thesis
      using ss assms rank [OF insert_view, of Leaving cfg src j g]
      by (intro exI [of _ InsertSession]) (simp add: setup_rank_def)
  next
    case Leaving
    then show ?thesis
      using ss assms by (intro exI [of _ SetupEnds]) (simp add: setup_rank_def udp_rank_def)
  qed
qed

lemma session_moves:
  assumes "se_up_runs se \<or> se_down_runs se"
  shows "\<exists>e se' ops. own_udp (Relay i e) \<and> session_step cfg True e se = Some (se', ops) \<and>
    relays_run se' < relays_run se"
proof -
  consider "se_up_runs se" "se_up_sends se = None" | "se_up_runs se" "se_up_sends se \<noteq> None"
    | "\<not> se_up_runs se" "se_down_runs se" "se_down_sends se"
    | "\<not> se_up_runs se" "se_down_runs se" "\<not> se_down_sends se"
    using assms by blast
  then show ?thesis
  proof cases
    case 1
    then show ?thesis by (intro exI [of _ UpStops]) (simp add: relays_run_def up_ends_def)
  next
    case 2
    then show ?thesis by (intro exI [of _ "UpSent None"]) (simp add: relays_run_def up_ends_def)
  next
    case 3
    then show ?thesis by (intro exI [of _ "DownSent None"]) (simp add: relays_run_def down_ends_def)
  next
    case 4
    then show ?thesis by (intro exI [of _ DownStops]) (simp add: relays_run_def down_ends_def)
  qed
qed

lemma relay_moves:
  assumes "ud_force s" and "0 < pool_rank (ud_pool s)"
  shows "\<exists>i e t. own_udp (Relay i e) \<and> udp_step cfg (Relay i e) s = Some t \<and> ud_force t \<and>
    udp_rank t < udp_rank s"
proof -
  obtain i where i: "i < length (ud_pool s)" "se_up_runs (ud_pool s ! i) \<or> se_down_runs (ud_pool s ! i)"
    using assms(2) pool_rank_zero [of "ud_pool s"] by (auto simp: list_all_length)
  obtain e se ops where e: "own_udp (Relay i e)" "session_step cfg True e (ud_pool s ! i) = Some (se, ops)"
      "relays_run se < relays_run (ud_pool s ! i)"
    using session_moves [OF i(2), of i cfg] by blast
  then have "pool_rank ((ud_pool s)[i := se]) < pool_rank (ud_pool s)"
    using pool_rank_update [OF i(1), of se] by simp
  then show ?thesis
    using i(1) e assms(1) by (intro exI [of _ i] exI [of _ e]) (simp add: emit_def udp_rank_def)
qed

interpretation udp_shutdown: progress_system "udp_init cfg" "udp_step cfg" "\<lambda>s. True"
    ud_force udp_over own_udp udp_rank for cfg
proof unfold_locales
  fix s
  assume force: "ud_force s" and unfinished: "\<not> udp_over s"
  consider "ud_listener s \<noteq> LReturned" | "ud_setups s \<noteq> []"
    | "ud_listener s = LReturned" "ud_cleanup_runs s" | "0 < pool_rank (ud_pool s)"
    using unfinished pool_rank_zero [of "ud_pool s"] by (auto simp: udp_over_def)
  then show "\<exists>e t. own_udp e \<and> udp_step cfg e s = Some t \<and> ud_force t \<and> udp_rank t < udp_rank s"
  proof cases
    case 1
    then obtain e t where "own_udp (Listener e)" "listener_step cfg e s = Some t" "ud_force t"
        "udp_rank t < udp_rank s"
      using listener_moves [OF force, of cfg] by blast
    then show ?thesis by (intro exI [of _ "Listener e"]) simp
  next
    case 2
    then obtain e t where "own_udp (Setup 0 e)" "setup_step cfg 0 e s = Some t" "ud_force t"
        "udp_rank t < udp_rank s"
      using setup_moves [OF force, of cfg] by blast
    then show ?thesis using 2 by (intro exI [of _ "Setup 0 e"]) simp
  next
    case 3
    then show ?thesis
      using force by (intro exI [of _ CleanupStops]) (simp add: udp_rank_def)
  next
    case 4
    then show ?thesis using relay_moves [OF force, of cfg] by blast
  qed
qed simp_all

section \<open>A drain with nothing left\<close>

text \<open>The listener was told to stop, and holds no datagram, no session and no setup.\<close>

definition udp_idle :: "udp_sys \<Rightarrow> bool" where
  "udp_idle s \<longleftrightarrow>
     ud_stop s \<and> ud_map s = [] \<and> ud_setups s = [] \<and> ud_pending s = {} \<and>
     (case ud_listener s of
        LSelect \<Rightarrow> True | LReady \<Rightarrow> True | LDrainCheck b \<Rightarrow> True | LReturned \<Rightarrow> True | _ \<Rightarrow> False)"

definition idle_rank :: "udp_sys \<Rightarrow> nat" where
  "idle_rank s =
     (case ud_listener s of
        LReturned \<Rightarrow> 0
      | LDrainCheck b \<Rightarrow> (if b then 1 else 6)
      | LReady \<Rightarrow> (if ud_draining s then 2 else 4)
      | LSelect \<Rightarrow> (if ud_draining s then 3 else 5)
      | _ \<Rightarrow> 6)"

lemma drain_moves:
  assumes idle: "udp_idle s" and force: "\<not> ud_force s" and run: "ud_listener s \<noteq> LReturned"
  shows "\<exists>e t. own_udp (Listener e) \<and> listener_step cfg e s = Some t \<and> udp_idle t \<and>
    idle_rank t < idle_rank s"
proof -
  define e where "e = (case ud_listener s of
      LSelect \<Rightarrow> PollForce | LReady \<Rightarrow> (if ud_draining s then DrainTick else StopSeen) | _ \<Rightarrow> DrainDecide)"
  have "own_udp (Listener e)" by (simp add: e_def split: listener.split)
  moreover obtain t where "listener_step cfg e s = Some t" "udp_idle t" "idle_rank t < idle_rank s"
    using idle force run
    by (cases "ud_listener s"; cases "ud_draining s") (auto simp: e_def udp_idle_def idle_rank_def)
  ultimately show ?thesis by blast
qed

lemma idle_rank_bound: "idle_rank s \<le> 6"
  by (simp add: idle_rank_def split: listener.split)

section \<open>Properties\<close>

lemma udp_rank_bound: "udp_rank s \<le> 7 + 3 * length (ud_setups s) + 4 * length (ud_pool s)"
proof -
  have setups: "sum_list (map (setup_rank \<circ> snd) ss) \<le> 3 * length ss" for ss :: "(socket_addr \<times> setup_phase) list"
    by (induction ss) (auto simp: setup_rank_def split: setup_phase.split)
  have pool: "pool_rank pool \<le> 4 * length pool" for pool
    by (induction pool) (auto simp: pool_rank_def relays_run_def)
  have "listener_rank (ud_listener s) \<le> 6" by (simp add: listener_rank_def split: listener.split)
  then show ?thesis
    using setups [of "ud_setups s"] pool [of "ud_pool s"] unfolding udp_rank_def by (cases "ud_cleanup_runs s") auto
qed

text \<open>
  C11: No peer and no resolver can hold up a forced shutdown of a UDP proxy: from every state in which the
  force token is cancelled, moves of the proxy's own tasks alone (the end of a send that is in flight
  included) lead to a state in which the listener has returned, no setup is in flight, and the
  cleanup task and both relay tasks of every session ever opened have ended, and with \<open>n\<close> setups in
  flight and \<open>m\<close> sessions opened at most \<open>7 + 3 * n + 4 * m\<close> of them.
\<close>

theorem udp_forced_shutdown_completes:
  assumes "ud_force s"
  shows "\<exists>es t. run (udp_step cfg) es s = Some t \<and> list_all own_udp es \<and>
    length es \<le> 7 + 3 * length (ud_setups s) + 4 * length (ud_pool s) \<and>
    ud_listener t = LReturned \<and> ud_setups t = [] \<and> \<not> ud_cleanup_runs t \<and>
    list_all (\<lambda>se. \<not> se_up_runs se \<and> \<not> se_down_runs se) (ud_pool t)"
  using udp_shutdown.completes [OF TrueI assms, of cfg] udp_rank_bound [of s]
  unfolding udp_over_def by (meson order_trans)

theorem udp_forced_shutdown_completes_witness:
  "ud_force force_state \<and>
   (\<exists>es t. run (udp_step default_config) es force_state = Some t \<and> list_all own_udp es \<and>
      ud_listener t = LReturned \<and> ud_setups t = [] \<and> \<not> ud_cleanup_runs t)"
proof -
  have "ud_force force_state"
    by (simp add: force_state_def force_events_def udp_eval)
  with udp_forced_shutdown_completes [OF this, of default_config] show ?thesis by blast
qed

end
