(* ===== verification/Relay_Watchdog.thy ===== *)
theory Relay_Watchdog
  imports Tcp_Relay
begin

text \<open>
  The relay drives its watchdog as the loop of \<open>Tcp_Watchdog\<close>: the turns are read off a run of the
  relay, with the activity stamp the copy tasks left, and the loop over these turns returns what
  the watchdog of the relay returned. What is proved of the loop holds of every relay.
\<close>

section \<open>The turns of a run\<close>

text \<open>
  A turn is the check of the deadlines and the \<open>select!\<close> branch that fires after it; other tasks run in
  between. \<open>p\<close> is the time and the stamp of the turn whose \<open>select!\<close> has not fired yet. A check that
  returns has no branch.
\<close>

fun turns_of :: "ProxyConfig \<Rightarrow> u64 \<times> u64 \<Rightarrow> relay_event list \<Rightarrow> relay_sys \<Rightarrow> wd_turn list" where
  "turns_of cfg p [] s = []"
| "turns_of cfg p (e # es) s =
     (case relay_step cfg e s of
        None \<Rightarrow> []
      | Some t \<Rightarrow>
          (case e of
             WdTurn now \<Rightarrow>
               let p' = (now, last_activity (r_shared s)) in
               (case r_wd t of WdReturned _ \<Rightarrow> [(fst p', snd p', Slept)] | _ \<Rightarrow> turns_of cfg p' es t)
           | WdEvent ev \<Rightarrow> (fst p, snd p, ev) # turns_of cfg p es t
           | _ \<Rightarrow> turns_of cfg p es t))"

definition outcome :: "(wd_return \<times> u64) option \<Rightarrow> string option" where
  "outcome r = map_option (\<lambda>((reason, _), _). reason) r"

definition returned :: "relay_sys \<Rightarrow> string option" where
  "returned s = (case r_wd s of WdReturned r \<Rightarrow> Some r | _ \<Rightarrow> None)"

text \<open>The loop state that belongs to a relay whose watchdog has not returned.\<close>

definition loop_at :: "ProxyConfig \<Rightarrow> u64 \<times> u64 \<Rightarrow> wd_state \<Rightarrow> relay_sys \<Rightarrow> bool" where
  "loop_at cfg p w s \<longleftrightarrow>
     (case r_wd s of
        WdTop w' \<Rightarrow> w' = w
      | WdSelect w' \<Rightarrow>
          \<exists>wake. wd_check (idle_timeout_secs cfg) (half_close_timeout_secs cfg) (fst p) (snd p) w =
            Inr (w', wake)
      | WdReturned _ \<Rightarrow> False)"

lemma returned_run_wd:
  "r_wd s = WdReturned r \<Longrightarrow> run (relay_step cfg) es s = Some t \<Longrightarrow> r_wd t = WdReturned r"
proof (induction es arbitrary: s)
  case (Cons e es)
  obtain u where u: "relay_step cfg e s = Some u" "run (relay_step cfg) es u = Some t"
    using Cons.prems(2) by (auto split: option.splits)
  have "r_wd u = WdReturned r"
  proof (cases e)
    case (Copy d ev)
    then show ?thesis using u(1) Cons.prems(1) by (cases d) (auto split: option.splits)
  qed (use u(1) Cons.prems(1) in \<open>auto split: if_splits\<close>)
  then show ?case using Cons.IH u(2) by blast
qed simp

lemma relay_runs_loop:
  "loop_at cfg p w s \<Longrightarrow> run (relay_step cfg) es s = Some t \<Longrightarrow>
     outcome (watchdog (idle_timeout_secs cfg) (half_close_timeout_secs cfg) w (turns_of cfg p es s)) =
       returned t"
proof (induction es arbitrary: s p w)
  case Nil
  then show ?case by (auto simp: outcome_def returned_def loop_at_def split: wd_phase.splits)
next
  case (Cons e es)
  obtain u where u: "relay_step cfg e s = Some u" "run (relay_step cfg) es u = Some t"
    using Cons.prems(2) by (auto split: option.splits)
  have ret: "returned t = Some r" if "r_wd u = WdReturned r" for r
    using returned_run_wd [OF that u(2)] by (simp add: returned_def)
  show ?case
  proof (cases e)
    case (Copy d ev)
    then have "r_wd u = r_wd s" using u(1) by (cases d) (auto split: option.splits)
    then show ?thesis
      using Cons.IH [OF _ u(2), of p w] Cons.prems(1) u(1) Copy by (simp add: loop_at_def)
  next
    case TokenFires
    then have "r_wd u = r_wd s" using u(1) by (auto split: if_splits)
    then show ?thesis
      using Cons.IH [OF _ u(2), of p w] Cons.prems(1) u(1) TokenFires by (simp add: loop_at_def)
  next
    case (WdTurn now)
    then have top: "r_wd s = WdTop w"
      using u(1) Cons.prems(1) by (auto simp: loop_at_def split: wd_phase.splits)
    show ?thesis
    proof (cases "wd_check (idle_timeout_secs cfg) (half_close_timeout_secs cfg) now
        (last_activity (r_shared s)) w")
      case (Inl r)
      then have "r_wd u = WdReturned (fst r)"
        using u(1) WdTurn top by (auto simp: wd_returns_def)
      then show ?thesis
        using Inl WdTurn u(1) ret by (cases r) (simp add: outcome_def Let_def)
    next
      case (Inr x)
      then have "r_wd u = WdSelect (fst x)"
        using u(1) WdTurn top by (cases x) auto
      then show ?thesis
        using Inr WdTurn u Cons.IH [of "(now, last_activity (r_shared s))" w u]
        by (cases x) (simp add: loop_at_def Let_def)
    qed
  next
    case (WdEvent ev)
    then obtain w' wake where sel: "r_wd s = WdSelect w'"
      and chk: "wd_check (idle_timeout_secs cfg) (half_close_timeout_secs cfg) (fst p) (snd p) w =
        Inr (w', wake)"
      using u(1) Cons.prems(1) by (auto simp: loop_at_def split: wd_phase.splits)
    show ?thesis
    proof (cases "wd_select ev w'")
      case (Inl r)
      then have "r_wd u = WdReturned (fst r)"
        using u(1) WdEvent sel by (auto simp: wd_returns_def split: if_splits)
      then show ?thesis
        using Inl WdEvent u(1) chk ret by (cases r) (simp add: outcome_def)
    next
      case (Inr w'')
      then have "r_wd u = WdTop w''"
        using u(1) WdEvent sel by (auto split: if_splits)
      then show ?thesis
        using Inr WdEvent u chk Cons.IH [of p w'' u] by (simp add: loop_at_def)
    qed
  next
    case Close
    then show ?thesis
      using u(1) Cons.prems(1) by (auto simp: loop_at_def split: wd_phase.splits)
  qed
qed

section \<open>Why a relay closes\<close>

text \<open>
  A turn at time \<open>since\<close>, somewhere in the run \<open>es\<close>, at which a direction had already delivered all it
  read and shut its write side down.
\<close>

definition half_open_turn :: "ProxyConfig \<Rightarrow> relay_sys \<Rightarrow> relay_event list \<Rightarrow> u64 \<Rightarrow> bool" where
  "half_open_turn cfg s0 es since \<longleftrightarrow>
     (\<exists>fs fs' s. es = fs @ WdTurn since # fs' \<and> run (relay_step cfg) fs s0 = Some s \<and>
        (\<exists>d. dir_complete d s))"

text \<open>A timer of \<open>secs\<close> seconds on the stamp \<open>t\<close> has run out at \<open>now\<close> (the sum saturates).\<close>

definition ran_out :: "u64 \<Rightarrow> u64 \<Rightarrow> u64 \<Rightarrow> bool" where
  "ran_out t secs now \<longleftrightarrow> 0 < unat secs \<and> min (deadline t secs) clock_max \<le> unat now"

text \<open>
  The event \<open>e\<close>, which comes after the run \<open>es\<close> from \<open>s0\<close> to \<open>s\<close>, is a true occasion to close a connection for
  the reason \<open>r\<close>.
\<close>

definition occasion :: "ProxyConfig \<Rightarrow> relay_sys \<Rightarrow> relay_event list \<Rightarrow> relay_sys \<Rightarrow> relay_event \<Rightarrow> string \<Rightarrow> bool" where
  "occasion cfg s0 es s e r \<longleftrightarrow>
     (case e of
        WdTurn now \<Rightarrow>
          r = ''eof'' \<and> (\<forall>d. dir_complete d s) \<or>
          r = ''idle_timeout'' \<and> ran_out (last_activity (r_shared s)) (idle_timeout_secs cfg) now \<or>
          r = ''half_close_timeout'' \<and> ran_out (last_activity (r_shared s)) (half_close_timeout_secs cfg) now \<and>
            (\<exists>since. half_open_turn cfg s0 (es @ [e]) since \<and> ran_out since (half_close_timeout_secs cfg) now)
      | WdEvent (Recv d Err) \<Rightarrow> r = ''reset'' \<and> dir_ended d s \<and> end_is (dir_copy d s) = Err
      | WdEvent ShutdownSeen \<Rightarrow> r = ''shutdown'' \<and> r_shutdown s
      | _ \<Rightarrow> False)"

text \<open>The time at which the half-close timer of the loop was armed, if it was.\<close>

definition armed :: "relay_sys \<Rightarrow> u64 option" where
  "armed s =
     (case r_wd s of WdTop w \<Rightarrow> half_close_since w | WdSelect w \<Rightarrow> half_close_since w | WdReturned _ \<Rightarrow> None)"

lemma time_left_ran_out: "0 < secs \<Longrightarrow> time_left t secs now = 0 \<Longrightarrow> ran_out t secs now"
  by (auto simp: ran_out_def word_zero_iff_unat unat_time_left deadline_def pos_word_unat min_def
      split: if_splits)

lemma ran_out_max: "ran_out (max t t') secs now \<Longrightarrow> ran_out t secs now \<and> ran_out t' secs now"
  by (auto simp: ran_out_def deadline_def sat_unat)

lemma half_open_later: "half_open_turn cfg s0 es since \<Longrightarrow> half_open_turn cfg s0 (es @ fs) since"
  unfolding half_open_turn_def by (metis append.assoc append_Cons)

text \<open>One step: it arms the timer at a turn with a direction complete, or returns on a true occasion.\<close>

lemma waiting_complete:
  assumes "relay_inv cfg s" and "r_wd s = WdTop w"
  shows "(up_done w \<longrightarrow> dir_complete Up s) \<and> (down_done w \<longrightarrow> dir_complete Down s)"
  using assms by (fastforce simp: relay_inv_def wd_inv_def wd_waits_def dest: spec [of _ Up] spec [of _ Down])

lemma turn_occasion:
  assumes inv: "relay_inv cfg s" and prefix: "run (relay_step cfg) es s0 = Some s"
    and armed: "\<And>since. armed s = Some since \<Longrightarrow> half_open_turn cfg s0 es since"
    and step: "relay_step cfg (WdTurn now) s = Some t"
  shows "(\<forall>since. armed t = Some since \<longrightarrow> half_open_turn cfg s0 (es @ [WdTurn now]) since) \<and>
    (\<forall>r. r_wd t = WdReturned r \<longrightarrow> occasion cfg s0 es s (WdTurn now) r)"
proof -
  obtain w where w: "r_wd s = WdTop w" using step by (auto split: wd_phase.splits)
  note complete = waiting_complete [OF inv w]
  let ?act = "last_activity (r_shared s)" and ?idle = "idle_timeout_secs cfg" and ?hc = "half_close_timeout_secs cfg"
  have half: "half_open_turn cfg s0 (es @ [WdTurn now]) (armed_at now w)" if "up_done w \<or> down_done w"
  proof (cases "half_close_since w")
    case None
    then show ?thesis
      using that complete prefix unfolding half_open_turn_def armed_at_def
      by (intro exI [of _ es] exI [of _ "[]"] exI [of _ s]) auto
  next
    case (Some since)
    then show ?thesis
      using armed [of since] w half_open_later by (simp add: armed_def armed_at_def)
  qed
  show ?thesis
  proof (cases "wd_check ?idle ?hc now ?act w")
    case (Inl x)
    then have t: "r_wd t = WdReturned (fst x)" using step w by (auto simp: wd_returns_def)
    consider (eof) "x = (''eof'', False)" "up_done w" "down_done w"
      | (idle) "x = (''idle_timeout'', True)" "0 < ?idle" "time_left ?act ?idle now = 0"
      | (grace) "x = (''half_close_timeout'', True)" "0 < ?hc" "up_done w \<or> down_done w"
          "time_left (max (armed_at now w) ?act) ?hc now = 0"
      using Inl by (auto simp: wd_check_unfold Let_def split: if_split_asm)
    then have "occasion cfg s0 es s (WdTurn now) (fst x)"
    proof cases
      case grace
      then show ?thesis
        using ran_out_max [OF time_left_ran_out, of ?hc "armed_at now w" ?act now] half
        by (auto simp: occasion_def)
    qed (use complete time_left_ran_out in \<open>auto simp: occasion_def all_Dir\<close>)
    then show ?thesis using t by (simp add: armed_def)
  next
    case (Inr x)
    then obtain w' wake where x: "wd_check ?idle ?hc now ?act w = Inr (w', wake)" by (cases x) auto
    then have t: "r_wd t = WdSelect w'" using step w by auto
    have "half_close_since w' = half_close_since w \<or>
        half_close_since w' = Some (armed_at now w) \<and> (up_done w \<or> down_done w)"
      using x by (auto simp: wd_check_unfold Let_def split: if_split_asm)
    then show ?thesis
      using t half armed w half_open_later by (auto simp: armed_def)
  qed
qed

lemma select_occasion:
  assumes inv: "relay_inv cfg s" and step: "relay_step cfg (WdEvent ev) s = Some t"
  shows "(armed t = armed s \<or> armed t = None) \<and> (\<forall>r. r_wd t = WdReturned r \<longrightarrow> occasion cfg s0 es s (WdEvent ev) r)"
proof -
  obtain w where w: "r_wd s = WdSelect w" and ready: "select_ready s w ev"
    using step by (auto split: wd_phase.splits if_splits)
  show ?thesis
  proof (cases "wd_select ev w")
    case (Inr w')
    then have "r_wd t = WdTop w'" using step w ready by auto
    moreover have "half_close_since w' = half_close_since w"
      using Inr by (cases "(ev, w)" rule: wd_select.cases) auto
    ultimately show ?thesis using w by (simp add: armed_def)
  next
    case (Inl x)
    then have t: "r_wd t = WdReturned (fst x)" using step w ready by (auto simp: wd_returns_def)
    have "ev = ShutdownSeen \<and> x = (''shutdown'', True) \<or> (\<exists>d. ev = Recv d Err \<and> x = (''reset'', True))"
      using Inl by (cases "(ev, w)" rule: wd_select.cases) auto
    then have "occasion cfg s0 es s (WdEvent ev) (fst x)"
    proof
      assume "ev = ShutdownSeen \<and> x = (''shutdown'', True)"
      then show ?thesis using ready by (simp add: occasion_def select_ready_def)
    next
      assume "\<exists>d. ev = Recv d Err \<and> x = (''reset'', True)"
      then obtain d where d: "ev = Recv d Err" "fst x = ''reset''" by auto
      then have "(d, Err) \<in> set (done_chan (r_shared s))"
        using ready by (auto simp: select_ready_def) (metis list.set_sel(1))
      then show ?thesis
        using inv d by (auto simp: occasion_def relay_inv_def chan_inv_def)
    qed
    then show ?thesis using t by (simp add: armed_def)
  qed
qed

lemma quiet_wd:
  assumes "relay_step cfg e s = Some t" and "\<forall>now. e \<noteq> WdTurn now" and "\<forall>ev. e \<noteq> WdEvent ev"
  shows "r_wd t = r_wd s"
proof (cases e)
  case (Copy d ev)
  then show ?thesis using assms(1) by (cases d) (auto split: option.splits)
qed (use assms in \<open>auto split: if_splits wd_phase.splits\<close>)

definition closed_by :: "ProxyConfig \<Rightarrow> relay_sys \<Rightarrow> relay_event list \<Rightarrow> string \<Rightarrow> bool" where
  "closed_by cfg s0 es r \<longleftrightarrow>
     (\<exists>es1 e es2 s. es = es1 @ e # es2 \<and> run (relay_step cfg) es1 s0 = Some s \<and> occasion cfg s0 es1 s e r)"

lemma closed_by_later: "closed_by cfg s0 es r \<Longrightarrow> closed_by cfg s0 (es @ fs) r"
  unfolding closed_by_def by (metis append.assoc append_Cons)

lemma closed_by_last:
  "run (relay_step cfg) es s0 = Some s \<Longrightarrow> occasion cfg s0 es s e r \<Longrightarrow> closed_by cfg s0 (es @ [e]) r"
  unfolding closed_by_def by blast

lemma relay_occasions:
  assumes "s0 = relay_start start" and "run (relay_step cfg) es s0 = Some t"
  shows "(\<forall>since. armed t = Some since \<longrightarrow> half_open_turn cfg s0 es since) \<and>
    (\<forall>r. r_wd t = WdReturned r \<longrightarrow> closed_by cfg s0 es r)"
  using assms(2)
proof (induction es arbitrary: t rule: rev_induct)
  case Nil
  then have "r_wd t = WdTop wd_start" using assms(1) by (auto simp: relay_start_def)
  then show ?case by (simp add: armed_def wd_start_def)
next
  case (snoc e es)
  obtain s where s: "run (relay_step cfg) es s0 = Some s" and step: "relay_step cfg e s = Some t"
    using snoc.prems by (auto simp: run_append split: option.splits)
  note IH = snoc.IH [OF s]
  have inv: "relay_inv cfg s"
    by (rule relay.inv_along_run [OF _ s]) (simp add: assms(1) relay_start_inv)
  show ?case
  proof (cases e)
    case (WdTurn now)
    have "half_open_turn cfg s0 es since" if "armed s = Some since" for since using IH that by blast
    from turn_occasion [OF inv s this step [unfolded WdTurn]] show ?thesis
      using closed_by_last [OF s] WdTurn by blast
  next
    case (WdEvent ev)
    from select_occasion [OF inv step [unfolded WdEvent], of s0 es] show ?thesis
      using closed_by_last [OF s] WdEvent IH half_open_later by (metis option.distinct(1))
  next
    case (Copy d ev)
    then have "r_wd t = r_wd s" by (intro quiet_wd [OF step]) auto
    then show ?thesis using IH half_open_later closed_by_later by (simp add: armed_def)
  next
    case TokenFires
    then have "r_wd t = r_wd s" by (intro quiet_wd [OF step]) auto
    then show ?thesis using IH half_open_later closed_by_later by (simp add: armed_def)
  next
    case Close
    then have "r_wd t = r_wd s" by (intro quiet_wd [OF step]) auto
    then show ?thesis using IH half_open_later closed_by_later by (simp add: armed_def)
  qed
qed

section \<open>Properties\<close>

text \<open>
  C19: Every close has one of the five documented reasons, and at some point of the connection's run that
  reason was true: \<open>eof\<close> at a turn of the watchdog where both directions had ended cleanly with
  everything delivered; \<open>reset\<close> where a direction that had failed was reported; \<open>shutdown\<close> where the
  shutdown token was seen; \<open>idle_timeout\<close> at a turn whose time was at or past the idle deadline of
  the last chunk read, with the timeout enabled; \<open>half_close_timeout\<close> at a turn that was past the
  half-close deadline both of the last chunk read and of an earlier turn (or this one) at which
  one direction was already complete.
\<close>

theorem relay_reason_justified:
  assumes "run (relay_step cfg) es (relay_start start) = Some t" and "r_closed t = Some (u, v, r)"
  shows "\<exists>es1 e es2 s. es = es1 @ e # es2 \<and> run (relay_step cfg) es1 (relay_start start) = Some s \<and>
    (case e of
       WdTurn now \<Rightarrow>
         r = ''eof'' \<and> (\<forall>d. dir_complete d s) \<or>
         r = ''idle_timeout'' \<and> ran_out (last_activity (r_shared s)) (idle_timeout_secs cfg) now \<or>
         r = ''half_close_timeout'' \<and> ran_out (last_activity (r_shared s)) (half_close_timeout_secs cfg) now \<and>
           (\<exists>since. half_open_turn cfg (relay_start start) (es1 @ [e]) since \<and>
              ran_out since (half_close_timeout_secs cfg) now)
     | WdEvent (Recv d Err) \<Rightarrow> r = ''reset'' \<and> dir_ended d s \<and> end_is (dir_copy d s) = Err
     | WdEvent ShutdownSeen \<Rightarrow> r = ''shutdown'' \<and> r_shutdown s
     | _ \<Rightarrow> False)"
proof -
  have "relay_inv cfg t" by (rule relay.inv_along_run [OF relay_start_inv assms(1)])
  then have "r_wd t = WdReturned r" using assms(2) by (auto simp: relay_inv_def closed_inv_def)
  then have "closed_by cfg (relay_start start) es r" using relay_occasions [OF refl assms(1)] by blast
  then show ?thesis by (simp only: closed_by_def occasion_def)
qed

text \<open>The client ends its stream and the upstream stays silent for the half-close grace of 30 s.\<close>

definition half_open_events :: "relay_event list" where
  "half_open_events =
     [Copy Up Poll, Copy Up ReadEof, Copy Up ShutDone, Copy Up Report, WdTurn 10, WdEvent (Recv Up Eof),
      WdTurn 20, WdEvent Slept, WdTurn 30020, Copy Down Poll, Copy Down Report, Close]"

theorem relay_reason_justified_witness:
  "\<exists>es1 e es2 s. half_open_events = es1 @ e # es2 \<and> run (relay_step demo_cfg) es1 (relay_start 0) = Some s \<and>
     (\<exists>now. e = WdTurn now \<and> ran_out (last_activity (r_shared s)) 30 now)"
proof -
  define t where "t = the (run (relay_step demo_cfg) half_open_events (relay_start 0))"
  have run: "run (relay_step demo_cfg) half_open_events (relay_start 0) = Some t"
    and closed: "r_closed t = Some (0, 0, ''half_close_timeout'')"
    by (simp_all add: t_def half_open_events_def relay_eval)
  have cfg: "half_close_timeout_secs demo_cfg = 30" by (simp add: demo_cfg_def default_config_def default_consts)
  obtain es1 e es2 s where split: "half_open_events = es1 @ e # es2" "run (relay_step demo_cfg) es1 (relay_start 0) = Some s"
    and e: "case e of
       WdTurn now \<Rightarrow>
         ''half_close_timeout'' = ''eof'' \<and> (\<forall>d. dir_complete d s) \<or>
         ''half_close_timeout'' = ''idle_timeout'' \<and> ran_out (last_activity (r_shared s)) (idle_timeout_secs demo_cfg) now \<or>
         ''half_close_timeout'' = ''half_close_timeout'' \<and>
           ran_out (last_activity (r_shared s)) (half_close_timeout_secs demo_cfg) now \<and>
           (\<exists>since. half_open_turn demo_cfg (relay_start 0) (es1 @ [e]) since \<and>
              ran_out since (half_close_timeout_secs demo_cfg) now)
     | WdEvent (Recv d Err) \<Rightarrow> ''half_close_timeout'' = ''reset'' \<and> dir_ended d s \<and> end_is (dir_copy d s) = Err
     | WdEvent ShutdownSeen \<Rightarrow> ''half_close_timeout'' = ''shutdown'' \<and> r_shutdown s
     | _ \<Rightarrow> False"
    using relay_reason_justified [OF run closed] by blast
  have "\<exists>now. e = WdTurn now \<and> ran_out (last_activity (r_shared s)) 30 now"
    using e cfg by (auto split: relay_event.splits wd_event.splits End.splits)
  then show ?thesis using split by blast
qed

text \<open>
  C21: A connection that moves data is never closed by a timeout, whatever the interleaving: if at every
  turn of its watchdog the last chunk either direction read is less than both timeouts old (clocks
  below the saturation of the counter), its close reason is neither timeout, half-open or not.
\<close>

theorem active_relay_survives:
  assumes "run (relay_step cfg) es (relay_start start) = Some t" and "r_closed t = Some (u, v, reason)"
    and "\<And>now act ev. (now, act, ev) \<in> set (turns_of cfg p es (relay_start start)) \<Longrightarrow>
      unat now < clock_max \<and> unat now < deadline act (idle_timeout_secs cfg) \<and>
      unat now < deadline act (half_close_timeout_secs cfg)"
  shows "reason \<noteq> ''idle_timeout'' \<and> reason \<noteq> ''half_close_timeout''"
proof -
  have "reach relay_init (relay_step cfg) t"
    by (rule run_reach [OF reach_init assms(1)]) (auto simp: relay_init_def)
  from relay.inv_reachable [OF this] have "returned t = Some reason"
    using assms(2) by (auto simp: relay_inv_def closed_inv_def returned_def)
  then obtain c n where "watchdog (idle_timeout_secs cfg) (half_close_timeout_secs cfg) wd_start
      (turns_of cfg p es (relay_start start)) = Some ((reason, c), n)"
    using relay_runs_loop [OF _ assms(1), of p wd_start]
    by (auto simp: loop_at_def relay_start_def outcome_def)
  from watchdog_active [OF this assms(3)] show ?thesis .
qed

theorem active_relay_survives_witness:
  "''eof'' \<noteq> ''idle_timeout'' \<and> ''eof'' \<noteq> ''half_close_timeout''"
proof -
  have run: "run (relay_step demo_cfg) (demo_events @ [Close]) (relay_start 5) = Some demo_closed"
    by (simp only: run_append demo_run demo_close option.case)
  have closed: "r_closed demo_closed = Some (3, 0, ''eof'')" by (simp add: demo_closed_def)
  have "turns_of demo_cfg (0, 0) (demo_events @ [Close]) (relay_start 5) =
      [(8, 7, Recv Up Eof), (9, 7, Recv Down Eof), (10, 7, Slept)]"
    by (simp add: demo_events_def relay_eval)
  then have "unat now < clock_max \<and> unat now < deadline act (idle_timeout_secs demo_cfg) \<and>
      unat now < deadline act (half_close_timeout_secs demo_cfg)"
    if "(now, act, ev) \<in> set (turns_of demo_cfg (0, 0) (demo_events @ [Close]) (relay_start 5))"
    for now act ev
    using that by (auto simp: deadline_def demo_cfg_def default_config_def default_consts)
  from active_relay_survives [OF run closed this] show ?thesis .
qed

end
