(* ===== verification/Proxy_Start.thy ===== *)
theory Proxy_Start
  imports Tcp_Proxy Udp_Open Udp_Order Udp_Shutdown Relay_Watchdog
begin

text \<open>
  How a proxy starts: \<open>run_graceful\<close> of \<open>src/proxy/tcp.rs\<close> and \<open>src/proxy/udp.rs\<close> bind the listen address
  and enter the loops of \<open>Tcp_Serve\<close> and \<open>Udp\<close>; \<open>run_graceful\<close> of \<open>src/proxy/mod.rs\<close> publishes the limits
  and dispatches. Binding is the operating system's, a parameter.
\<close>

section \<open>Starting\<close>

text \<open>A failed bind with the context the code attaches: what was bound, and the cause.\<close>

datatype bind_error = BindFailed string string

definition tcp_run_graceful ::
    "(string \<Rightarrow> string + unit) \<Rightarrow> u64 \<Rightarrow> ProxyConfig \<Rightarrow> bind_error + serve_sys" where
  "tcp_run_graceful bind conn_id cfg =
     bindE (map_err (BindFailed (''bind '' @ cfg_listen cfg)) (bind (cfg_listen cfg)))
       (\<lambda>_. Inr (serve_start cfg conn_id))"

definition udp_run_graceful ::
    "(string \<Rightarrow> string + unit) \<Rightarrow> ProxyConfig \<Rightarrow> bind_error + udp_sys" where
  "udp_run_graceful bind cfg =
     bindE (map_err (BindFailed (''UDP bind '' @ cfg_listen cfg)) (bind (cfg_listen cfg)))
       (\<lambda>_. Inr (udp_start cfg))"

datatype running = TcpRuns serve_sys | UdpRuns udp_sys

definition run_graceful ::
    "(string \<Rightarrow> string + unit) \<Rightarrow> (string \<Rightarrow> string + unit) \<Rightarrow> u64 \<Rightarrow> ProxyConfig \<Rightarrow>
     metric_op list \<times> (bind_error + running)" where
  "run_graceful tcp_bind udp_bind conn_id cfg =
     proxy_run (\<lambda>c. bindE (tcp_run_graceful tcp_bind conn_id c) (\<lambda>s. Inr (TcpRuns s)))
       (\<lambda>c. bindE (udp_run_graceful udp_bind c) (\<lambda>s. Inr (UdpRuns s))) cfg"

text \<open>
  \<open>run\<close> and \<open>serve\<close> pass one token as both, so it stops and forces at once; for TCP this is \<open>tcp_run_step\<close>
  of \<open>Tcp_Proxy\<close>.
\<close>

definition udp_run_step :: "ProxyConfig \<Rightarrow> udp_event \<Rightarrow> udp_sys \<Rightarrow> udp_sys option" where
  "udp_run_step cfg e s =
     (case e of
        StopToken \<Rightarrow> None
      | ForceToken \<Rightarrow> if ud_force s then None else Some (s\<lparr>ud_stop := True, ud_force := True\<rparr>)
      | _ \<Rightarrow> udp_step cfg e s)"

lemma tokens_kept:
  assumes "udp_step cfg e s = Some t" and "e \<noteq> StopToken" and "e \<noteq> ForceToken"
  shows "ud_stop t = ud_stop s \<and> ud_force t = ud_force s"
proof -
  have ret: "ud_stop (retain cfg now es u) = ud_stop u \<and> ud_force (retain cfg now es u) = ud_force u"
    for now es u
    by (induction cfg now es u rule: retain.induct) (auto simp: emit_def drop_session_def split: option.split)
  have lis: "ud_stop t = ud_stop s \<and> ud_force t = ud_force s" if "listener_step cfg le s = Some t" for le
    using that by (cases le; auto simp: emit_def lookup_session_def mark_pending_def admit_source_def
        force_close_def drop_session_def Let_def
        split: if_splits listener.splits option.splits prod.splits sum.splits)
  have set: "ud_stop t = ud_stop s \<and> ud_force t = ud_force s" if "setup_step cfg n se s = Some t" for n se
    using that by (cases se; auto simp: emit_def set_setup_def insert_session_def drop_session_def Let_def
        split: if_splits setup_phase.splits option.splits prod.splits)
  show ?thesis
    using assms lis set ret
    by (cases e) (auto simp: sweep_def emit_def Let_def split: if_splits option.splits)
qed

text \<open>So whatever holds of every run with two tokens holds of the runs of \<open>run\<close> and \<open>serve\<close>.\<close>

lemma one_token_run:
  "ud_stop s = ud_force s \<Longrightarrow> run (udp_run_step cfg) es s = Some t \<Longrightarrow>
     \<exists>fs. run (udp_step cfg) fs s = Some t"
proof (induction es arbitrary: s)
  case Nil
  then show ?case by (intro exI [of _ "[]"]) simp
next
  case (Cons e es)
  obtain u where u: "udp_run_step cfg e s = Some u" "run (udp_run_step cfg) es u = Some t"
    using Cons.prems(2) by (auto split: option.splits)
  show ?case
  proof (cases "e = ForceToken")
    case True
    then have f: "\<not> ud_force s" and v: "u = s\<lparr>ud_stop := True, ud_force := True\<rparr>"
      using u(1) by (auto simp: udp_run_step_def split: if_splits)
    then obtain fs where "run (udp_step cfg) fs u = Some t"
      using Cons.IH [of u] u(2) by auto
    then show ?thesis
      using f v Cons.prems(1) by (intro exI [of _ "StopToken # ForceToken # fs"]) simp
  next
    case False
    then have st: "udp_step cfg e s = Some u" and ne: "e \<noteq> StopToken"
      using u(1) by (auto simp: udp_run_step_def split: udp_event.splits)
    then obtain fs where "run (udp_step cfg) fs u = Some t"
      using Cons.IH [of u] u(2) Cons.prems(1) tokens_kept [OF st ne False] by auto
    then show ?thesis using st by (intro exI [of _ "e # fs"]) simp
  qed
qed

section \<open>Metric calls\<close>

lemma publish_proxy_ops: "list_all (proxy_op (cfg_name cfg)) (publish_limits cfg)"
  by (simp add: publish_limits_def proxy_op_def well_labelled_def)

lemma serve_proxy_ops:
  "list_all (proxy_op (cfg_name cfg)) (sv_ops s) \<Longrightarrow> serve_step cfg e s = Some t \<Longrightarrow>
     list_all (proxy_op (cfg_name cfg)) (sv_ops t)"
  by (cases e; auto simp: accept_conn_def join_task_def proxy_op_def well_labelled_def
      split: if_splits conn_task.splits serve_phase.splits prod.splits sum.splits)

text \<open>The UDP proxy only appends calls.\<close>

definition appends :: "ProxyConfig \<Rightarrow> udp_sys \<Rightarrow> udp_sys \<Rightarrow> bool" where
  "appends cfg s t \<longleftrightarrow> (\<exists>ops. ud_ops t = ud_ops s @ ops \<and> list_all (proxy_op (cfg_name cfg)) ops)"

lemma appends_same: "ud_ops t = ud_ops s \<Longrightarrow> appends cfg s t"
  by (simp add: appends_def)

lemma appends_trans: "appends cfg s t \<Longrightarrow> appends cfg t u \<Longrightarrow> appends cfg s u"
  by (auto simp: appends_def)

lemma appends_emit: "list_all (proxy_op (cfg_name cfg)) ops \<Longrightarrow> appends cfg s (emit ops s)"
  by (auto simp: appends_def emit_def)

lemma appends_update: "ud_ops s' = ud_ops s \<Longrightarrow> appends cfg s' t \<Longrightarrow> appends cfg s t"
  by (simp add: appends_def)

lemma drop_session_ops [simp]: "ud_ops (drop_session i g s) = ud_ops s"
  by (simp add: drop_session_def)

lemma retain_appends: "appends cfg s (retain cfg now es s)"
proof (induction es arbitrary: s)
  case Nil
  then show ?case by (simp add: appends_def)
next
  case (Cons e es)
  obtain k i g where e: "e = (k, i, g)" by (cases e)
  show ?case
  proof (cases "verdict (idle_timeout_secs cfg) now (ud_pool s ! i)")
    case None
    then show ?thesis using Cons.IH by (simp add: e)
  next
    case (Some reason)
    let ?s = "drop_session i g (s\<lparr>ud_map := del_key k (ud_map s),
      ud_pool := upd_session i (\<lambda>se. se\<lparr>se_cancelled := True\<rparr>) (ud_pool s)\<rparr>)"
    have "appends cfg ?s (emit [Inc ConnectionsClosed [cfg_name cfg, reason]] ?s)"
      by (rule appends_emit) (simp add: proxy_op_def well_labelled_def)
    then have "appends cfg s (emit [Inc ConnectionsClosed [cfg_name cfg, reason]] ?s)"
      by (rule appends_update [rotated]) simp
    from appends_trans [OF this Cons.IH] show ?thesis by (simp add: e Some)
  qed
qed

lemma session_proxy_ops:
  "session_step cfg force e se = Some (se', ops) \<Longrightarrow> list_all (proxy_op (cfg_name cfg)) ops"
  by (cases e) (auto simp: Let_def proxy_op_def well_labelled_def split: list.splits option.splits if_splits)

lemma listener_appends: "listener_step cfg e s = Some t \<Longrightarrow> appends cfg s t"
  by (cases e; auto simp: appends_def emit_def lookup_session_def mark_pending_def admit_source_def
      force_close_def set_active_def Let_def proxy_op_def well_labelled_def
      split: if_splits listener.splits option.splits prod.splits sum.splits)

lemma setup_appends: "setup_step cfg n e s = Some t \<Longrightarrow> appends cfg s t"
  by (cases e; auto simp: appends_def emit_def set_setup_def insert_session_def set_active_def Let_def
      proxy_op_def well_labelled_def split: if_splits setup_phase.splits option.splits prod.splits)

lemma sweep_appends: "appends cfg s (sweep cfg now s)"
  unfolding sweep_def Let_def
  by (rule appends_trans [OF retain_appends appends_emit])
    (simp add: set_active_def proxy_op_def well_labelled_def)

lemma udp_appends:
  assumes "udp_step cfg e s = Some t"
  shows "appends cfg s t"
proof (cases e)
  case (Relay i re)
  then obtain se ops where "session_step cfg (ud_force s) re (ud_pool s ! i) = Some (se, ops)"
      and t: "t = emit ops (s\<lparr>ud_pool := (ud_pool s)[i := se]\<rparr>)"
    using assms by (auto split: if_splits option.splits)
  from session_proxy_ops [OF this(1)] show ?thesis
    unfolding t by (intro appends_update [OF _ appends_emit]) simp_all
qed (use assms listener_appends setup_appends sweep_appends in
      \<open>auto intro: appends_same split: if_splits\<close>)

lemma udp_proxy_ops:
  "list_all (proxy_op (cfg_name cfg)) (ud_ops s) \<Longrightarrow> udp_step cfg e s = Some t \<Longrightarrow>
     list_all (proxy_op (cfg_name cfg)) (ud_ops t)"
  using udp_appends by (fastforce simp: appends_def)

interpretation serve_calls: invariant_system "\<lambda>s. sv_ops s = []" "serve_step cfg"
    "\<lambda>s. list_all (proxy_op (cfg_name cfg)) (sv_ops s)" for cfg
  by unfold_locales (simp_all add: serve_proxy_ops)

interpretation udp_calls: invariant_system "\<lambda>s. ud_ops s = []" "udp_step cfg"
    "\<lambda>s. list_all (proxy_op (cfg_name cfg)) (ud_ops s)" for cfg
  by unfold_locales (simp_all add: udp_proxy_ops)

lemma handle_proxy_ops:
  assumes "relay_done cfg (he_relay env)"
  shows "list_all (proxy_op (cfg_name cfg)) (effect_ops (handle cfg peer env))"
proof (cases rule: handle_cases [of cfg env peer])
  case (relayed pre)
  have app: "effect_ops (pre @ es) = effect_ops pre @ effect_ops es" for es
    by (induction pre rule: effect_ops.induct) simp_all
  have "list_all (proxy_op (cfg_name cfg)) (metric_ops (r_shared (he_relay env)))"
    using relay_done_ops(1) [OF assms] by (auto simp: relay_op_def proxy_op_def list_all_iff)
  then show ?thesis
    using relayed(1,2) by (auto simp: relayed app relayed_def proxy_op_def well_labelled_def)
qed (auto simp: proxy_op_def well_labelled_def)

section \<open>Properties\<close>

text \<open>
  A proxy that starts publishes its limits first, and no metric call of it can panic: under every
  interleaving, every call of the listener, of the connections and of the UDP tasks names as many
  label values as its family has labels, the first of them the name of this proxy, and no counter is
  set or decremented. A proxy fails to start only when its listen address cannot be bound.
\<close>

theorem metric_calls_well_typed:
  assumes "run_graceful tcp_bind udp_bind conn_id cfg = (ops, r)"
  shows "ops = publish_limits cfg \<and> list_all (proxy_op (cfg_name cfg)) ops \<and>
    (case r of
      Inl e \<Rightarrow> (\<exists>cause. (case cfg_protocol cfg of Tcp \<Rightarrow> tcp_bind | Udp \<Rightarrow> udp_bind) (cfg_listen cfg) = Inl cause)
    | Inr (TcpRuns s) \<Rightarrow>
        cfg_protocol cfg = Tcp \<and>
        (\<forall>es t. run (serve_step cfg) es s = Some t \<longrightarrow> list_all (proxy_op (cfg_name cfg)) (sv_ops t)) \<and>
        (\<forall>peer env. relay_done cfg (he_relay env) \<longrightarrow>
           list_all (proxy_op (cfg_name cfg)) (effect_ops (handle cfg peer env)))
    | Inr (UdpRuns s) \<Rightarrow>
        cfg_protocol cfg = Udp \<and>
        (\<forall>es t. run (udp_step cfg) es s = Some t \<longrightarrow> list_all (proxy_op (cfg_name cfg)) (ud_ops t)))"
proof -
  let ?ok = "list_all (proxy_op (cfg_name cfg))"
  have tcp: "?ok (sv_ops t)" if "run (serve_step cfg) es (serve_start cfg conn_id) = Some t" for es t
    using serve_calls.inv_along_run [OF serve_calls.inv_start that] by (simp add: serve_start_def)
  have udp: "?ok (ud_ops t)" if "run (udp_step cfg) es (udp_start cfg) = Some t" for es t
    using udp_calls.inv_along_run [OF udp_calls.inv_start that] by (simp add: udp_start_def)
  have "ops = publish_limits cfg" using assms by (simp add: run_graceful_def proxy_run_def)
  then show ?thesis
    using assms publish_proxy_ops [of cfg] tcp udp handle_proxy_ops [of cfg]
    by (cases "cfg_protocol cfg"; cases "tcp_bind (cfg_listen cfg)"; cases "udp_bind (cfg_listen cfg)")
      (auto simp: run_graceful_def proxy_run_def tcp_run_graceful_def udp_run_graceful_def)
qed

theorem metric_calls_well_typed_witness:
  "list_all (proxy_op ''n'') (publish_limits demo_serve_cfg) \<and> list_all (proxy_op ''n'') (sv_ops demo_stopped)"
proof -
  have start: "run_graceful (\<lambda>_. Inr ()) (\<lambda>_. Inl ''in use'') 1 demo_serve_cfg =
      (publish_limits demo_serve_cfg, Inr (TcpRuns (serve_start demo_serve_cfg 1)))"
    by (simp add: run_graceful_def proxy_run_def tcp_run_graceful_def demo_serve_cfg_def
        default_config_def)
  have "run (serve_step demo_serve_cfg) demo_accepts (serve_start demo_serve_cfg 1) = Some demo_stopped"
    by (simp add: demo_stopped_def demo_accepts_def serve_eval)
  moreover have "cfg_name demo_serve_cfg = ''n''"
    by (simp add: demo_serve_cfg_def default_config_def)
  ultimately show ?thesis using metric_calls_well_typed [OF start] by auto
qed

end
