(* ===== verification/Metrics_Http.thy ===== *)
theory Metrics_Http
  imports Metrics Rust_Str
begin

text \<open>
  The metrics exporter of \<open>src/metrics.rs\<close>: \<open>handle_request\<close>, which reads a request line and answers it,
  and \<open>serve\<close>, the accept loop with its cap on requests in flight. Reads deliver any pieces of the
  client's bytes; rendering the registry is a parameter. Text is decoded as
  \<open>String::from_utf8_lossy\<close> does, into code points.
\<close>

section \<open>Text\<close>

text \<open>
  The lossy decoder. Its state is the sequence being read, if any: how many continuation bytes are
  missing, the range the next one must lie in, and the bits so far. A broken sequence becomes one
  replacement character and the byte that broke it is read anew.
\<close>

type_synonym utf8_state = "(nat \<times> nat \<times> nat \<times> nat) option"

definition utf8_lead :: "nat \<Rightarrow> utf8_state" where
  "utf8_lead b =
     (if 0xC2 \<le> b \<and> b \<le> 0xDF then Some (1, 0x80, 0xBF, b - 0xC0)
      else if b = 0xE0 then Some (2, 0xA0, 0xBF, 0)
      else if b = 0xED then Some (2, 0x80, 0x9F, 0xD)
      else if 0xE1 \<le> b \<and> b \<le> 0xEF then Some (2, 0x80, 0xBF, b - 0xE0)
      else if b = 0xF0 then Some (3, 0x90, 0xBF, 0)
      else if b = 0xF4 then Some (3, 0x80, 0x8F, 4)
      else if 0xF1 \<le> b \<and> b \<le> 0xF3 then Some (3, 0x80, 0xBF, b - 0xF0)
      else None)"

definition utf8_begin :: "nat \<Rightarrow> nat list \<times> utf8_state" where
  "utf8_begin b =
     (if b < 0x80 then ([b], None)
      else case utf8_lead b of Some st \<Rightarrow> ([], Some st) | None \<Rightarrow> ([0xFFFD], None))"

definition utf8_next :: "utf8_state \<Rightarrow> nat \<Rightarrow> nat list \<times> utf8_state" where
  "utf8_next st b =
     (case st of
        None \<Rightarrow> utf8_begin b
      | Some (k, lo, hi, acc) \<Rightarrow>
          if lo \<le> b \<and> b \<le> hi then
            (if k = 1 then ([acc * 64 + (b - 0x80)], None)
             else ([], Some (k - 1, 0x80, 0xBF, acc * 64 + (b - 0x80))))
          else (0xFFFD # fst (utf8_begin b), snd (utf8_begin b)))"

fun utf8 :: "utf8_state \<Rightarrow> nat list \<Rightarrow> nat list" where
  "utf8 st [] = (case st of None \<Rightarrow> [] | Some _ \<Rightarrow> [0xFFFD])"
| "utf8 st (b # bs) = fst (utf8_next st b) @ utf8 (snd (utf8_next st b)) bs"

definition from_utf8_lossy :: "u8 list \<Rightarrow> nat list" where
  "from_utf8_lossy bs = utf8 None (map unat bs)"

text \<open>
  \<open>lines().next().unwrap_or("")\<close>: up to the first line feed, without a carriage return right before
  it.
\<close>

definition first_line :: "nat list \<Rightarrow> nat list" where
  "first_line cs =
     (let l = takeWhile (\<lambda>c. c \<noteq> 10) cs in
      if 10 \<in> set cs \<and> l \<noteq> [] \<and> List.last l = 13 then butlast l else l)"

text \<open>\<open>char::is_whitespace\<close>, and the words of \<open>split_whitespace\<close>.\<close>

definition is_whitespace :: "nat \<Rightarrow> bool" where
  "is_whitespace c \<longleftrightarrow>
     9 \<le> c \<and> c \<le> 13 \<or> 0x2000 \<le> c \<and> c \<le> 0x200A \<or>
     c \<in> {32, 0x85, 0xA0, 0x1680, 0x2028, 0x2029, 0x202F, 0x205F, 0x3000}"

fun split_whitespace :: "nat list \<Rightarrow> nat list \<Rightarrow> nat list list" where
  "split_whitespace acc [] = (if acc = [] then [] else [acc])"
| "split_whitespace acc (c # cs) =
     (if is_whitespace c then (if acc = [] then [] else [acc]) @ split_whitespace [] cs
      else split_whitespace (acc @ [c]) cs)"

definition codes :: "string \<Rightarrow> nat list" where
  "codes s = map of_char s"

definition word_at :: "nat \<Rightarrow> nat list list \<Rightarrow> nat list" where
  "word_at i ws = (if i < length ws then ws ! i else [])"

section \<open>One request\<close>

definition REQUEST_BUF :: nat where "REQUEST_BUF = 1024"

text \<open>
  The read loop: \<open>buf\<close> is what is filled so far, a read fills at most the rest. \<open>Inr None\<close> is a loop
  that still waits for its next read when the reads are used up.
\<close>

fun read_head :: "u8 list \<Rightarrow> ('e + u8 list) list \<Rightarrow> 'e + u8 list option" where
  "read_head buf [] = Inr None"
| "read_head buf (Inl e # rs) = Inl e"
| "read_head buf (Inr d # rs) =
     (let buf' = buf @ take (REQUEST_BUF - length buf) d in
      if d = [] \<or> 10 \<in> set buf' \<or> length buf' = REQUEST_BUF then Inr (Some buf')
      else read_head buf' rs)"

definition is_metrics :: "nat list \<Rightarrow> bool" where
  "is_metrics line =
     (let parts = split_whitespace [] line; req_method = word_at 0 parts; path = word_at 1 parts in
      req_method = codes ''GET'' \<and> (path = codes ''/metrics'' \<or> take 9 path = codes ''/metrics?''))"

definition bytes_of :: "string \<Rightarrow> u8 list" where
  "bytes_of s = map (\<lambda>c. of_nat (of_char c)) s"

definition crlf :: string where "crlf = [CHR 0x0D, CHR 0x0A]"

definition response :: "u8 list \<Rightarrow> nat list \<Rightarrow> u8 list" where
  "response rendered line =
     (let (status, content_type, body) =
        (if is_metrics line then (''200 OK'', ''text/plain; version=0.0.4'', rendered)
         else (''404 Not Found'', ''text/plain'', bytes_of (''404 not found'' @ [CHR 0x0A])))
      in bytes_of (''HTTP/1.1 '' @ status @ crlf @ ''Content-Type: '' @ content_type @ crlf @
           ''Content-Length: '' @ show_nat (length body) @ crlf @ ''Connection: close'' @ crlf @ crlf) @ body)"

text \<open>
  \<open>Metrics::render\<close>: the buffer as the encoder leaves it; a failure is logged, what was written so far is
  served.
\<close>

definition render :: "('r \<Rightarrow> u8 list \<times> string option) \<Rightarrow> 'r \<Rightarrow> u8 list \<times> string option" where
  "render encode registry =
     (let (buf, err) = encode registry in (buf, map_option (\<lambda>e. ''metrics encode error: '' @ e) err))"

text \<open>
  \<open>handle_request\<close>: the response it wrote in full, or the error of a read or of a write (of the header,
  the body, or the flush), or nothing yet. What follows, the shutdown of the write side and the
  drain of the client's remaining bytes for at most a second, cannot fail it.
\<close>

definition write_error :: "'e option \<Rightarrow> 'e option \<Rightarrow> 'e option \<Rightarrow> 'e option" where
  "write_error header body flush =
     (case header of Some e \<Rightarrow> Some e | None \<Rightarrow> (case body of Some e \<Rightarrow> Some e | None \<Rightarrow> flush))"

definition handle_request ::
    "u8 list \<Rightarrow> 'e option \<Rightarrow> ('e + u8 list) list \<Rightarrow> 'e + u8 list option" where
  "handle_request rendered write_err reads =
     bindE (read_head [] reads)
       (\<lambda>h. case h of
              None \<Rightarrow> Inr None
            | Some buf \<Rightarrow>
                (case write_err of
                   Some e \<Rightarrow> Inl e
                 | None \<Rightarrow> Inr (Some (response rendered (first_line (from_utf8_lossy buf))))))"

section \<open>The read loop and the first line\<close>

lemma utf8_newline:
  "(\<forall>k lo hi acc. st = Some (k, lo, hi, acc) \<longrightarrow> 0x80 \<le> lo) \<Longrightarrow>
     utf8 st (xs @ 10 # ys) = utf8 st xs @ 10 # utf8 None ys"
proof (induction xs arbitrary: st)
  case Nil
  show ?case
  proof (cases st)
    case None
    then show ?thesis by (simp add: utf8_next_def utf8_begin_def)
  next
    case (Some q)
    obtain k lo hi acc where q: "q = (k, lo, hi, acc)" by (cases q)
    then have "\<not> lo \<le> 10" using Nil.prems Some by force
    then show ?thesis by (simp add: Some q utf8_next_def utf8_begin_def)
  qed
next
  case (Cons x xs)
  have "\<forall>k lo hi acc. utf8_lead x = Some (k, lo, hi, acc) \<longrightarrow> 0x80 \<le> lo" for x
    by (simp add: utf8_lead_def)
  then have "\<forall>k lo hi acc. snd (utf8_begin x) = Some (k, lo, hi, acc) \<longrightarrow> 0x80 \<le> lo"
    by (simp add: utf8_begin_def split: option.split)
  then have "\<forall>k lo hi acc. snd (utf8_next st x) = Some (k, lo, hi, acc) \<longrightarrow> 0x80 \<le> lo"
    by (simp add: utf8_next_def split: option.split prod.split)
  then show ?case using Cons.IH by simp
qed

lemma first_line_newline: "first_line (xs @ 10 # ys) = first_line (xs @ [10])"
proof -
  have "takeWhile (\<lambda>c. c \<noteq> 10) (xs @ 10 # zs) = takeWhile (\<lambda>c. c \<noteq> 10) xs" for zs
    by (induction xs) auto
  then show ?thesis by (simp add: first_line_def Let_def)
qed

lemma first_line_lossy:
  "first_line (from_utf8_lossy (xs @ 10 # ys)) = first_line (from_utf8_lossy (xs @ [10]))"
  using first_line_newline [of "utf8 None (map unat xs)"]
  by (simp add: from_utf8_lossy_def utf8_newline)

lemma prefix_with_newline:
  assumes "take n b @ rest = xs @ 10 # ys" and "(10 :: u8) \<notin> set xs"
  shows "10 \<in> set (take n b) \<longleftrightarrow> length xs < length (take n b)"
    and "10 \<in> set (take n b) \<Longrightarrow> \<exists>ys'. take n b = xs @ 10 # ys'"
proof -
  have split: "(\<exists>us. take n b = xs @ us \<and> us @ rest = 10 # ys) \<or>
      (\<exists>us. take n b @ us = xs \<and> rest = us @ 10 # ys)"
    using assms(1) by (auto simp: append_eq_append_conv2)
  show ex: "\<exists>ys'. take n b = xs @ 10 # ys'" if "10 \<in> set (take n b)"
    using split
  proof
    assume "\<exists>us. take n b = xs @ us \<and> us @ rest = 10 # ys"
    then obtain us where us: "take n b = xs @ us" "us @ rest = 10 # ys" by blast
    have "us \<noteq> []" using us(1) that assms(2) by (metis append_Nil2)
    then obtain u us' where "us = u # us'" by (cases us) auto
    then show ?thesis using us by auto
  next
    assume "\<exists>us. take n b @ us = xs \<and> rest = us @ 10 # ys"
    then show ?thesis using that assms(2) by (metis Un_iff set_append)
  qed
  show "10 \<in> set (take n b) \<longleftrightarrow> length xs < length (take n b)"
  proof
    assume "10 \<in> set (take n b)"
    then obtain ys' where "take n b = xs @ 10 # ys'" using ex by blast
    then show "length xs < length (take n b)" by simp
  next
    assume l: "length xs < length (take n b)"
    from split show "10 \<in> set (take n b)"
    proof
      assume "\<exists>us. take n b = xs @ us \<and> us @ rest = 10 # ys"
      then obtain us where us: "take n b = xs @ us" "us @ rest = 10 # ys" by blast
      then have "us \<noteq> []" using l by auto
      then have "10 \<in> set us" using us(2) by (cases us) auto
      then show ?thesis by (simp add: us(1))
    next
      assume "\<exists>us. take n b @ us = xs \<and> rest = us @ 10 # ys"
      then show ?thesis using l by auto
    qed
  qed
qed

lemma read_head_line:
  "buf @ concat chunks = xs @ 10 # ys \<Longrightarrow> (10 :: u8) \<notin> set xs \<Longrightarrow> length xs < REQUEST_BUF \<Longrightarrow>
   10 \<notin> set buf \<Longrightarrow> length buf < REQUEST_BUF \<Longrightarrow> [] \<notin> set chunks \<Longrightarrow>
   \<exists>ys'. (read_head buf (map Inr chunks) :: 'e + u8 list option) = Inr (Some (xs @ 10 # ys'))"
proof (induction chunks arbitrary: buf)
  case Nil
  have "10 \<in> set buf" using Nil.prems(1) by simp
  then show ?case using Nil.prems(4) by simp
next
  case (Cons d chunks)
  let ?room = "REQUEST_BUF - length buf"
  let ?buf = "buf @ take ?room d"
  have t: "?buf = take REQUEST_BUF (buf @ d)"
    using Cons.prems(5) by simp
  have "take REQUEST_BUF (buf @ d) @ (drop REQUEST_BUF (buf @ d) @ concat chunks) = xs @ 10 # ys"
    using Cons.prems(1) by (metis append.assoc append_take_drop_id concat.simps(2))
  note nl = prefix_with_newline [OF this Cons.prems(2), folded t]
  show ?case
  proof (cases "10 \<in> set ?buf")
    case True
    then show ?thesis using nl(2) by auto
  next
    case False
    then have short: "length ?buf \<le> length xs" using nl(1) by linarith
    then have full: "length ?buf < REQUEST_BUF" using Cons.prems(3) by linarith
    then have whole: "take ?room d = d" by simp
    have "\<exists>ys'. (read_head ?buf (map Inr chunks) :: 'e + u8 list option) =
        Inr (Some (xs @ 10 # ys'))"
    proof (rule Cons.IH)
      show "?buf @ concat chunks = xs @ 10 # ys" using Cons.prems(1) whole by simp
    qed (use Cons.prems False full in auto)
    moreover have "(read_head buf (map Inr (d # chunks)) :: 'e + u8 list option) =
        read_head ?buf (map Inr chunks)"
      using False full Cons.prems(6) by (auto simp: Let_def)
    ultimately show ?thesis by simp
  qed
qed

section \<open>The accept loop\<close>

definition MAX_INFLIGHT :: nat where "MAX_INFLIGHT = 16"

datatype http_phase = HSelect | HArmed | HBackoff | HReturned

datatype http_log = HttpShuttingDown | HttpAcceptError | HttpDropped | HttpRequestFailed | HttpTimedOut

datatype request_end = Answered | RequestFailed | RequestTimedOut

record http_sys =
  h_phase :: http_phase
  h_stop :: bool
  h_permits :: nat
  h_inflight :: nat
  h_log :: "http_log list"

definition http_start :: http_sys where
  "http_start = \<lparr>h_phase = HSelect, h_stop = False, h_permits = MAX_INFLIGHT, h_inflight = 0, h_log = []\<rparr>"

datatype http_event =
    HStopFires
  | HPollStop
  | HNothing
  | HAccepted
  | HAcceptFailed
  | HBackedOff
  | HRequestEnds request_end

text \<open>\<open>serve\<close> binds its address before the loop.\<close>

definition http_serve :: "(string \<Rightarrow> string + unit) \<Rightarrow> string \<Rightarrow> string + http_sys" where
  "http_serve bind addr =
     bindE (map_err (\<lambda>e. ''metrics bind '' @ addr @ '': '' @ e) (bind addr)) (\<lambda>_. Inr http_start)"

text \<open>A connection over the cap is dropped at once; a request's end gives its permit back.\<close>

fun http_step :: "http_event \<Rightarrow> http_sys \<Rightarrow> http_sys option" where
  "http_step HStopFires s = (if h_stop s then None else Some (s\<lparr>h_stop := True\<rparr>))"
| "http_step HPollStop s =
     (if h_phase s = HSelect then
        Some (if h_stop s then s\<lparr>h_phase := HReturned, h_log := h_log s @ [HttpShuttingDown]\<rparr>
              else s\<lparr>h_phase := HArmed\<rparr>)
      else None)"
| "http_step HNothing s = (if h_phase s = HArmed then Some (s\<lparr>h_phase := HSelect\<rparr>) else None)"
| "http_step HAccepted s =
     (if h_phase s = HArmed then
        Some (if h_permits s = 0 then s\<lparr>h_phase := HSelect, h_log := h_log s @ [HttpDropped]\<rparr>
              else s\<lparr>h_phase := HSelect, h_permits := h_permits s - 1, h_inflight := h_inflight s + 1\<rparr>)
      else None)"
| "http_step HAcceptFailed s =
     (if h_phase s = HArmed then Some (s\<lparr>h_phase := HBackoff, h_log := h_log s @ [HttpAcceptError]\<rparr>)
      else None)"
| "http_step HBackedOff s = (if h_phase s = HBackoff then Some (s\<lparr>h_phase := HSelect\<rparr>) else None)"
| "http_step (HRequestEnds r) s =
     (if 0 < h_inflight s then
        Some (s\<lparr>h_inflight := h_inflight s - 1, h_permits := h_permits s + 1,
                h_log := h_log s @ (case r of Answered \<Rightarrow> [] | RequestFailed \<Rightarrow> [HttpRequestFailed]
                                    | RequestTimedOut \<Rightarrow> [HttpTimedOut])\<rparr>)
      else None)"

interpretation http: invariant_system "\<lambda>s. s = http_start" http_step
    "\<lambda>s. h_permits s + h_inflight s = MAX_INFLIGHT \<and> (h_phase s = HReturned \<longrightarrow> h_stop s)"
proof unfold_locales
  show "h_permits t + h_inflight t = MAX_INFLIGHT \<and> (h_phase t = HReturned \<longrightarrow> h_stop t)"
    if "h_permits s + h_inflight s = MAX_INFLIGHT \<and> (h_phase s = HReturned \<longrightarrow> h_stop s)"
      "http_step e s = Some t" for s e t
    using that by (cases e) (auto split: if_splits)
qed (simp add: http_start_def)

section \<open>Properties\<close>

text \<open>
  C35: The answer does not depend on how the network splits the request: for any non-empty reads of a
  request whose first line ends within the buffer, the exporter answers for exactly that line,
  whatever bytes follow it.
\<close>

theorem request_split_invariant:
  assumes "concat chunks = line @ 10 # rest" and "10 \<notin> set line" and "length line < 1024"
    and "[] \<notin> set chunks"
  shows "(handle_request rendered (write_error None None None) (map Inr chunks) :: 'e + u8 list option) =
    Inr (Some (response rendered (first_line (from_utf8_lossy (line @ [10])))))"
proof -
  obtain ys' where "(read_head [] (map Inr chunks) :: 'e + u8 list option) =
      Inr (Some (line @ 10 # ys'))"
    using read_head_line [of "[]" chunks line rest] assms by (auto simp: REQUEST_BUF_def)
  then show ?thesis
    by (simp add: handle_request_def write_error_def first_line_lossy [of line ys'])
qed

theorem request_split_invariant_witness:
  "(handle_request [42] (write_error None None None) (map Inr [bytes_of ''GET /met'', bytes_of (''rics HTTP/1.1'' @ crlf @ ''Host: x'')])
      :: unit + u8 list option) = Inr (Some (response [42] (codes ''GET /metrics HTTP/1.1''))) \<and>
   is_metrics (codes ''GET /metrics HTTP/1.1'')"
proof
  let ?chunks = "[bytes_of ''GET /met'', bytes_of (''rics HTTP/1.1'' @ crlf @ ''Host: x'')]"
  let ?line = "[71, 69, 84, 32, 47, 109, 101, 116, 114, 105, 99, 115, 32, 72, 84, 84, 80, 47, 49, 46,
    49, 13] :: u8 list"
  have cs: "codes ''GET /metrics HTTP/1.1'' = [71, 69, 84, 32, 47, 109, 101, 116, 114, 105, 99, 115, 32,
      72, 84, 84, 80, 47, 49, 46, 49]"
    by (simp add: codes_def)
  have "from_utf8_lossy (?line @ [10]) = codes ''GET /metrics HTTP/1.1'' @ [13, 10]"
    unfolding cs by (simp add: from_utf8_lossy_def utf8_next_def utf8_begin_def)
  then have l: "first_line (from_utf8_lossy (?line @ [10])) = codes ''GET /metrics HTTP/1.1''"
    unfolding cs by (simp add: first_line_def)
  have a: "concat ?chunks = ?line @ 10 # bytes_of ''Host: x''"
    by (simp add: bytes_of_def crlf_def)
  have b: "10 \<notin> set ?line" "length ?line < 1024" "[] \<notin> set ?chunks"
    by (simp_all add: bytes_of_def)
  show "(handle_request [42] (write_error None None None) (map Inr ?chunks) :: unit + u8 list option) =
      Inr (Some (response [42] (codes ''GET /metrics HTTP/1.1'')))"
    using request_split_invariant [OF a b, where rendered = "[42]"] unfolding l .
  have "split_whitespace [] (codes ''GET /metrics HTTP/1.1'') = map codes [''GET'', ''/metrics'', ''HTTP/1.1'']"
    unfolding cs by (simp add: is_whitespace_def codes_def)
  then show "is_metrics (codes ''GET /metrics HTTP/1.1'')"
    by (simp add: is_metrics_def word_at_def)
qed

text \<open>
  At most 16 requests are in flight, every permit is either free or owned by one of them, and the
  exporter returns only after the stop token fired.
\<close>

theorem requests_bounded:
  assumes "reach (\<lambda>s. s = http_start) http_step s"
  shows "h_inflight s \<le> 16 \<and> h_permits s = 16 - h_inflight s \<and> (h_phase s = HReturned \<longrightarrow> h_stop s)"
  using http.inv_reachable [OF assms] by (auto simp: MAX_INFLIGHT_def)

theorem requests_bounded_witness:
  "\<exists>s. run http_step [HPollStop, HAccepted, HPollStop, HAccepted] http_start = Some s \<and>
     h_inflight s = 2 \<and> h_inflight s \<le> 16 \<and> h_permits s = 16 - h_inflight s"
proof -
  obtain s where s: "run http_step [HPollStop, HAccepted, HPollStop, HAccepted] http_start = Some s"
      and two: "h_inflight s = 2"
    by (simp add: http_start_def MAX_INFLIGHT_def)
  have "reach (\<lambda>s. s = http_start) http_step s"
    by (rule run_reach [OF reach_init s]) simp
  from requests_bounded [OF this] show ?thesis using s two by blast
qed

end
