(* ===== verification/Oxiduct_Main.thy ===== *)
theory Oxiduct_Main
  imports Cli_Args Proxy_Start Metrics_Http
begin

text \<open>
  The process of \<open>src/main.rs\<close>: which proxies and global settings it resolves, which tasks it starts,
  and its supervision of them up to the exit code. The tasks are those of the other theories; here a
  task is what its \<open>join_next\<close> yields. The loader's parameters (reading the file, the TOML parser)
  are the parameters of \<open>load\<close>.
\<close>

section \<open>Settings\<close>

definition or_else :: "'a option \<Rightarrow> 'a option \<Rightarrow> 'a option" where
  "or_else a b = (case a of Some x \<Rightarrow> Some x | None \<Rightarrow> b)"

record settings =
  set_proxies :: "ProxyConfig list"
  set_metrics_listen :: "string option"
  set_shutdown_grace :: u64

definition resolve_settings ::
    "(string \<Rightarrow> string + string) \<Rightarrow> (string \<Rightarrow> string + TomlFile) \<Rightarrow> Args \<Rightarrow> config_error + settings" where
  "resolve_settings read_to_string from_str args =
     bindE
       (case arg_config args of
          Some path \<Rightarrow>
            bindE (load read_to_string from_str path) (\<lambda>loaded.
              Inr (lc_proxies loaded,
                   or_else (arg_metrics_listen args) (lc_metrics_listen loaded),
                   or_else (arg_shutdown_grace args) (lc_shutdown_grace loaded)))
        | None \<Rightarrow>
            bindE (from_cli args) (\<lambda>cfg. Inr ([cfg], arg_metrics_listen args, arg_shutdown_grace args)))
       (\<lambda>(proxies, metrics_listen, grace).
          Inr \<lparr>set_proxies = proxies, set_metrics_listen = metrics_listen,
               set_shutdown_grace = (case grace of Some g \<Rightarrow> g | None \<Rightarrow> SHUTDOWN_GRACE_SECS)\<rparr>)"

lemma resolve_settings_cases:
  assumes "resolve_settings read_to_string from_str args = Inr st"
  obtains (config) path lc where "arg_config args = Some path" "load read_to_string from_str path = Inr lc"
      "st = \<lparr>set_proxies = lc_proxies lc,
        set_metrics_listen = or_else (arg_metrics_listen args) (lc_metrics_listen lc),
        set_shutdown_grace = knob (arg_shutdown_grace args) (lc_shutdown_grace lc) 10\<rparr>"
  | (flags) cfg where "arg_config args = None" "from_cli args = Inr cfg"
      "st = \<lparr>set_proxies = [cfg], set_metrics_listen = arg_metrics_listen args,
        set_shutdown_grace = knob (arg_shutdown_grace args) None 10\<rparr>"
proof (cases "arg_config args")
  case None
  then show thesis
    using assms flags
    by (auto simp: resolve_settings_def bindE_eq_Inr knob_def SHUTDOWN_GRACE_SECS_def
        split: option.splits)
next
  case (Some path)
  have knob: "(case or_else a b of Some g \<Rightarrow> g | None \<Rightarrow> SHUTDOWN_GRACE_SECS) = knob a b 10" for a b
    by (simp add: knob_def or_else_def SHUTDOWN_GRACE_SECS_def split: option.split)
  show thesis
  proof (cases "load read_to_string from_str path")
    case (Inl e)
    then show thesis using assms Some by (simp add: resolve_settings_def)
  next
    case (Inr lc)
    then show thesis
      using assms config [OF Some Inr] Some by (simp add: resolve_settings_def knob)
  qed
qed

lemma resolved_proxies:
  assumes "resolve_settings read_to_string from_str args = Inr st"
  shows "set_proxies st \<noteq> [] \<and> distinct (map cfg_name (set_proxies st))"
  using assms
proof (cases rule: resolve_settings_cases)
  case (config path lc)
  then show ?thesis
    using load_ok [OF config(2)] check_proxies_iff [of "{}" "{}" "lc_proxies lc"] by simp
qed simp

text \<open>A command line of one proxy, for the examples.\<close>

definition demo_args :: Args where
  "demo_args =
     \<lparr>arg_config = None, arg_listen = Some ''8'', arg_target = Some ''a:1'', arg_protocol = Tcp,
      arg_connect_timeout = 3, arg_keepalive_idle = 60, arg_keepalive_interval = 10,
      arg_keepalive_retries = 6, arg_user_timeout_ms = 90000, arg_idle_timeout = 300,
      arg_half_close_timeout = 30, arg_max_connections = 32000, arg_max_per_ip = 320,
      arg_proxy_protocol = True, arg_shutdown_grace = Some 4, arg_metrics_listen = None,
      arg_log_level = ''info''\<rparr>"

lemma demo_resolved:
  "\<exists>st cfg. resolve_settings (\<lambda>_. Inl ''no file'') (\<lambda>_. Inl ''no toml'') demo_args = Inr st \<and>
     set_proxies st = [cfg] \<and> set_metrics_listen st = None \<and>
     cfg_listen cfg = ''0.0.0.0:8'' \<and> cfg_protocol cfg = Tcp \<and>
     max_connections cfg = 32000 \<and> cfg_max_per_ip cfg = 320"
proof -
  have p: "parse_u16 ''8'' = Some 8" "parse_u16 ''1'' = Some 1"
    by (simp_all add: parse_u16_eq strip_plus_def is_digit_def digit_val_def)
  have t: "check_host_port (''a'' @ CHR '':'' # ''1'') = Inr 1"
    using p(2) unfolding check_host_port_iff by blast
  have l: "check_host_port ''0.0.0.0:8'' = Inr 8" and e: "expand_listen ''8'' = ''0.0.0.0:8''"
    using expand_bare_port [OF p(1)] p(1) by (simp_all add: expand_listen_def)
  have "\<exists>cfg. from_cli demo_args = Inr cfg \<and> cfg_listen cfg = ''0.0.0.0:8'' \<and> cfg_protocol cfg = Tcp \<and>
      max_connections cfg = 32000 \<and> cfg_max_per_ip cfg = 320"
    using t l e by (simp add: from_cli_def demo_args_def Let_def validate_def MAX_KEEPALIVE_SECS_def
        MAX_KEEPALIVE_RETRIES_def word_less_nat_alt)
  then show ?thesis by (auto simp: resolve_settings_def demo_args_def)
qed

section \<open>Tasks\<close>

text \<open>A task to start: the exporter on its address, or a proxy; the exporter comes first.\<close>

datatype task = Exporter string | Proxy ProxyConfig

definition start_tasks :: "settings \<Rightarrow> task list" where
  "start_tasks st =
     (case set_metrics_listen st of Some a \<Rightarrow> [Exporter a] | None \<Rightarrow> []) @ map Proxy (set_proxies st)"

text \<open>What \<open>join_next\<close> yields of a task: its result, or that it panicked.\<close>

datatype joined = TaskOk | TaskErr | TaskPanicked

definition failed :: "joined \<Rightarrow> bool" where
  "failed j \<longleftrightarrow> j \<noteq> TaskOk"

section \<open>Supervision\<close>

text \<open>
  \<open>main\<close> after the start: running (in its \<open>select!\<close>), draining under the grace timeout, draining after
  the force, or exited with a code. \<open>any_error\<close> survives the timeout.
\<close>

datatype main_phase = MRunning | MGraceful | MForced | MExited nat

record main_sys =
  m_phase :: main_phase
  m_tasks :: nat
  m_stop :: bool
  m_force :: bool
  m_any_error :: bool

definition main_start :: "settings \<Rightarrow> main_sys" where
  "main_start st =
     \<lparr>m_phase = MRunning, m_tasks = length (start_tasks st), m_stop = False, m_force = False,
      m_any_error = False\<rparr>"

datatype main_event = Joined_next joined | NoTaskLeft | SignalReceived | GraceElapsed

definition exit_code :: "bool \<Rightarrow> nat" where
  "exit_code any_error = (if any_error then 1 else 0)"

fun main_step :: "main_event \<Rightarrow> main_sys \<Rightarrow> main_sys option" where
  "main_step (Joined_next j) s =
     (if m_tasks s = 0 then None
      else
        (let s1 = s\<lparr>m_tasks := m_tasks s - 1\<rparr> in
         case m_phase s of
           MRunning \<Rightarrow> Some (s1\<lparr>m_phase := MExited (exit_code (failed j))\<rparr>)
         | MGraceful \<Rightarrow> Some (s1\<lparr>m_any_error := m_any_error s \<or> failed j\<rparr>)
         | MForced \<Rightarrow> Some (s1\<lparr>m_any_error := m_any_error s \<or> failed j\<rparr>)
         | MExited _ \<Rightarrow> None))"
| "main_step NoTaskLeft s =
     (if m_tasks s \<noteq> 0 then None
      else
        (case m_phase s of
           MRunning \<Rightarrow> Some (s\<lparr>m_phase := MExited 0\<rparr>)
         | MExited _ \<Rightarrow> None
         | _ \<Rightarrow> Some (s\<lparr>m_phase := MExited (exit_code (m_any_error s))\<rparr>)))"
| "main_step SignalReceived s =
     (if m_phase s = MRunning then Some (s\<lparr>m_phase := MGraceful, m_stop := True\<rparr>) else None)"
| "main_step GraceElapsed s =
     (if m_phase s = MGraceful then Some (s\<lparr>m_phase := MForced, m_force := True\<rparr>) else None)"

section \<open>Runs\<close>

definition joins :: "main_event list \<Rightarrow> joined list" where
  "joins es = List.map_filter (\<lambda>e. case e of Joined_next j \<Rightarrow> Some j | _ \<Rightarrow> None) es"

lemma joins_simps [simp]:
  "joins [] = []"
  "joins (Joined_next j # es) = j # joins es"
  "joins (NoTaskLeft # es) = joins es"
  "joins (SignalReceived # es) = joins es"
  "joins (GraceElapsed # es) = joins es"
  by (simp_all add: joins_def map_filter_def)

text \<open>An exited process makes no further step; a draining one exits on its last task.\<close>

lemma exited_run: "run main_step es s = Some t \<Longrightarrow> m_phase s = MExited c \<Longrightarrow> es = [] \<and> t = s"
proof (cases es)
  case (Cons e es')
  assume "run main_step es s = Some t" and "m_phase s = MExited c"
  then show ?thesis using Cons by (cases e) (auto simp: Let_def split: if_splits)
qed simp

lemma draining_main_run:
  "run main_step es s = Some t \<Longrightarrow> m_phase s \<in> {MGraceful, MForced} \<Longrightarrow>
     m_tasks s = m_tasks t + length (joins es) \<and>
     (m_stop s \<longrightarrow> m_stop t) \<and>
     (m_force t \<longleftrightarrow> m_force s \<or> GraceElapsed \<in> set es) \<and>
     (case m_phase t of
        MExited c \<Rightarrow> m_tasks t = 0 \<and> c = exit_code (m_any_error s \<or> list_ex failed (joins es))
      | MRunning \<Rightarrow> False
      | _ \<Rightarrow> m_any_error t = (m_any_error s \<or> list_ex failed (joins es)))"
proof (induction es arbitrary: s)
  case Nil
  then show ?case by auto
next
  case (Cons e es)
  then obtain u where u: "main_step e s = Some u" "run main_step es u = Some t"
    by (auto split: option.splits)
  show ?case
  proof (cases e)
    case (Joined_next j)
    then show ?thesis
      using Cons.IH [OF u(2)] u(1) Cons.prems(2)
      by (auto simp: Let_def split: if_splits main_phase.splits)
  next
    case NoTaskLeft
    then have "m_phase u = MExited (exit_code (m_any_error s))"
        and same: "m_tasks u = 0" "m_stop u = m_stop s" "m_force u = m_force s" "m_tasks s = 0"
      using u(1) Cons.prems(2) by (auto split: if_splits)
    then show ?thesis using exited_run [OF u(2)] NoTaskLeft same by auto
  next
    case SignalReceived
    then show ?thesis using u(1) Cons.prems(2) by auto
  next
    case GraceElapsed
    then show ?thesis
      using Cons.IH [OF u(2)] u(1) Cons.prems(2) by (auto split: if_splits main_phase.splits)
  qed
qed

section \<open>Properties\<close>

text \<open>
  The exit code after a signal tells the truth. The process exits only when every task it started
  has been joined; the code is 1 exactly if one of them failed or panicked, before or after the
  grace period ran out (an error seen before is not lost); the stop token is cancelled, and the
  force token exactly if the grace elapsed.
\<close>

theorem shutdown_exit_code:
  assumes "run main_step (SignalReceived # es) (main_start st) = Some t" and "m_phase t = MExited c"
  shows "c = (if list_ex failed (joins es) then 1 else 0) \<and>
    length (joins es) = length (start_tasks st) \<and> m_stop t \<and>
    (m_force t = (GraceElapsed \<in> set es))"
proof -
  let ?s = "(main_start st)\<lparr>m_phase := MGraceful, m_stop := True\<rparr>"
  have r: "run main_step es ?s = Some t" using assms(1) by (simp add: main_start_def)
  show ?thesis
    using draining_main_run [OF r] assms(2) by (auto simp: main_start_def exit_code_def)
qed

definition demo_settings :: settings where
  "demo_settings = \<lparr>set_proxies = [default_config], set_metrics_listen = Some ''a:1'', set_shutdown_grace = 10\<rparr>"

theorem shutdown_exit_code_witness:
  "\<exists>t. run main_step (SignalReceived # [Joined_next TaskErr, GraceElapsed, Joined_next TaskOk, NoTaskLeft])
       (main_start demo_settings) = Some t \<and> m_phase t = MExited 1 \<and>
     (1 :: nat) = (if list_ex failed [TaskErr, TaskOk] then 1 else 0) \<and> m_force t"
proof -
  let ?es = "[Joined_next TaskErr, GraceElapsed, Joined_next TaskOk, NoTaskLeft]"
  obtain t where t: "run main_step (SignalReceived # ?es) (main_start demo_settings) = Some t"
      "m_phase t = MExited 1"
    by (simp add: main_start_def demo_settings_def start_tasks_def failed_def exit_code_def)
  have "joins ?es = [TaskErr, TaskOk]" and "GraceElapsed \<in> set ?es" by simp_all
  then show ?thesis
    using shutdown_exit_code [OF t] t by (intro exI [of _ t]) simp
qed

text \<open>
  Before any signal the first task that ends decides: a failure or a panic of any proxy or of the
  exporter, such as an address it cannot bind, ends the process with code 1.
\<close>

theorem startup_failure_exits:
  assumes "main_step (Joined_next j) (main_start st) = Some t"
  shows "m_phase t = MExited (if j = TaskOk then 0 else 1) \<and> \<not> m_stop t"
  using assms by (auto simp: main_start_def Let_def failed_def exit_code_def split: if_splits)

theorem startup_failure_exits_witness:
  "\<exists>t. main_step (Joined_next TaskErr) (main_start demo_settings) = Some t \<and> m_phase t = MExited 1"
proof -
  obtain t where t: "main_step (Joined_next TaskErr) (main_start demo_settings) = Some t"
    by (simp add: main_start_def demo_settings_def start_tasks_def)
  then show ?thesis using startup_failure_exits [OF t] by simp
qed

end
