(* ===== verification/Oxiduct_Process.thy ===== *)
theory Oxiduct_Process
  imports Oxiduct_Main
begin

text \<open>
  The whole process of \<open>src/main.rs\<close>: the supervision of \<open>Oxiduct_Main\<close> with, for every entry of its join
  set, the task that runs there (a TCP proxy of \<open>Tcp_Proxy\<close>, a UDP proxy of \<open>Udp\<close>, the exporter of
  \<open>Metrics_Http\<close>), in any interleaving. What the parts leave open is fixed here: the tokens of all tasks
  are the two tokens of \<open>main\<close>, a task ends when its listener has returned or its address could not
  be bound, and all metric calls go to one registry.
\<close>

section \<open>Tasks\<close>

text \<open>
  What an entry of the join set runs: nothing yet (spawned and not polled), one of the three systems, or
  nothing any more, since its address could not be bound.
\<close>

datatype task_sys = Spawned | TcpSys proxy_sys | UdpSys udp_sys | HttpSys http_sys | NoSys

datatype task_event = TcpMoves proxy_event | UdpMoves udp_event | HttpMoves http_event

text \<open>The join set knows of a task that it runs, that it is over and not joined yet, or that it was joined.\<close>

datatype task_status = Going | Over joined | Taken joined

record task_rec =
  tk_task :: task
  tk_sys :: task_sys
  tk_status :: task_status

text \<open>Every task holds clones of the two tokens of \<open>main\<close>; the exporter only of the first.\<close>

definition share_tokens :: "bool \<Rightarrow> bool \<Rightarrow> task_sys \<Rightarrow> task_sys" where
  "share_tokens stop force sys =
     (case sys of
        TcpSys s \<Rightarrow> TcpSys (s\<lparr>px_serve := px_serve s\<lparr>sv_stop := stop\<rparr>, px_force := force\<rparr>)
      | UdpSys s \<Rightarrow> UdpSys (s\<lparr>ud_stop := stop, ud_force := force\<rparr>)
      | HttpSys s \<Rightarrow> HttpSys (s\<lparr>h_stop := stop\<rparr>)
      | _ \<Rightarrow> sys)"

text \<open>
  The first poll of a task, given the answer to its bind and the next connection id: its metric calls, and
  what runs then.
\<close>

definition begin_task :: "string + unit \<Rightarrow> u64 \<Rightarrow> task \<Rightarrow> metric_op list \<times> task_sys" where
  "begin_task answer conn_id t =
     (case t of
        Exporter addr \<Rightarrow>
          ([], case http_serve (\<lambda>_. answer) addr of Inl e \<Rightarrow> NoSys | Inr h \<Rightarrow> HttpSys h)
      | Proxy cfg \<Rightarrow>
          (case run_graceful (\<lambda>_. answer) (\<lambda>_. answer) conn_id cfg of
             (ops, Inl e) \<Rightarrow> (ops, NoSys)
           | (ops, Inr (TcpRuns s)) \<Rightarrow>
               (ops, TcpSys \<lparr>px_serve = s, px_conns = [], px_force = False, px_ops = sv_ops s\<rparr>)
           | (ops, Inr (UdpRuns s)) \<Rightarrow> (ops, UdpSys s)))"

text \<open>A token is cancelled by \<open>main\<close> and by no task.\<close>

definition token_event :: "task_event \<Rightarrow> bool" where
  "token_event e \<longleftrightarrow>
     e \<in> {TcpMoves (Serve StopFires), TcpMoves ForceFires, UdpMoves StopToken, UdpMoves ForceToken,
          HttpMoves HStopFires}"

fun move_task :: "task \<Rightarrow> task_event \<Rightarrow> task_sys \<Rightarrow> (metric_op list \<times> task_sys) option" where
  "move_task (Proxy cfg) (TcpMoves e) (TcpSys s) =
     (case roomy_proxy_step cfg e s of
        None \<Rightarrow> None | Some t \<Rightarrow> Some (new_ops (px_ops s) (px_ops t), TcpSys t))"
| "move_task (Proxy cfg) (UdpMoves e) (UdpSys s) =
     (case udp_step cfg e s of
        None \<Rightarrow> None | Some t \<Rightarrow> Some (new_ops (ud_ops s) (ud_ops t), UdpSys t))"
| "move_task (Exporter addr) (HttpMoves e) (HttpSys s) =
     (case http_step e s of None \<Rightarrow> None | Some t \<Rightarrow> Some ([], HttpSys t))"
| "move_task _ _ _ = None"

text \<open>The future of a task is ready when its loop has returned.\<close>

definition has_returned :: "task_sys \<Rightarrow> bool" where
  "has_returned sys \<longleftrightarrow>
     (case sys of
        TcpSys s \<Rightarrow> sv_phase (px_serve s) = Returned
      | UdpSys s \<Rightarrow> ud_listener s = LReturned
      | HttpSys s \<Rightarrow> h_phase s = HReturned
      | _ \<Rightarrow> False)"

section \<open>The process\<close>

text \<open>
  An entry stays in \<open>pr_tasks\<close> when it is joined: the tasks that a UDP listener or the exporter spawned
  are in no join set and run on. \<open>pr_ops\<close> are all metric calls in order.
\<close>

record process =
  pr_main :: main_sys
  pr_tasks :: "task_rec list"
  pr_ops :: "metric_op list"

definition process_start :: "settings \<Rightarrow> process" where
  "process_start st =
     \<lparr>pr_main = main_start st,
      pr_tasks = map (\<lambda>t. \<lparr>tk_task = t, tk_sys = Spawned, tk_status = Going\<rparr>) (start_tasks st),
      pr_ops = []\<rparr>"

datatype process_event =
    SignalArrives
  | GraceRunsOut
  | AllJoined
  | JoinNext nat
  | TaskStarts nat "string + unit" u64
  | TaskMoves nat task_event
  | TaskReturns nat

definition is_exited :: "process \<Rightarrow> bool" where
  "is_exited s \<longleftrightarrow> (\<exists>c. m_phase (pr_main s) = MExited c)"

lemma is_exited_code [code]:
  "is_exited s \<longleftrightarrow> (case m_phase (pr_main s) of MExited c \<Rightarrow> True | _ \<Rightarrow> False)"
  by (simp add: is_exited_def split: main_phase.split)

definition with_sys :: "task_sys \<Rightarrow> task_rec \<Rightarrow> task_rec" where
  "with_sys sys t = t\<lparr>tk_sys := sys, tk_status := (if sys = NoSys then Over TaskErr else tk_status t)\<rparr>"

text \<open>\<open>main\<close> cancels a token: the clones of every task are the same token.\<close>

definition share_all :: "main_sys \<Rightarrow> task_rec list \<Rightarrow> task_rec list" where
  "share_all m ts = map (\<lambda>t. t\<lparr>tk_sys := share_tokens (m_stop m) (m_force m) (tk_sys t)\<rparr>) ts"

definition main_moves :: "main_event \<Rightarrow> process \<Rightarrow> process option" where
  "main_moves e s =
     (case main_step e (pr_main s) of
        None \<Rightarrow> None
      | Some m \<Rightarrow> Some (s\<lparr>pr_main := m, pr_tasks := share_all m (pr_tasks s)\<rparr>))"

fun process_step :: "process_event \<Rightarrow> process \<Rightarrow> process option" where
  "process_step SignalArrives s = main_moves SignalReceived s"
| "process_step GraceRunsOut s = main_moves GraceElapsed s"
| "process_step AllJoined s = main_moves NoTaskLeft s"
| "process_step (JoinNext i) s =
     (if i < length (pr_tasks s) then
        (case tk_status (pr_tasks s ! i) of
           Over j \<Rightarrow>
             main_moves (Joined_next j)
               (s\<lparr>pr_tasks := (pr_tasks s)[i := (pr_tasks s ! i)\<lparr>tk_status := Taken j\<rparr>]\<rparr>)
         | _ \<Rightarrow> None)
      else None)"
| "process_step (TaskStarts i answer conn_id) s =
     (if i < length (pr_tasks s) \<and> tk_sys (pr_tasks s ! i) = Spawned \<and> \<not> is_exited s then
        (case begin_task answer conn_id (tk_task (pr_tasks s ! i)) of
           (ops, sys) \<Rightarrow>
             Some (s\<lparr>pr_tasks := (pr_tasks s)
                      [i := with_sys (share_tokens (m_stop (pr_main s)) (m_force (pr_main s)) sys) (pr_tasks s ! i)],
                     pr_ops := pr_ops s @ ops\<rparr>))
      else None)"
| "process_step (TaskMoves i e) s =
     (if i < length (pr_tasks s) \<and> \<not> token_event e \<and> \<not> is_exited s then
        (case move_task (tk_task (pr_tasks s ! i)) e (tk_sys (pr_tasks s ! i)) of
           None \<Rightarrow> None
         | Some (ops, sys) \<Rightarrow>
             Some (s\<lparr>pr_tasks := (pr_tasks s)[i := (pr_tasks s ! i)\<lparr>tk_sys := sys\<rparr>],
                     pr_ops := pr_ops s @ ops\<rparr>))
      else None)"
| "process_step (TaskReturns i) s =
     (if i < length (pr_tasks s) \<and> tk_status (pr_tasks s ! i) = Going \<and>
         has_returned (tk_sys (pr_tasks s ! i)) \<and> \<not> is_exited s
      then Some (s\<lparr>pr_tasks := (pr_tasks s)[i := (pr_tasks s ! i)\<lparr>tk_status := Over TaskOk\<rparr>]\<rparr>)
      else None)"

text \<open>What a step does: \<open>main\<close> alone moves, or it takes a task, or a task starts, moves or returns.\<close>

lemma process_step_cases:
  assumes "process_step e s = Some t"
  obtains (main) f where "\<forall>j. f \<noteq> Joined_next j" "main_moves f s = Some t"
  | (join) i j where "i < length (pr_tasks s)" "tk_status (pr_tasks s ! i) = Over j"
      "main_moves (Joined_next j) (s\<lparr>pr_tasks := (pr_tasks s)[i := (pr_tasks s ! i)\<lparr>tk_status := Taken j\<rparr>]\<rparr>) = Some t"
  | (starts) i answer conn_id ops sys where "i < length (pr_tasks s)" "tk_sys (pr_tasks s ! i) = Spawned"
      "\<not> is_exited s" "begin_task answer conn_id (tk_task (pr_tasks s ! i)) = (ops, sys)"
      "t = s\<lparr>pr_tasks := (pr_tasks s)[i := with_sys (share_tokens (m_stop (pr_main s)) (m_force (pr_main s)) sys)
         (pr_tasks s ! i)], pr_ops := pr_ops s @ ops\<rparr>"
  | (moves) i te ops sys where "i < length (pr_tasks s)" "\<not> is_exited s" "\<not> token_event te"
      "move_task (tk_task (pr_tasks s ! i)) te (tk_sys (pr_tasks s ! i)) = Some (ops, sys)"
      "t = s\<lparr>pr_tasks := (pr_tasks s)[i := (pr_tasks s ! i)\<lparr>tk_sys := sys\<rparr>], pr_ops := pr_ops s @ ops\<rparr>"
  | (returns) i where "i < length (pr_tasks s)" "\<not> is_exited s" "tk_status (pr_tasks s ! i) = Going"
      "has_returned (tk_sys (pr_tasks s ! i))"
      "t = s\<lparr>pr_tasks := (pr_tasks s)[i := (pr_tasks s ! i)\<lparr>tk_status := Over TaskOk\<rparr>], pr_ops := pr_ops s @ []\<rparr>"
proof (cases e)
  case (JoinNext i)
  then show thesis using assms join by (auto split: if_splits task_status.splits)
next
  case (TaskStarts i answer conn_id)
  then show thesis using assms starts by (auto split: if_splits prod.splits)
next
  case (TaskMoves i te)
  then show thesis using assms moves by (auto split: if_splits option.splits prod.splits)
next
  case (TaskReturns i)
  then show thesis using assms returns [of i] by (auto split: if_splits)
next
  case SignalArrives
  then show thesis using assms main [of SignalReceived] by simp
next
  case GraceRunsOut
  then show thesis using assms main [of GraceElapsed] by simp
next
  case AllJoined
  then show thesis using assms main [of NoTaskLeft] by simp
qed

section \<open>Invariant\<close>

definition is_taken :: "task_rec \<Rightarrow> bool" where
  "is_taken t \<longleftrightarrow> (case tk_status t of Taken j \<Rightarrow> True | _ \<Rightarrow> False)"

text \<open>A task whose address could not be bound.\<close>

definition not_bound :: "task_rec \<Rightarrow> bool" where
  "not_bound t \<longleftrightarrow> tk_sys t = NoSys"

text \<open>A UDP listener drains, and returns, only after a token.\<close>

definition udp_told :: "udp_sys \<Rightarrow> bool" where
  "udp_told s \<longleftrightarrow>
     (ud_draining s \<longrightarrow> ud_stop s) \<and>
     (case ud_listener s of LDrainCheck b \<Rightarrow> ud_stop s | LReturned \<Rightarrow> ud_stop s \<or> ud_force s | _ \<Rightarrow> True)"

definition http_told :: "http_sys \<Rightarrow> bool" where
  "http_told s \<longleftrightarrow> (h_phase s = HReturned \<longrightarrow> h_stop s)"

text \<open>A task has the tokens of \<open>main\<close>, and it ends well only after a signal.\<close>

definition task_ok :: "main_sys \<Rightarrow> task_rec \<Rightarrow> bool" where
  "task_ok m t \<longleftrightarrow>
     (case tk_sys t of
        Spawned \<Rightarrow> tk_status t = Going
      | NoSys \<Rightarrow> tk_status t = Over TaskErr \<or> tk_status t = Taken TaskErr
      | TcpSys s \<Rightarrow>
          (\<exists>cfg. tk_task t = Proxy cfg \<and> proxy_inv cfg s) \<and>
          sv_stop (px_serve s) = m_stop m \<and> px_force s = m_force m
      | UdpSys s \<Rightarrow>
          (\<exists>cfg. tk_task t = Proxy cfg \<and> books_kept cfg s) \<and> udp_told s \<and> ud_stop s = m_stop m \<and> ud_force s = m_force m
      | HttpSys s \<Rightarrow> (\<exists>addr. tk_task t = Exporter addr) \<and> http_told s \<and> h_stop s = m_stop m) \<and>
     (tk_sys t \<noteq> NoSys \<longrightarrow>
        tk_status t = Going \<or> m_stop m \<and> (tk_status t = Over TaskOk \<or> tk_status t = Taken TaskOk))"

text \<open>What \<open>main\<close> knows at each of its phases.\<close>

definition main_knows :: "main_sys \<Rightarrow> task_rec list \<Rightarrow> bool" where
  "main_knows m ts \<longleftrightarrow>
     (let seen = list_ex (\<lambda>t. is_taken t \<and> not_bound t) ts in
      case m_phase m of
        MRunning \<Rightarrow> \<not> m_stop m \<and> \<not> m_force m \<and> \<not> m_any_error m \<and> \<not> list_ex is_taken ts
      | MGraceful \<Rightarrow> m_stop m \<and> \<not> m_force m \<and> m_any_error m = seen
      | MForced \<Rightarrow> m_stop m \<and> m_force m \<and> m_any_error m = seen
      | MExited c \<Rightarrow>
          (m_force m \<longrightarrow> m_stop m) \<and>
          (if m_stop m then list_all is_taken ts \<and> c = exit_code seen
           else seen \<and> c = 1 \<or> ts = [] \<and> c = 0))"

definition process_inv :: "settings \<Rightarrow> process \<Rightarrow> bool" where
  "process_inv st s \<longleftrightarrow>
     map tk_task (pr_tasks s) = start_tasks st \<and>
     m_tasks (pr_main s) = length (filter (\<lambda>t. \<not> is_taken t) (pr_tasks s)) \<and>
     list_all (task_ok (pr_main s)) (pr_tasks s) \<and> main_knows (pr_main s) (pr_tasks s)"

definition process_init :: "settings \<Rightarrow> process \<Rightarrow> bool" where
  "process_init st s \<longleftrightarrow> s = process_start st"

subsection \<open>Tasks keep it\<close>

lemma begin_task_cases:
  "begin_task (Inl e) conn_id (Proxy cfg) = (publish_limits cfg, NoSys)"
  "begin_task (Inr ()) conn_id (Proxy cfg) =
     (publish_limits cfg,
      case cfg_protocol cfg of Tcp \<Rightarrow> TcpSys (proxy_start cfg conn_id) | Udp \<Rightarrow> UdpSys (udp_start cfg))"
  "begin_task (Inl e) conn_id (Exporter addr) = ([], NoSys)"
  "begin_task (Inr ()) conn_id (Exporter addr) = ([], HttpSys http_start)"
  by (simp_all add: begin_task_def http_serve_def run_graceful_def proxy_run_def tcp_run_graceful_def
      udp_run_graceful_def proxy_start_def serve_start_def split: Protocol.split)

lemma proxy_inv_tokens:
  "proxy_inv cfg s \<Longrightarrow> (sv_stop (px_serve s) \<longrightarrow> stop) \<Longrightarrow> (px_force s \<longrightarrow> force) \<Longrightarrow>
     proxy_inv cfg (s\<lparr>px_serve := px_serve s\<lparr>sv_stop := stop\<rparr>, px_force := force\<rparr>)"
  by (auto simp: proxy_inv_def serve_inv_def accounts_def Let_def)

lemma books_kept_tokens:
  "books_kept cfg (s\<lparr>ud_stop := stop, ud_force := force\<rparr>) = books_kept cfg s"
  by (simp add: books_kept_def one_per_source_def ledger_def opened_def closed_as_def)

lemma books_kept_start: "books_kept cfg (udp_start cfg)"
  by (rule udp_books.inv_start) (simp add: udp_init_def)

lemma proxy_inv_start: "proxy_inv cfg (proxy_start cfg conn_id)"
  using proxy.inv_start [of cfg "proxy_start cfg conn_id"] by (auto simp: proxy_init_def)

lemma begin_task_ok:
  assumes "begin_task answer conn_id (tk_task t) = (ops, sys)" and "tk_status t = Going"
  shows "task_ok m (with_sys (share_tokens (m_stop m) (m_force m) sys) t)"
proof (cases "tk_task t")
  case (Exporter addr)
  then show ?thesis
    using assms by (cases answer)
      (auto simp: begin_task_cases task_ok_def with_sys_def share_tokens_def http_told_def http_start_def)
next
  case (Proxy cfg)
  show ?thesis
  proof (cases answer)
    case (Inl e)
    then show ?thesis
      using assms Proxy by (auto simp: begin_task_cases task_ok_def with_sys_def share_tokens_def)
  next
    case (Inr u)
    then have "answer = Inr ()" by simp
    then have "sys = (case cfg_protocol cfg of Tcp \<Rightarrow> TcpSys (proxy_start cfg conn_id) | Udp \<Rightarrow> UdpSys (udp_start cfg))"
      using assms Proxy by (simp add: begin_task_cases)
    moreover have "proxy_inv cfg (proxy_start cfg conn_id
        \<lparr>px_serve := px_serve (proxy_start cfg conn_id)\<lparr>sv_stop := m_stop m\<rparr>, px_force := m_force m\<rparr>)"
      by (rule proxy_inv_tokens [OF proxy_inv_start]) (simp_all add: proxy_start_def serve_start_def)
    moreover have "udp_told (udp_start cfg\<lparr>ud_stop := stop, ud_force := force\<rparr>)" for stop force
      by (simp add: udp_told_def udp_start_def)
    ultimately show ?thesis
      using assms(2) Proxy books_kept_start [of cfg] by (cases "cfg_protocol cfg")
        (auto simp: task_ok_def with_sys_def share_tokens_def books_kept_tokens)
  qed
qed

lemma retain_told:
  "ud_draining (retain cfg now es s) = ud_draining s \<and> ud_stop (retain cfg now es s) = ud_stop s \<and>
   ud_force (retain cfg now es s) = ud_force s \<and> ud_listener (retain cfg now es s) = ud_listener s"
  by (induction cfg now es s rule: retain.induct) (auto simp: emit_def drop_session_def split: option.split)

lemma udp_told_step:
  assumes told: "udp_told s" and step: "udp_step cfg e s = Some t"
  shows "udp_told t"
proof -
  have lis: "udp_told t" if "listener_step cfg le s = Some t" for le
    using that told by (cases le; auto simp: udp_told_def emit_def lookup_session_def mark_pending_def
        admit_source_def force_close_def drop_session_def Let_def
        split: if_splits listener.splits option.splits prod.splits sum.splits)
  have kept: "ud_draining t = ud_draining s \<and> ud_stop t = ud_stop s \<and> ud_force t = ud_force s \<and>
      ud_listener t = ud_listener s" if "setup_step cfg n se s = Some t" for n se
    using that by (cases se; auto simp: emit_def set_setup_def insert_session_def drop_session_def Let_def
        split: if_splits setup_phase.splits option.splits prod.splits)
  have set: "udp_told t" if "setup_step cfg n se s = Some t" for n se
    using kept [OF that] told by (cases "ud_listener s") (simp_all add: udp_told_def)
  have sw: "udp_told (sweep cfg now s)" for now
    using told retain_told [of cfg now "ud_map s" s]
    by (cases "ud_listener s") (simp_all add: udp_told_def sweep_def emit_def Let_def)
  have same: "udp_told t" if "ud_draining t = ud_draining s" "ud_listener t = ud_listener s"
      "ud_stop s \<longrightarrow> ud_stop t" "ud_force s \<longrightarrow> ud_force t"
    using that told by (cases "ud_listener s") (auto simp: udp_told_def)
  show ?thesis
  proof (cases e)
    case (Listener le)
    then show ?thesis using step lis by simp
  next
    case (Setup n se)
    then show ?thesis using step set by (simp split: if_splits)
  next
    case (Sweep now)
    then show ?thesis using step sw by (auto split: if_splits)
  next
    case (Relay i re)
    then show ?thesis using step by (intro same) (auto simp: emit_def split: if_splits option.splits)
  qed (rule same; use step in \<open>auto split: if_splits\<close>)+
qed

lemma http_step_kept:
  "http_step e s = Some t \<Longrightarrow> e \<noteq> HStopFires \<Longrightarrow> http_told s \<Longrightarrow> http_told t \<and> h_stop t = h_stop s"
  by (cases e) (auto simp: http_told_def split: if_splits)

lemma move_task_ok:
  assumes ok: "task_ok m t" and mv: "move_task (tk_task t) e (tk_sys t) = Some (ops, sys)"
    and no_token: "\<not> token_event e"
  shows "task_ok m (t\<lparr>tk_sys := sys\<rparr>)"
proof (cases "tk_sys t")
  case (TcpSys s)
  then obtain cfg pe u where t: "tk_task t = Proxy cfg" and e: "e = TcpMoves pe"
    and u: "roomy_proxy_step cfg pe s = Some u" and sys: "sys = TcpSys u"
    using mv by (cases "tk_task t"; cases e) (auto split: option.splits)
  have inv: "proxy_inv cfg s" using ok TcpSys t by (auto simp: task_ok_def)
  have "proxy_step cfg pe s = Some u" using u by (simp add: roomy_proxy_step_def split: if_splits)
  moreover have "pe \<noteq> Serve StopFires" "pe \<noteq> ForceFires" using no_token e by (auto simp: token_event_def)
  ultimately have "sv_stop (px_serve u) = sv_stop (px_serve s) \<and> px_force u = px_force s"
    by (rule proxy_tokens_kept)
  then show ?thesis
    using ok TcpSys t sys proxy_step_inv [OF inv u] by (auto simp: task_ok_def)
next
  case (UdpSys s)
  then obtain cfg ue u where t: "tk_task t = Proxy cfg" and e: "e = UdpMoves ue"
    and u: "udp_step cfg ue s = Some u" and sys: "sys = UdpSys u"
    using mv by (cases "tk_task t"; cases e) (auto split: option.splits)
  have books: "books_kept cfg u" using ok UdpSys t udp_books.inv_next [OF _ u] by (auto simp: task_ok_def)
  have "ue \<noteq> StopToken" "ue \<noteq> ForceToken" using no_token e by (auto simp: token_event_def)
  with u have "ud_stop u = ud_stop s \<and> ud_force u = ud_force s" by (rule tokens_kept)
  then show ?thesis
    using ok UdpSys t sys books udp_told_step [OF _ u] by (auto simp: task_ok_def)
next
  case (HttpSys s)
  then obtain addr he u where t: "tk_task t = Exporter addr" and e: "e = HttpMoves he"
    and u: "http_step he s = Some u" and sys: "sys = HttpSys u"
    using mv by (cases "tk_task t"; cases e) (auto split: option.splits)
  have "he \<noteq> HStopFires" using no_token e by (auto simp: token_event_def)
  then show ?thesis
    using ok HttpSys t sys http_step_kept [OF u] by (auto simp: task_ok_def)
qed (use mv in \<open>cases "tk_task t"; cases e; simp\<close>)+

subsection \<open>\<open>main\<close> keeps it\<close>

lemma main_step_tokens:
  "main_step e m = Some m' \<Longrightarrow> main_knows m ts \<Longrightarrow> (m_stop m \<longrightarrow> m_stop m') \<and> (m_force m \<longrightarrow> m_force m')"
  by (cases e) (auto simp: main_knows_def Let_def split: if_splits main_phase.splits)

text \<open>A token that \<open>main\<close> cancels harms no task.\<close>

lemma task_ok_tokens:
  assumes "task_ok m t" and "m_stop m \<longrightarrow> m_stop m'" and "m_force m \<longrightarrow> m_force m'"
  shows "task_ok m' (t\<lparr>tk_sys := share_tokens (m_stop m') (m_force m') (tk_sys t)\<rparr>)"
proof (cases "tk_sys t")
  case (TcpSys s)
  then obtain cfg where "tk_task t = Proxy cfg" "proxy_inv cfg s"
    using assms(1) by (auto simp: task_ok_def)
  moreover have "proxy_inv cfg (s\<lparr>px_serve := px_serve s\<lparr>sv_stop := m_stop m'\<rparr>, px_force := m_force m'\<rparr>)"
    using assms TcpSys calculation(2) by (intro proxy_inv_tokens) (auto simp: task_ok_def)
  ultimately show ?thesis using assms TcpSys by (auto simp: task_ok_def share_tokens_def)
qed (use assms in \<open>auto simp: task_ok_def share_tokens_def books_kept_tokens udp_told_def http_told_def
    split: listener.splits\<close>)

lemma shared_simps [simp]:
  "is_taken (t\<lparr>tk_sys := sys\<rparr>) = is_taken t" "tk_sys (with_sys sys t) = sys"
  "share_tokens stop force sys = NoSys \<longleftrightarrow> sys = NoSys"
  "share_tokens stop force sys = Spawned \<longleftrightarrow> sys = Spawned"
  "not_bound (t\<lparr>tk_status := j\<rparr>) = not_bound t" "not_bound (t\<lparr>tk_sys := sys\<rparr>) = (sys = NoSys)"
  by (simp_all add: is_taken_def with_sys_def share_tokens_def not_bound_def split: task_sys.split)

lemma share_all_facts [simp]:
  "map tk_task (share_all m ts) = map tk_task ts"
  "filter (\<lambda>t. \<not> is_taken t) (share_all m ts) = share_all m (filter (\<lambda>t. \<not> is_taken t) ts)"
  "list_ex is_taken (share_all m ts) = list_ex is_taken ts"
  "list_all is_taken (share_all m ts) = list_all is_taken ts"
  "list_ex (\<lambda>t. is_taken t \<and> not_bound t) (share_all m ts) = list_ex (\<lambda>t. is_taken t \<and> not_bound t) ts"
  "share_all m ts = [] \<longleftrightarrow> ts = []" "length (share_all m ts) = length ts"
  by (induction ts) (simp_all add: share_all_def not_bound_def)

lemma main_knows_share [simp]: "main_knows m (share_all m' ts) = main_knows m ts"
  unfolding main_knows_def share_all_facts ..

lemma none_left: "length (filter (\<lambda>t. \<not> is_taken t) ts) = 0 \<longleftrightarrow> list_all is_taken ts"
  by (induction ts) auto

lemma main_only_inv:
  assumes inv: "process_inv st s" and step: "main_moves e s = Some t" and e: "\<forall>j. e \<noteq> Joined_next j"
  shows "process_inv st t"
proof -
  obtain m where m: "main_step e (pr_main s) = Some m"
    and t: "t = s\<lparr>pr_main := m, pr_tasks := share_all m (pr_tasks s)\<rparr>"
    using step by (auto simp: main_moves_def split: option.splits)
  have ph: "main_knows (pr_main s) (pr_tasks s)" and
    left: "m_tasks (pr_main s) = length (filter (\<lambda>t. \<not> is_taken t) (pr_tasks s))"
    using inv by (simp_all add: process_inv_def)
  have "main_knows m (pr_tasks s)"
  proof (cases e)
    case NoTaskLeft
    then have all: "list_all is_taken (pr_tasks s)" and zero: "m_tasks (pr_main s) = 0"
      using m left none_left by (auto split: if_splits)
    have "pr_tasks s = []" if "\<not> list_ex is_taken (pr_tasks s)"
      using that all by (cases "pr_tasks s") auto
    then show ?thesis
      using m NoTaskLeft ph all zero by (auto simp: main_knows_def Let_def split: main_phase.splits)
  next
    case SignalReceived
    have "list_ex (\<lambda>t. is_taken t \<and> not_bound t) (pr_tasks s) \<Longrightarrow> list_ex is_taken (pr_tasks s)"
      by (auto simp: list_ex_iff)
    then show ?thesis using m SignalReceived ph by (auto simp: main_knows_def Let_def split: if_splits)
  next
    case GraceElapsed
    then show ?thesis using m ph by (auto simp: main_knows_def Let_def split: if_splits)
  qed (use e in simp)
  moreover have "m_tasks m = m_tasks (pr_main s)"
    using m e by (cases e) (auto split: if_splits main_phase.splits)
  moreover have "list_all (task_ok m) (share_all m (pr_tasks s))"
    using inv task_ok_tokens main_step_tokens [OF m ph] by (auto simp: process_inv_def list_all_iff share_all_def)
  ultimately show ?thesis
    using inv by (simp add: t process_inv_def)
qed

text \<open>Taking a task that is over.\<close>

lemma join_inv:
  assumes inv: "process_inv st s" and i: "i < length (pr_tasks s)" and over: "tk_status (pr_tasks s ! i) = Over j"
    and step: "main_moves (Joined_next j)
      (s\<lparr>pr_tasks := (pr_tasks s)[i := (pr_tasks s ! i)\<lparr>tk_status := Taken j\<rparr>]\<rparr>) = Some t"
  shows "process_inv st t"
proof -
  let ?r = "pr_tasks s ! i"
  obtain m where m: "main_step (Joined_next j) (pr_main s) = Some m"
    and t: "t = s\<lparr>pr_main := m, pr_tasks := share_all m ((pr_tasks s)[i := ?r\<lparr>tk_status := Taken j\<rparr>])\<rparr>"
    using step by (auto simp: main_moves_def simp del: main_step.simps split: option.splits)
  let ?ts = "(pr_tasks s)[i := ?r\<lparr>tk_status := Taken j\<rparr>]"
  have ph: "main_knows (pr_main s) (pr_tasks s)" and all: "list_all (task_ok (pr_main s)) (pr_tasks s)"
    and names: "map tk_task (pr_tasks s) = start_tasks st" and
    left: "m_tasks (pr_main s) = length (filter (\<lambda>t. \<not> is_taken t) (pr_tasks s))"
    using inv by (simp_all add: process_inv_def)
  have ok: "task_ok (pr_main s) ?r" using all i by (simp add: list_all_length)
  then have j: "j = (if not_bound ?r then TaskErr else TaskOk)" "j = TaskOk \<longrightarrow> m_stop (pr_main s)"
    using over by (auto simp: task_ok_def not_bound_def split: if_splits)
  have "Suc (length (filter (\<lambda>t. \<not> is_taken t) ?ts)) = m_tasks (pr_main s)"
    unfolding left by (rule filter_update [OF i]) (simp_all add: is_taken_def over)
  moreover have "m_tasks m = m_tasks (pr_main s) - 1"
    using m by (auto simp: Let_def split: if_splits main_phase.splits)
  ultimately have count: "m_tasks m = length (filter (\<lambda>t. \<not> is_taken t) ?ts)" by simp
  have "list_ex (\<lambda>t. is_taken t \<and> not_bound t) ?ts \<longleftrightarrow>
      not_bound ?r \<or> list_ex (\<lambda>t. is_taken t \<and> not_bound t) (pr_tasks s)"
    using list_ex_update [OF i, of "\<lambda>t. is_taken t \<and> not_bound t"] over by (auto simp: is_taken_def)
  then have "main_knows m ?ts"
    using m ph j by (auto simp: main_knows_def failed_def exit_code_def Let_def split: main_phase.splits if_splits)
  moreover have "list_all (task_ok (pr_main s)) ?ts"
    using all ok j over i by (auto simp: list_all_length nth_list_update task_ok_def not_bound_def split: task_sys.splits)
  then have "list_all (task_ok m) (share_all m ?ts)"
    using task_ok_tokens main_step_tokens [OF m ph] by (auto simp: list_all_iff share_all_def)
  moreover have "map tk_task ?ts = start_tasks st"
    using map_update_same [OF i, of tk_task] names by simp
  ultimately show ?thesis
    using count by (simp add: t process_inv_def)
qed

subsection \<open>Every step keeps it\<close>

text \<open>A step that replaces one entry which was not joined, and is not joined by it.\<close>

lemma replace_inv:
  assumes inv: "process_inv st s" and i: "i < length (pr_tasks s)" and live: "\<not> is_exited s"
    and r: "tk_task r = tk_task (pr_tasks s ! i)" "is_taken r = is_taken (pr_tasks s ! i)"
      "is_taken r \<Longrightarrow> not_bound r = not_bound (pr_tasks s ! i)" "task_ok (pr_main s) r"
  shows "process_inv st (s\<lparr>pr_tasks := (pr_tasks s)[i := r], pr_ops := ops\<rparr>)"
proof -
  have "main_knows (pr_main s) ((pr_tasks s)[i := r])"
    using inv live list_ex_update [OF i, of is_taken] list_ex_update [OF i, of "\<lambda>t. is_taken t \<and> not_bound t"] r(2,3)
    by (auto simp: process_inv_def main_knows_def is_exited_def Let_def split: main_phase.splits)
  moreover have "list_all (task_ok (pr_main s)) ((pr_tasks s)[i := r])"
    using inv r(4) by (simp add: process_inv_def list_all_update)
  ultimately show ?thesis
    using inv r(1,2) map_update_same [OF i, of tk_task r] filter_update_same [OF i, of "\<lambda>t. \<not> is_taken t" r]
    by (simp add: process_inv_def)
qed

lemma process_step_inv:
  assumes inv: "process_inv st s" and step: "process_step e s = Some t"
  shows "process_inv st t"
  using step
proof (cases rule: process_step_cases)
  case (main f)
  then show ?thesis using main_only_inv [OF inv] by blast
next
  case (join i j)
  then show ?thesis using join_inv [OF inv] by blast
next
  case (starts i answer conn_id ops sys)
  have "task_ok (pr_main s) (pr_tasks s ! i)" using inv starts(1) by (simp add: process_inv_def list_all_length)
  then have going: "tk_status (pr_tasks s ! i) = Going" using starts(2) by (simp add: task_ok_def)
  show ?thesis
    unfolding starts(5) using begin_task_ok [OF starts(4) going, of "pr_main s"] going
    by (intro replace_inv [OF inv starts(1,3)]) (auto simp: with_sys_def is_taken_def split: if_splits)
next
  case (moves i te ops sys)
  let ?r = "pr_tasks s ! i"
  have "task_ok (pr_main s) ?r" using inv moves(1) by (simp add: process_inv_def list_all_length)
  from move_task_ok [OF this moves(4,3)] have ok: "task_ok (pr_main s) (?r\<lparr>tk_sys := sys\<rparr>)" .
  have "sys \<noteq> NoSys \<and> tk_sys ?r \<noteq> NoSys"
    using moves(4) by (cases "(tk_task ?r, te, tk_sys ?r)" rule: move_task.cases) (auto split: option.splits)
  then show ?thesis
    unfolding moves(5) using ok by (intro replace_inv [OF inv moves(1,2)]) (simp_all add: not_bound_def)
next
  case (returns i)
  let ?r = "pr_tasks s ! i"
  have ok: "task_ok (pr_main s) ?r" and ph: "main_knows (pr_main s) (pr_tasks s)"
    using inv returns(1) by (simp_all add: process_inv_def list_all_length)
  have "m_force (pr_main s) \<longrightarrow> m_stop (pr_main s)"
    using ph by (auto simp: main_knows_def Let_def split: main_phase.splits)
  then have "task_ok (pr_main s) (?r\<lparr>tk_status := Over TaskOk\<rparr>)"
    using ok returns(4) by (auto simp: task_ok_def has_returned_def proxy_inv_def serve_inv_def udp_told_def
        http_told_def split: task_sys.splits)
  then show ?thesis
    unfolding returns(5) using returns(3)
    by (intro replace_inv [OF inv returns(1,2)]) (simp_all add: is_taken_def)
qed

text \<open>A step is a step of \<open>main\<close>, or \<open>main\<close> does not notice it.\<close>

lemma main_of_step:
  assumes "process_step e s = Some t"
  shows "pr_main t = pr_main s \<or> (\<exists>f. main_step f (pr_main s) = Some (pr_main t))"
  using assms
  by (cases rule: process_step_cases)
    (auto simp: main_moves_def simp del: main_step.simps split: option.splits)

text \<open>The process refines the supervision of \<open>Oxiduct_Main\<close>: what holds of that holds here.\<close>

interpretation process: refining_system "process_init st" process_step "process_inv st"
    "\<lambda>m. m = main_start st" main_step pr_main for st
proof unfold_locales
  fix s assume s: "process_init st s"
  have "list_all (task_ok (main_start st)) (pr_tasks s) \<and> filter (\<lambda>t. \<not> is_taken t) (pr_tasks s) = pr_tasks s \<and>
      \<not> list_ex is_taken (pr_tasks s) \<and> map tk_task (pr_tasks s) = start_tasks st"
    using s by (auto simp: process_init_def process_start_def task_ok_def list_all_iff list_ex_iff is_taken_def
        filter_id_conv o_def)
  moreover have "length (pr_tasks s) = length (start_tasks st)" "pr_main s = main_start st"
    using s by (auto simp: process_init_def process_start_def)
  ultimately show "process_inv st s"
    by (simp add: process_inv_def main_knows_def main_start_def)
next
  fix s t :: process and e
  show "process_inv st s \<Longrightarrow> process_step e s = Some t \<Longrightarrow> process_inv st t" by (rule process_step_inv)
next
  fix s assume "process_init st s"
  then show "pr_main s = main_start st" by (simp add: process_init_def process_start_def)
next
  fix s t :: process and e
  assume "process_step e s = Some t"
  from main_of_step [OF this] show "\<exists>fs. run main_step fs (pr_main s) = Some (pr_main t)"
  proof
    assume "pr_main t = pr_main s"
    then show ?thesis by (intro exI [of _ "[]"]) simp
  next
    assume "\<exists>f. main_step f (pr_main s) = Some (pr_main t)"
    then obtain f where "main_step f (pr_main s) = Some (pr_main t)" by blast
    then show ?thesis by (intro exI [of _ "[f]"]) simp
  qed
qed

section \<open>Properties\<close>

text \<open>
  C9: The exit code of the process tells what happened to its tasks, under every interleaving of \<open>main\<close>, the
  proxies and the exporter: it is 1 exactly if a task that \<open>main\<close> joined could not bind its address,
  and 0 otherwise. Without a signal the process ends only for such a task, with 1; after a signal it
  ends only when every task has ended and was joined, so no failure is lost.
\<close>

theorem process_exit_code:
  assumes "resolve_settings read_to_string from_str args = Inr st"
    and "reach (process_init st) process_step s" and "m_phase (pr_main s) = MExited c"
  shows "c = (if \<exists>t\<in>set (pr_tasks s). is_taken t \<and> not_bound t then 1 else 0) \<and>
    (if m_stop (pr_main s) then \<forall>t\<in>set (pr_tasks s). is_taken t else c = 1) \<and>
    length (pr_tasks s) = length (start_tasks st)"
proof -
  have inv: "process_inv st s" by (rule process.inv_reachable [OF assms(2)])
  have names: "map tk_task (pr_tasks s) = start_tasks st" using inv by (simp add: process_inv_def)
  moreover have "start_tasks st \<noteq> []"
    using resolved_proxies [OF assms(1)] by (simp add: start_tasks_def)
  ultimately have "pr_tasks s \<noteq> []" by auto
  moreover have "length (pr_tasks s) = length (start_tasks st)" using names by (metis length_map)
  ultimately show ?thesis
    using inv assms(3)
    by (auto simp: process_inv_def main_knows_def exit_code_def Let_def list_ex_iff list_all_iff split: if_splits)
qed

theorem process_exit_code_witness:
  "\<exists>st s. resolve_settings (\<lambda>_. Inl ''no file'') (\<lambda>_. Inl ''no toml'') demo_args = Inr st \<and>
     run process_step [TaskStarts 0 (Inl ''in use'') 1, JoinNext 0] (process_start st) = Some s \<and>
     m_phase (pr_main s) = MExited 1 \<and> (\<exists>t\<in>set (pr_tasks s). is_taken t \<and> not_bound t)"
proof -
  obtain st cfg where st: "resolve_settings (\<lambda>_. Inl ''no file'') (\<lambda>_. Inl ''no toml'') demo_args = Inr st"
      and one: "set_proxies st = [cfg]" "set_metrics_listen st = None"
    using demo_resolved by blast
  obtain s where s: "run process_step [TaskStarts 0 (Inl ''in use'') 1, JoinNext 0] (process_start st) = Some s"
      and ex: "m_phase (pr_main s) = MExited 1"
    by (simp add: process_start_def start_tasks_def one main_start_def is_exited_def begin_task_cases
        with_sys_def share_tokens_def main_moves_def failed_def exit_code_def)
  have "reach (process_init st) process_step s"
    by (rule run_reach [OF reach_init s]) (simp add: process_init_def)
  from process_exit_code [OF st this ex] have "\<exists>t\<in>set (pr_tasks s). is_taken t \<and> not_bound t"
    by (auto split: if_splits)
  then show ?thesis using st s ex by blast
qed

text \<open>The proxy listens when the signal arrives.\<close>

definition demo_events :: "process_event list" where
  "demo_events = [TaskStarts 0 (Inr ()) 1, SignalArrives]"

end
