(* ===== verification/Process_Shutdown.thy ===== *)
theory Process_Shutdown
  imports Oxiduct_Process
begin

text \<open>
  The end of the process: after a signal \<open>main\<close> and its tasks come to the exit by moves of their own, at
  the latest once the grace period ran out, whatever peers and resolvers do and whatever the system answers
  to the binds of tasks that were not polled yet; and before, if nothing is left to serve.
\<close>

section \<open>Moves and ranks\<close>

fun own_task :: "task_event \<Rightarrow> bool" where
  "own_task (TcpMoves e) = own_move e"
| "own_task (UdpMoves e) = own_udp e"
| "own_task (HttpMoves e) = (e = HPollStop \<or> e = HNothing \<or> e = HBackedOff)"

text \<open>\<open>answers\<close> are those of the system to the binds; the timer of the grace period is the process's own.\<close>

definition own_process :: "(nat \<Rightarrow> string + unit) \<Rightarrow> process_event \<Rightarrow> bool" where
  "own_process answers e =
     (case e of
        SignalArrives \<Rightarrow> False
      | TaskStarts i answer conn_id \<Rightarrow> answer = answers i
      | TaskMoves i te \<Rightarrow> own_task te
      | _ \<Rightarrow> True)"

text \<open>Every TCP proxy has room for one more task, as in \<open>Tcp_Serve\<close>.\<close>

definition task_roomy :: "task_rec \<Rightarrow> bool" where
  "task_roomy t =
     (case (tk_task t, tk_sys t) of (Proxy cfg, TcpSys p) \<Rightarrow> task_room cfg (px_serve p) | _ \<Rightarrow> True)"

definition process_room :: "process \<Rightarrow> bool" where
  "process_room s = list_all task_roomy (pr_tasks s)"

text \<open>A task that has nothing left to serve.\<close>

definition task_idle :: "task_rec \<Rightarrow> bool" where
  "task_idle t =
     (case tk_sys t of
        TcpSys p \<Rightarrow> list_all (\<lambda>pc. is_over (snd pc)) (px_conns p)
      | UdpSys u \<Rightarrow> udp_idle u
      | _ \<Rightarrow> True)"

text \<open>A task that can end, either forced or idle.\<close>

definition may_end :: "bool \<Rightarrow> task_rec \<Rightarrow> bool" where
  "may_end forced t = (task_roomy t \<and> (forced \<or> task_idle t))"

definition http_rank :: "http_phase \<Rightarrow> nat" where
  "http_rank ph = (case ph of HSelect \<Rightarrow> 1 | HArmed \<Rightarrow> 2 | HBackoff \<Rightarrow> 2 | HReturned \<Rightarrow> 0)"

definition sys_rank :: "bool \<Rightarrow> task_sys \<Rightarrow> nat" where
  "sys_rank forced sys =
     (case sys of
        Spawned \<Rightarrow> 6
      | TcpSys p \<Rightarrow> shutdown_rank p
      | UdpSys u \<Rightarrow> (if forced then udp_rank u else idle_rank u)
      | HttpSys h \<Rightarrow> http_rank (h_phase h)
      | NoSys \<Rightarrow> 0)"

definition rec_rank :: "bool \<Rightarrow> task_rec \<Rightarrow> nat" where
  "rec_rank forced t = (case tk_status t of Going \<Rightarrow> 2 + sys_rank forced (tk_sys t) | Over j \<Rightarrow> 1 | Taken j \<Rightarrow> 0)"

definition main_rank :: "main_phase \<Rightarrow> nat" where
  "main_rank ph = (case ph of MRunning \<Rightarrow> 3 | MGraceful \<Rightarrow> 2 | MForced \<Rightarrow> 1 | MExited c \<Rightarrow> 0)"

definition process_rank :: "bool \<Rightarrow> process \<Rightarrow> nat" where
  "process_rank forced s = main_rank (m_phase (pr_main s)) + sum_list (map (rec_rank forced) (pr_tasks s))"

lemma token_blind [simp]:
  "shutdown_rank (p\<lparr>px_serve := px_serve p\<lparr>sv_stop := stop\<rparr>, px_force := force\<rparr>) = shutdown_rank p"
  "udp_rank (u\<lparr>ud_stop := stop, ud_force := force\<rparr>) = udp_rank u"
  "idle_rank (u\<lparr>ud_stop := stop, ud_force := force\<rparr>) = idle_rank u"
  by (simp_all add: shutdown_rank_def udp_rank_def idle_rank_def)

lemma sys_rank_simps:
  "sys_rank forced Spawned = 6" "sys_rank forced (TcpSys p) = shutdown_rank p"
  "sys_rank forced (UdpSys u) = (if forced then udp_rank u else idle_rank u)"
  "sys_rank forced (HttpSys h) = http_rank (h_phase h)" "sys_rank forced NoSys = 0"
  by (simp_all add: sys_rank_def)

lemma share_rank: "sys_rank forced (share_tokens stop force sys) = sys_rank forced sys"
  by (simp add: share_tokens_def sys_rank_def split: task_sys.split)

lemma shared_rec:
  "rec_rank forced (t\<lparr>tk_sys := share_tokens stop force (tk_sys t)\<rparr>) = rec_rank forced t"
  "task_roomy (t\<lparr>tk_sys := share_tokens stop force (tk_sys t)\<rparr>) = task_roomy t"
proof -
  show "rec_rank forced (t\<lparr>tk_sys := share_tokens stop force (tk_sys t)\<rparr>) = rec_rank forced t"
    by (cases "tk_status t") (simp_all add: rec_rank_def share_rank)
  show "task_roomy (t\<lparr>tk_sys := share_tokens stop force (tk_sys t)\<rparr>) = task_roomy t"
    by (simp add: task_roomy_def share_tokens_def task_room_def split: task.split task_sys.split)
qed

lemma shared_may_end:
  "may_end forced t \<Longrightarrow> stop \<Longrightarrow> may_end forced (t\<lparr>tk_sys := share_tokens stop force (tk_sys t)\<rparr>)"
  unfolding may_end_def shared_rec
  by (auto simp: task_idle_def share_tokens_def udp_idle_def split: task_sys.splits listener.splits)

lemma share_blind [simp]:
  "sum_list (map (rec_rank forced) (share_all m ts)) = sum_list (map (rec_rank forced) ts)"
  by (induction ts) (simp_all add: share_all_def shared_rec)

lemma share_may_end: "list_all (may_end forced) ts \<Longrightarrow> m_stop m \<Longrightarrow> list_all (may_end forced) (share_all m ts)"
  by (induction ts) (simp_all add: share_all_def shared_may_end)

lemma rank_update:
  "i < length ts \<Longrightarrow> rec_rank forced t < rec_rank forced (ts ! i) \<Longrightarrow>
     sum_list (map (rec_rank forced) (ts[i := t])) < sum_list (map (rec_rank forced) ts)"
  using sum_map_update [of i ts "rec_rank forced" t] by linarith

section \<open>Progress of a task\<close>

text \<open>A task that can end and has not returned moves on its own.\<close>

lemma ending_task_moves:
  assumes ok: "task_ok m t" and stop: "m_stop m" and force: "m_force m = forced" and may: "may_end forced t"
    and sys: "tk_sys t \<noteq> Spawned" "tk_sys t \<noteq> NoSys" and unfinished: "\<not> has_returned (tk_sys t)"
  shows "\<exists>e ops u. own_task e \<and> \<not> token_event e \<and> move_task (tk_task t) e (tk_sys t) = Some (ops, u) \<and>
    may_end forced (t\<lparr>tk_sys := u\<rparr>) \<and> sys_rank forced u < sys_rank forced (tk_sys t)"
proof (cases "tk_sys t")
  case (TcpSys p)
  then obtain cfg where t: "tk_task t = Proxy cfg" and inv: "proxy_inv cfg p" and pf: "px_force p = forced"
    using ok force by (auto simp: task_ok_def)
  have "ending cfg p" and "sv_phase (px_serve p) \<noteq> Returned"
    using ok stop pf may t TcpSys unfinished
    by (auto simp: ending_def task_ok_def may_end_def task_roomy_def task_idle_def has_returned_def)
  then obtain e q where e: "own_move e" "roomy_proxy_step cfg e p = Some q" "ending cfg q"
      "shutdown_rank q < shutdown_rank p"
    using proxy_shutdown.progress [OF inv] by blast
  have no_token: "e \<noteq> Serve StopFires" "e \<noteq> ForceFires" using e(1) by auto
  have "proxy_step cfg e p = Some q" using e(2) by (simp add: roomy_proxy_step_def split: if_splits)
  from proxy_tokens_kept [OF this no_token] have "px_force q = forced" using pf by simp
  then show ?thesis
    using t TcpSys e no_token
    by (intro exI [of _ "TcpMoves e"] exI [of _ "new_ops (px_ops p) (px_ops q)"] exI [of _ "TcpSys q"])
      (auto simp: token_event_def may_end_def task_roomy_def task_idle_def ending_def sys_rank_def)
next
  case (UdpSys u)
  then obtain cfg where t: "tk_task t = Proxy cfg" and uf: "ud_force u = forced"
    using ok force by (auto simp: task_ok_def)
  have run: "ud_listener u \<noteq> LReturned" using UdpSys unfinished by (simp add: has_returned_def)
  obtain e v where e: "own_udp (Listener e)" "listener_step cfg e u = Some v"
      "if forced then udp_rank v < udp_rank u else udp_idle v \<and> idle_rank v < idle_rank u"
  proof (cases forced)
    case True
    then show thesis using that listener_moves [of u cfg] uf run by auto
  next
    case False
    then have "udp_idle u" using may UdpSys by (simp add: may_end_def task_idle_def)
    then show thesis using that drain_moves [of u cfg] uf run False by auto
  qed
  then show ?thesis
    using t UdpSys by (intro exI [of _ "UdpMoves (Listener e)"] exI [of _ "new_ops (ud_ops u) (ud_ops v)"]
        exI [of _ "UdpSys v"])
      (auto simp: token_event_def may_end_def task_roomy_def task_idle_def sys_rank_def split: if_splits)
next
  case (HttpSys h)
  then obtain addr where t: "tk_task t = Exporter addr" and "h_stop h"
    using ok stop by (auto simp: task_ok_def)
  define e where "e = (case h_phase h of HSelect \<Rightarrow> HPollStop | HArmed \<Rightarrow> HNothing | _ \<Rightarrow> HBackedOff)"
  obtain v where v: "http_step e h = Some v" "http_rank (h_phase v) < http_rank (h_phase h)"
    using \<open>h_stop h\<close> HttpSys unfinished
    by (cases "h_phase h") (auto simp: e_def has_returned_def http_rank_def)
  have "own_task (HttpMoves e)" "\<not> token_event (HttpMoves e)"
    by (auto simp: e_def token_event_def split: http_phase.split)
  then show ?thesis
    using t HttpSys v by (intro exI [of _ "HttpMoves e"] exI [of _ "[]"] exI [of _ "HttpSys v"])
      (simp add: may_end_def task_idle_def task_roomy_def sys_rank_def)
qed (use sys in simp_all)

text \<open>The first poll of a task, whatever its bind is answered.\<close>

lemma started_ranks:
  "shutdown_rank (proxy_start cfg conn_id) = 2" "udp_rank (udp_start cfg) = 2" "idle_rank (udp_start cfg) = 5"
  by (simp_all add: shutdown_rank_def proxy_start_def serve_start_def phase_rank_def udp_rank_def
      udp_start_def listener_rank_def pool_rank_def idle_rank_def)

lemma started_idle:
  "list_all (\<lambda>pc. is_over (snd pc)) (px_conns (proxy_start cfg conn_id))"
  "udp_idle (udp_start cfg\<lparr>ud_stop := True, ud_force := force\<rparr>)"
  "task_room cfg (px_serve (proxy_start cfg conn_id)\<lparr>sv_stop := stop\<rparr>)"
  by (simp_all add: proxy_start_def udp_start_def udp_idle_def task_room_def serve_start_def)

lemmas begun = begin_task_cases with_sys_def share_tokens_def may_end_def task_roomy_def task_idle_def
  started_idle

lemma started_rank:
  assumes "begin_task answer conn_id (tk_task t) = (ops, sys)" and "tk_sys t = Spawned" and "tk_status t = Going"
  shows "rec_rank forced (with_sys (share_tokens stop force sys) t) < rec_rank forced t"
  using assms
  by (cases "tk_task t"; cases answer; cases "cfg_protocol (case tk_task t of Proxy c \<Rightarrow> c)")
    (auto simp: begin_task_cases with_sys_def rec_rank_def share_rank sys_rank_simps started_ranks
      http_rank_def http_start_def)

lemma started_may_end:
  assumes "begin_task answer conn_id (tk_task t) = (ops, sys)"
  shows "may_end forced (with_sys (share_tokens True force sys) t)"
  using assms
  by (cases "tk_task t"; cases answer; cases "cfg_protocol (case tk_task t of Proxy c \<Rightarrow> c)") (auto simp: begun)

section \<open>Progress of the process\<close>

text \<open>
  Two ways to the exit: the forced one waits for the timer of the grace period, the other one does without
  it and needs idle tasks.
\<close>

definition live_process :: "bool \<Rightarrow> process \<Rightarrow> bool" where
  "live_process forced s \<longleftrightarrow>
     m_stop (pr_main s) \<and> (forced \<or> \<not> m_force (pr_main s)) \<and> list_all (may_end forced) (pr_tasks s)"

definition own_move_of :: "bool \<Rightarrow> (nat \<Rightarrow> string + unit) \<Rightarrow> process_event \<Rightarrow> bool" where
  "own_move_of forced answers e \<longleftrightarrow> own_process answers e \<and> (forced \<or> e \<noteq> GraceRunsOut)"

text \<open>A move of \<open>main\<close> that keeps the stop token and leaves the entries but their tokens.\<close>

lemma main_lowers:
  assumes "live_process forced s" and "m_stop m" and "forced \<or> \<not> m_force m"
    and "list_all (may_end forced) ts"
    and "main_rank (m_phase m) + sum_list (map (rec_rank forced) ts) < process_rank forced s"
  shows "live_process forced (s\<lparr>pr_main := m, pr_tasks := share_all m ts\<rparr>) \<and>
    process_rank forced (s\<lparr>pr_main := m, pr_tasks := share_all m ts\<rparr>) < process_rank forced s"
  using assms share_may_end [of forced ts m] by (simp add: live_process_def process_rank_def)

text \<open>An entry of the join set that moves on.\<close>

lemma task_progress:
  assumes inv: "process_inv st s" and live: "live_process forced s"
    and ph: "m_phase (pr_main s) = (if forced then MForced else MGraceful)"
    and i: "i < length (pr_tasks s)" and left: "\<not> is_taken (pr_tasks s ! i)"
  shows "\<exists>e t. own_move_of forced answers e \<and> process_step e s = Some t \<and> live_process forced t \<and>
    process_rank forced t < process_rank forced s"
proof -
  let ?r = "pr_tasks s ! i" and ?m = "pr_main s"
  have ok: "task_ok ?m ?r" and may: "may_end forced ?r" and stop: "m_stop ?m"
    using inv live i by (simp_all add: process_inv_def live_process_def list_all_length)
  have force: "m_force ?m = forced"
    using inv ph by (auto simp: process_inv_def main_knows_def split: if_splits)
  have run: "\<not> is_exited s" using ph by (simp add: is_exited_def)
  have lower: "live_process forced t \<and> process_rank forced t < process_rank forced s"
    if "t = s\<lparr>pr_tasks := (pr_tasks s)[i := r], pr_ops := ops\<rparr>" "may_end forced r"
      "rec_rank forced r < rec_rank forced ?r" for t r ops
    using that live rank_update [OF i that(3)]
    by (simp add: live_process_def process_rank_def list_all_update)
  show ?thesis
  proof (cases "tk_status ?r")
    case (Over j)
    have "m_tasks ?m \<noteq> 0"
      using inv none_left [of "pr_tasks s"] left i by (auto simp: process_inv_def list_all_length)
    let ?n = "?m\<lparr>m_tasks := m_tasks ?m - 1, m_any_error := m_any_error ?m \<or> failed j\<rparr>"
      and ?q = "?r\<lparr>tk_status := Taken j\<rparr>"
    let ?t = "s\<lparr>pr_main := ?n, pr_tasks := share_all ?n ((pr_tasks s)[i := ?q])\<rparr>"
    have less: "rec_rank forced ?q < rec_rank forced ?r" using Over by (simp add: rec_rank_def)
    have "may_end forced ?q" using may by (simp add: may_end_def task_roomy_def task_idle_def)
    then have "live_process forced ?t \<and> process_rank forced ?t < process_rank forced s"
      using live rank_update [OF i less] stop force
      by (intro main_lowers) (auto simp: live_process_def process_rank_def list_all_update)
    moreover have "process_step (JoinNext i) s = Some ?t"
      using i Over ph \<open>m_tasks ?m \<noteq> 0\<close> by (simp add: main_moves_def Let_def split: if_splits)
    ultimately show ?thesis
      by (intro exI [of _ "JoinNext i"] exI [of _ ?t]) (simp add: own_move_of_def own_process_def)
  next
    case Going
    then have sys: "tk_sys ?r \<noteq> NoSys" using ok by (auto simp: task_ok_def)
    show ?thesis
    proof (cases "tk_sys ?r = Spawned")
      case True
      obtain ops u where b: "begin_task (answers i) 0 (tk_task ?r) = (ops, u)" by fastforce
      let ?q = "with_sys (share_tokens (m_stop ?m) (m_force ?m) u) ?r"
      let ?t = "s\<lparr>pr_tasks := (pr_tasks s)[i := ?q], pr_ops := pr_ops s @ ops\<rparr>"
      have "live_process forced ?t \<and> process_rank forced ?t < process_rank forced s"
        using started_rank [OF b True Going] started_may_end [OF b] stop by (intro lower) simp_all
      then show ?thesis
        using True b i run
        by (intro exI [of _ "TaskStarts i (answers i) 0"] exI [of _ ?t]) (simp add: own_move_of_def own_process_def)
    next
      case started: False
      show ?thesis
      proof (cases "has_returned (tk_sys ?r)")
        case True
        let ?q = "?r\<lparr>tk_status := Over TaskOk\<rparr>"
        let ?t = "s\<lparr>pr_tasks := (pr_tasks s)[i := ?q], pr_ops := pr_ops s\<rparr>"
        have "live_process forced ?t \<and> process_rank forced ?t < process_rank forced s"
          using Going may by (intro lower [where r = ?q and ops = "pr_ops s"])
            (simp_all add: rec_rank_def may_end_def task_roomy_def task_idle_def)
        then show ?thesis
          using True Going i run
          by (intro exI [of _ "TaskReturns i"] exI [of _ ?t]) (simp add: own_move_of_def own_process_def)
      next
        case False
        obtain e ops u where e: "own_task e" "\<not> token_event e"
            "move_task (tk_task ?r) e (tk_sys ?r) = Some (ops, u)"
            "may_end forced (?r\<lparr>tk_sys := u\<rparr>)" "sys_rank forced u < sys_rank forced (tk_sys ?r)"
          using ending_task_moves [OF ok stop force may started sys False] by blast
        let ?t = "s\<lparr>pr_tasks := (pr_tasks s)[i := ?r\<lparr>tk_sys := u\<rparr>], pr_ops := pr_ops s @ ops\<rparr>"
        have "live_process forced ?t \<and> process_rank forced ?t < process_rank forced s"
          using e Going by (intro lower) (auto simp: rec_rank_def)
        then show ?thesis
          using e i run
          by (intro exI [of _ "TaskMoves i e"] exI [of _ ?t]) (simp add: own_move_of_def own_process_def)
      qed
    qed
  qed (use left in \<open>simp add: is_taken_def\<close>)
qed

interpretation process_end: progress_system "process_init st" process_step "process_inv st"
    "live_process forced" is_exited "own_move_of forced answers" "process_rank forced" for st forced answers
proof unfold_locales
  fix s
  assume inv: "process_inv st s" and live: "live_process forced s" and unfinished: "\<not> is_exited s"
  let ?m = "pr_main s"
  have knows: "main_knows ?m (pr_tasks s)" and stop: "m_stop ?m"
    using inv live by (simp_all add: process_inv_def live_process_def)
  have phase: "m_phase ?m = MGraceful \<or> m_phase ?m = MForced"
    using knows stop unfinished by (cases "m_phase ?m") (auto simp: main_knows_def is_exited_def)
  have "m_phase ?m = MForced \<longrightarrow> m_force ?m" using knows by (auto simp: main_knows_def)
  then have "m_phase ?m = MForced \<longrightarrow> forced" using live by (auto simp: live_process_def)
  with phase consider (grace) "forced" "m_phase ?m = MGraceful"
    | (drain) "m_phase ?m = (if forced then MForced else MGraceful)"
    by (cases forced) auto
  then show "\<exists>e t. own_move_of forced answers e \<and> process_step e s = Some t \<and> live_process forced t \<and>
      process_rank forced t < process_rank forced s"
  proof cases
    case grace
    let ?n = "?m\<lparr>m_phase := MForced, m_force := True\<rparr>"
    let ?t = "s\<lparr>pr_main := ?n, pr_tasks := share_all ?n (pr_tasks s)\<rparr>"
    have "process_step GraceRunsOut s = Some ?t" using grace by (simp add: main_moves_def)
    moreover have "live_process forced ?t \<and> process_rank forced ?t < process_rank forced s"
      using live grace by (intro main_lowers) (simp_all add: live_process_def process_rank_def main_rank_def)
    ultimately show ?thesis
      using grace by (intro exI [of _ GraceRunsOut] exI [of _ ?t]) (simp add: own_move_of_def own_process_def)
  next
    case drain
    show ?thesis
    proof (cases "list_all is_taken (pr_tasks s)")
      case True
      then have zero: "m_tasks ?m = 0"
        using inv none_left [of "pr_tasks s"] by (simp add: process_inv_def)
      let ?n = "?m\<lparr>m_phase := MExited (exit_code (m_any_error ?m))\<rparr>"
      let ?t = "s\<lparr>pr_main := ?n, pr_tasks := share_all ?n (pr_tasks s)\<rparr>"
      have "process_step AllJoined s = Some ?t"
        using drain zero by (simp add: main_moves_def split: if_splits)
      moreover have "live_process forced ?t \<and> process_rank forced ?t < process_rank forced s"
        using live drain by (intro main_lowers) (auto simp: live_process_def process_rank_def main_rank_def)
      ultimately show ?thesis
        by (intro exI [of _ AllJoined] exI [of _ ?t]) (simp add: own_move_of_def own_process_def)
    next
      case False
      then obtain i where "i < length (pr_tasks s)" "\<not> is_taken (pr_tasks s ! i)"
        by (auto simp: list_all_length)
      then show ?thesis using task_progress [OF inv live drain] by blast
    qed
  qed
qed

section \<open>Properties\<close>

text \<open>How many moves a task may need: for each connection of a TCP proxy, each setup and session of a UDP proxy.\<close>

definition most_moves :: "task_rec \<Rightarrow> nat" where
  "most_moves t =
     (case tk_sys t of
        Spawned \<Rightarrow> 8
      | TcpSys p \<Rightarrow> 5 + length (px_conns p) * (2 * BUF_SIZE + 12)
      | UdpSys u \<Rightarrow> 9 + 3 * length (ud_setups u) + 4 * length (ud_pool u)
      | HttpSys h \<Rightarrow> 4
      | NoSys \<Rightarrow> 1)"

lemma rec_rank_bound:
  assumes "task_ok m t"
  shows "rec_rank forced t \<le> most_moves t"
proof (cases "tk_sys t")
  case (TcpSys p)
  then obtain cfg where "proxy_inv cfg p" using assms by (auto simp: task_ok_def)
  from shutdown_rank_bound [OF this] show ?thesis
    using TcpSys by (simp add: rec_rank_def most_moves_def sys_rank_def split: task_status.split)
next
  case (UdpSys u)
  then show ?thesis
    using udp_rank_bound [of u] idle_rank_bound [of u] by (simp add: rec_rank_def most_moves_def sys_rank_def split: task_status.split)
next
  case (HttpSys h)
  then show ?thesis
    by (simp add: rec_rank_def most_moves_def sys_rank_def http_rank_def split: task_status.split http_phase.split)
qed (use assms in \<open>auto simp: rec_rank_def most_moves_def sys_rank_def task_ok_def split: task_status.split\<close>)

lemma process_rank_bound:
  assumes "process_inv st s"
  shows "process_rank forced s \<le> 3 + sum_list (map most_moves (pr_tasks s))"
proof -
  have "sum_list (map (rec_rank forced) (pr_tasks s)) \<le> sum_list (map most_moves (pr_tasks s))"
    using assms by (intro sum_list_mono) (auto simp: process_inv_def list_all_iff intro: rec_rank_bound)
  moreover have "main_rank (m_phase (pr_main s)) \<le> 3" by (simp add: main_rank_def split: main_phase.split)
  ultimately show ?thesis by (simp add: process_rank_def)
qed

lemma comes_to_exit:
  assumes inv: "process_inv st s" and live: "live_process forced s"
  shows "\<exists>es t c. run process_step es s = Some t \<and> list_all (own_move_of forced answers) es \<and>
    length es \<le> 3 + sum_list (map most_moves (pr_tasks s)) \<and> process_inv st t \<and> live_process forced t \<and>
    m_phase (pr_main t) = MExited c \<and> (\<forall>r\<in>set (pr_tasks t). is_taken r)"
proof -
  obtain es t where t: "run process_step es s = Some t" "is_exited t" "live_process forced t"
      "list_all (own_move_of forced answers) es" "length es \<le> process_rank forced s"
    using process_end.completes_live [OF inv live, of answers] by blast
  have tinv: "process_inv st t" by (rule process.inv_along_run [OF inv t(1)])
  obtain c where c: "m_phase (pr_main t) = MExited c" using t(2) by (auto simp: is_exited_def)
  have "m_stop (pr_main t)" using t(3) by (simp add: live_process_def)
  then have "\<forall>r\<in>set (pr_tasks t). is_taken r"
    using tinv c by (simp add: process_inv_def main_knows_def list_all_iff)
  then show ?thesis using t c tinv process_rank_bound [OF inv, of forced] by (meson order_trans)
qed

text \<open>
  C5: A signal ends the process. From every reachable state after one, moves of the process alone, the timer of
  the grace period among them, lead to its exit: no peer and no resolver of a target can hold it up,
  every proxy and the exporter are joined before, and with the tasks at hand at most \<open>3 + \<close> the sum of
  \<open>most_moves\<close> such moves are needed. A bind that is still to come counts as one move, whatever the
  system answers to it; how long the system takes for the answer is not bounded here.
\<close>

theorem process_exits:
  assumes "reach (process_init st) process_step s" and "m_stop (pr_main s)" and "process_room s"
  shows "\<exists>es t c. run process_step es s = Some t \<and> list_all (own_process answers) es \<and>
    length es \<le> 3 + sum_list (map most_moves (pr_tasks s)) \<and>
    m_phase (pr_main t) = MExited c \<and> (\<forall>r\<in>set (pr_tasks t). is_taken r)"
proof -
  have "live_process True s"
    using assms(2,3) by (simp add: live_process_def process_room_def may_end_def list_all_iff)
  then obtain es t c where t: "run process_step es s = Some t" "list_all (own_move_of True answers) es"
      "length es \<le> 3 + sum_list (map most_moves (pr_tasks s))" "m_phase (pr_main t) = MExited c"
      "\<forall>r\<in>set (pr_tasks t). is_taken r"
    using comes_to_exit [OF process.inv_reachable [OF assms(1)], of True answers] by blast
  moreover have "list_all (own_process answers) es" using t(2) by (auto simp: own_move_of_def list_all_iff)
  ultimately show ?thesis by blast
qed

text \<open>
  C6: Nobody waits for nothing. From every reachable state after a signal in which the grace period still runs
  and every task is idle (no connection of a TCP proxy is in progress; no session, setup or datagram of a
  UDP proxy is left), moves of the process alone, the timer not among them, lead to its exit within
  the same bound: every task is joined and nothing was forced.
\<close>

theorem idle_process_exits:
  assumes "reach (process_init st) process_step s" and "m_stop (pr_main s)" and "process_room s"
    and "\<not> m_force (pr_main s)" and "list_all task_idle (pr_tasks s)"
  shows "\<exists>es t c. run process_step es s = Some t \<and> list_all (own_process answers) es \<and>
    GraceRunsOut \<notin> set es \<and> length es \<le> 3 + sum_list (map most_moves (pr_tasks s)) \<and>
    m_phase (pr_main t) = MExited c \<and> \<not> m_force (pr_main t) \<and> (\<forall>r\<in>set (pr_tasks t). is_taken r)"
proof -
  have "live_process False s"
    using assms(2-5) by (simp add: live_process_def process_room_def may_end_def list_all_iff)
  then obtain es t c where t: "run process_step es s = Some t" "list_all (own_move_of False answers) es"
      "length es \<le> 3 + sum_list (map most_moves (pr_tasks s))" "m_phase (pr_main t) = MExited c"
      "live_process False t" "\<forall>r\<in>set (pr_tasks t). is_taken r"
    using comes_to_exit [OF process.inv_reachable [OF assms(1)], of False answers] by blast
  moreover have "list_all (own_process answers) es" "GraceRunsOut \<notin> set es"
    using t(2) by (auto simp: own_move_of_def list_all_iff)
  moreover have "\<not> m_force (pr_main t)" using t(5) by (simp add: live_process_def)
  ultimately show ?thesis by blast
qed

section \<open>A process with one proxy\<close>

lemma demo_runs:
  "\<exists>st s. run process_step demo_events (process_start st) = Some s \<and> m_stop (pr_main s) \<and> process_room s \<and>
     \<not> m_force (pr_main s) \<and> list_all task_idle (pr_tasks s) \<and> resolve_settings (\<lambda>_. Inl ''no file'') (\<lambda>_. Inl ''no toml'') demo_args = Inr st"
proof -
  obtain st cfg where st: "resolve_settings (\<lambda>_. Inl ''no file'') (\<lambda>_. Inl ''no toml'') demo_args = Inr st"
      and one: "set_proxies st = [cfg]" "set_metrics_listen st = None" "cfg_protocol cfg = Tcp"
    using demo_resolved by blast
  have "\<exists>s. run process_step demo_events (process_start st) = Some s \<and> m_stop (pr_main s) \<and> process_room s \<and>
      \<not> m_force (pr_main s) \<and> list_all task_idle (pr_tasks s)"
    by (simp add: task_idle_def demo_events_def process_start_def start_tasks_def one main_start_def is_exited_def
        begin_task_cases with_sys_def share_tokens_def main_moves_def share_all_def process_room_def
        task_roomy_def task_room_def proxy_start_def serve_start_def)
  then show ?thesis using st by blast
qed

theorem process_exits_witness:
  "\<exists>st s. run process_step demo_events (process_start st) = Some s \<and>
     (\<exists>es t c. run process_step es s = Some t \<and> list_all (own_process (\<lambda>i. Inr ())) es \<and>
        m_phase (pr_main t) = MExited c)"
proof -
  obtain st s where s: "run process_step demo_events (process_start st) = Some s" "m_stop (pr_main s)"
      "process_room s"
    using demo_runs by blast
  have "reach (process_init st) process_step s"
    by (rule run_reach [OF reach_init s(1)]) (simp add: process_init_def)
  from process_exits [OF this s(2,3), of "\<lambda>i. Inr ()"] show ?thesis using s(1) by blast
qed

theorem idle_process_exits_witness:
  "\<exists>st s. run process_step demo_events (process_start st) = Some s \<and>
     (\<exists>es t c. run process_step es s = Some t \<and> GraceRunsOut \<notin> set es \<and>
        m_phase (pr_main t) = MExited c \<and> \<not> m_force (pr_main t))"
proof -
  obtain st s where s: "run process_step demo_events (process_start st) = Some s" "m_stop (pr_main s)"
      "process_room s" "\<not> m_force (pr_main s)" "list_all task_idle (pr_tasks s)"
    using demo_runs by blast
  have "reach (process_init st) process_step s"
    by (rule run_reach [OF reach_init s(1)]) (simp add: process_init_def)
  from idle_process_exits [OF this s(2-5), of "\<lambda>i. Inr ()"] show ?thesis using s(1) by blast
qed

end
