(* ===== verification/Process_Metrics.thy ===== *)
theory Process_Metrics
  imports Oxiduct_Process
begin

text \<open>
  One registry for all proxies: each proxy makes its calls under its own name, so what the exporter renders
  under that name is the proxy's own, whatever the other proxies do.
\<close>

section \<open>The calls of one step\<close>

lemma relay_op_proxy: "relay_op nm op \<Longrightarrow> proxy_op nm op"
  by (simp add: relay_op_def proxy_op_def)

lemma new_ops_all: "list_all P ops' \<Longrightarrow> list_all P (new_ops ops ops')"
  unfolding list_all_iff new_ops_def by (meson in_set_dropD)

lemma conn_proxy_ops:
  assumes inv: "conn_inv cfg peer c" and step: "conn_step cfg peer e c = Some c'"
  shows "list_all (proxy_op (cfg_name cfg)) (new_ops (cn_ops c) (cn_ops c'))"
proof (cases e)
  case (RelayMoves re)
  then obtain r r' where ph: "cn_phase c = InRelay r" and st: "relay_step cfg re r = Some r'"
    and c': "c' = c\<lparr>cn_phase := InRelay r',
      cn_ops := cn_ops c @ new_ops (metric_ops (r_shared r)) (metric_ops (r_shared r'))\<rparr>"
    using step by (auto split: conn_phase.splits if_splits option.splits)
  have "relay_inv cfg r"
    using inv ph relay.inv_reachable [of cfg r] by (simp add: conn_inv_def)
  then have "relay_inv cfg r'" using relay.inv_next [OF _ st] by blast
  then have "list_all (proxy_op (cfg_name cfg)) (metric_ops (r_shared r'))"
    by (auto simp: relay_inv_def closed_inv_def list_all_iff intro: relay_op_proxy)
  then show ?thesis by (simp add: c' new_ops_all)
next
  case (ConnectEnds r a now)
  then have "c' = connect_ends cfg peer r a now c"
    using step by (auto split: conn_phase.splits)
  then show ?thesis
    by (cases r) (auto simp: connect_ends_def begin_relay_def call_metric_def Let_def proxy_op_def well_labelled_def)
qed (use step in \<open>auto simp: begin_relay_def call_metric_def Let_def proxy_op_def well_labelled_def
    split: conn_phase.splits if_splits\<close>)

lemma tcp_proxy_ops:
  assumes inv: "proxy_inv cfg s" and step: "proxy_step cfg e s = Some t"
  shows "\<exists>ops. px_ops t = px_ops s @ ops \<and> list_all (proxy_op (cfg_name cfg)) ops"
proof (cases e)
  case (Serve se)
  then obtain u where st: "serve_step cfg se (px_serve s) = Some u"
    and t: "px_ops t = px_ops s @ new_ops (sv_ops (px_serve s)) (sv_ops u)"
    using step by (auto split: if_splits option.splits)
  have "list_all (proxy_op (cfg_name cfg)) (new_ops (sv_ops (px_serve s)) (sv_ops u))"
    using serve_step_tasks [OF st] by (cases se) (auto simp: proxy_op_def well_labelled_def)
  then show ?thesis using t by blast
next
  case (Conn i ce)
  then obtain p c c' where i: "i < length (px_conns s)" "px_conns s ! i = (p, c)"
    and st: "conn_step cfg p ce c = Some c'" and t: "px_ops t = px_ops s @ new_ops (cn_ops c) (cn_ops c')"
    using step by (auto split: if_splits option.splits prod.splits)
  have "conn_inv cfg p c" using inv nth_mem [OF i(1)] i(2) by (auto simp: proxy_inv_def)
  from conn_proxy_ops [OF this st] show ?thesis using t by blast
next
  case ForceFires
  then show ?thesis using step by (auto split: if_splits)
qed

lemma move_task_ops:
  assumes ok: "task_ok m t" and mv: "move_task (tk_task t) e (tk_sys t) = Some (ops, sys)"
  shows "case (tk_task t, tk_sys t, sys) of
      (Proxy cfg, TcpSys p, TcpSys q) \<Rightarrow> px_ops q = px_ops p @ ops \<and> list_all (proxy_op (cfg_name cfg)) ops
    | (Proxy cfg, UdpSys u, UdpSys v) \<Rightarrow> ud_ops v = ud_ops u @ ops \<and> list_all (proxy_op (cfg_name cfg)) ops
    | (Exporter addr, HttpSys h, HttpSys h') \<Rightarrow> ops = []
    | _ \<Rightarrow> False"
proof (cases "(tk_task t, e, tk_sys t)" rule: move_task.cases)
  case (1 cfg pe p)
  then obtain q where q: "roomy_proxy_step cfg pe p = Some q" "ops = new_ops (px_ops p) (px_ops q)" "sys = TcpSys q"
    using mv by (auto split: option.splits)
  have "proxy_inv cfg p" using ok 1 by (auto simp: task_ok_def)
  from tcp_proxy_ops [OF this] q(1) show ?thesis
    using 1 q(2,3) by (fastforce simp: roomy_proxy_step_def split: if_splits)
next
  case (2 cfg ue u)
  then obtain v where v: "udp_step cfg ue u = Some v" "ops = new_ops (ud_ops u) (ud_ops v)" "sys = UdpSys v"
    using mv by (auto split: option.splits)
  then show ?thesis using 2 udp_appends [OF v(1)] by (auto simp: appends_def)
next
  case (3 addr he h)
  then show ?thesis using mv by (auto split: option.splits)
qed (use mv in simp_all)

section \<open>Invariant\<close>

text \<open>What a proxy has called so far: its limits when it was polled first, then the calls of its tasks.\<close>

definition own_calls :: "task_rec \<Rightarrow> metric_op list" where
  "own_calls t =
     (case tk_task t of
        Exporter addr \<Rightarrow> []
      | Proxy cfg \<Rightarrow>
          (case tk_sys t of
             Spawned \<Rightarrow> []
           | TcpSys p \<Rightarrow> publish_limits cfg @ px_ops p
           | UdpSys u \<Rightarrow> publish_limits cfg @ ud_ops u
           | _ \<Rightarrow> publish_limits cfg))"

definition calls_of :: "string \<Rightarrow> metric_op list \<Rightarrow> metric_op list" where
  "calls_of nm ops = filter (\<lambda>op. hd (op_labels op) = nm) ops"

definition has_name :: "string \<Rightarrow> task_rec \<Rightarrow> bool" where
  "has_name nm t \<longleftrightarrow> (case tk_task t of Exporter addr \<Rightarrow> False | Proxy cfg \<Rightarrow> cfg_name cfg = nm)"

text \<open>The names of the proxies are distinct: two entries with one name are the same entry.\<close>

definition names_apart :: "task_rec list \<Rightarrow> bool" where
  "names_apart ts \<longleftrightarrow>
     (\<forall>i j nm. i < length ts \<longrightarrow> j < length ts \<longrightarrow> has_name nm (ts ! i) \<longrightarrow> has_name nm (ts ! j) \<longrightarrow> i = j)"

definition metrics_inv :: "process \<Rightarrow> bool" where
  "metrics_inv s \<longleftrightarrow>
     names_apart (pr_tasks s) \<and>
     list_all (\<lambda>op. well_labelled op \<and> list_ex (has_name (hd (op_labels op))) (pr_tasks s)) (pr_ops s) \<and>
     (\<forall>t\<in>set (pr_tasks s). \<forall>nm. has_name nm t \<longrightarrow> calls_of nm (pr_ops s) = own_calls t)"

lemma calls_of_simps [simp]:
  "calls_of nm [] = []" "calls_of nm (ops @ ops') = calls_of nm ops @ calls_of nm ops'"
  by (simp_all add: calls_of_def)

lemma calls_of_proxy:
  "list_all (proxy_op nm') ops \<Longrightarrow> calls_of nm ops = (if nm = nm' then ops else [])"
  by (induction ops) (auto simp: calls_of_def proxy_op_def)

text \<open>A step by which one entry makes some calls under its own name, or none.\<close>

lemma calls_step:
  assumes inv: "metrics_inv s" and i: "i < length (pr_tasks s)"
    and task: "tk_task r = tk_task (pr_tasks s ! i)"
    and calls: "own_calls r = own_calls (pr_tasks s ! i) @ ops"
    and named: "\<forall>op\<in>set ops. \<exists>nm. has_name nm r \<and> proxy_op nm op"
  shows "metrics_inv (s\<lparr>pr_tasks := (pr_tasks s)[i := r], pr_ops := pr_ops s @ ops\<rparr>)"
proof -
  let ?ts = "(pr_tasks s)[i := r]"
  have same: "has_name nm (?ts ! j) = has_name nm (pr_tasks s ! j)" if "j < length ?ts" for nm j
    using that task by (cases "i = j") (simp_all add: has_name_def)
  have apart: "names_apart (pr_tasks s)" using inv by (simp add: metrics_inv_def)
  then have "names_apart ?ts" using same by (simp add: names_apart_def)
  moreover have "list_ex (has_name nm) ?ts = list_ex (has_name nm) (pr_tasks s)" for nm
    using same by (auto simp: list_ex_length)
  moreover have "list_ex (has_name nm) ?ts" if "has_name nm r" for nm
    using i that by (auto simp: list_ex_length)
  then have "list_all (\<lambda>op. well_labelled op \<and> list_ex (has_name (hd (op_labels op))) ?ts) ops"
    using named by (fastforce simp: list_all_iff proxy_op_def)
  moreover have "calls_of nm (pr_ops s @ ops) = own_calls t" if t: "t \<in> set ?ts" "has_name nm t" for t nm
  proof -
    obtain j where j: "j < length (pr_tasks s)" "t = ?ts ! j" using t(1) by (auto simp: in_set_conv_nth)
    have nm: "has_name nm (pr_tasks s ! j)" using same j t(2) by simp
    then have old: "calls_of nm (pr_ops s) = own_calls (pr_tasks s ! j)"
      using inv j(1) by (simp add: metrics_inv_def)
    have only: "nm' = nm" if "has_name nm' r" "i = j" for nm'
      using that nm task by (auto simp: has_name_def split: task.splits)
    show ?thesis
    proof (cases "i = j")
      case True
      then have "list_all (proxy_op nm) ops" using named only by (auto simp: list_all_iff)
      then show ?thesis using old calls j True calls_of_proxy [of nm ops nm] by simp
    next
      case False
      then have "\<not> has_name nm r"
        using apart i j(1) nm task by (auto simp: names_apart_def has_name_def)
      then have "calls_of nm ops = []"
        using named by (fastforce simp: calls_of_def filter_empty_conv proxy_op_def)
      then show ?thesis using old j False by simp
    qed
  qed
  ultimately show ?thesis using inv by (simp add: metrics_inv_def)
qed

text \<open>A step of \<open>main\<close> makes no call.\<close>

lemma share_calls [simp]: "own_calls (t\<lparr>tk_sys := share_tokens stop force (tk_sys t)\<rparr>) = own_calls t"
  by (simp add: own_calls_def share_tokens_def split: task.split task_sys.split)

lemma status_calls [simp]:
  "own_calls (t\<lparr>tk_status := j\<rparr>) = own_calls t" "has_name nm (t\<lparr>tk_status := j\<rparr>) = has_name nm t"
  "has_name nm (t\<lparr>tk_sys := sys\<rparr>) = has_name nm t"
  by (simp_all add: own_calls_def has_name_def split: task.split task_sys.split)

lemma share_metrics:
  "metrics_inv s \<Longrightarrow> metrics_inv (s\<lparr>pr_main := m, pr_tasks := share_all m (pr_tasks s)\<rparr>)"
  by (auto simp: metrics_inv_def names_apart_def share_all_def list_ex_iff list_all_iff)

lemma main_moves_metrics: "metrics_inv s \<Longrightarrow> main_moves e s = Some t \<Longrightarrow> metrics_inv t"
  by (auto simp: main_moves_def share_metrics simp del: main_step.simps split: option.splits)

lemma begin_calls:
  assumes "begin_task answer conn_id (tk_task r) = (ops, sys)"
  shows "own_calls (with_sys (share_tokens stop force sys) r) = ops"
    and "\<forall>op\<in>set ops. \<exists>nm. has_name nm r \<and> proxy_op nm op"
proof -
  show "own_calls (with_sys (share_tokens stop force sys) r) = ops"
    using assms by (cases "tk_task r"; cases answer; cases "cfg_protocol (case tk_task r of Proxy c \<Rightarrow> c)")
      (auto simp: begin_task_cases own_calls_def with_sys_def share_tokens_def proxy_start_def udp_start_def)
  show "\<forall>op\<in>set ops. \<exists>nm. has_name nm r \<and> proxy_op nm op"
    using assms publish_proxy_ops by (cases "tk_task r"; cases answer)
      (auto simp: begin_task_cases has_name_def list_all_iff)
qed

lemma process_step_metrics:
  assumes pinv: "process_inv st s" and inv: "metrics_inv s" and step: "process_step e s = Some t"
  shows "metrics_inv t"
  using step
proof (cases rule: process_step_cases)
  case (main f)
  then show ?thesis using main_moves_metrics [OF inv] by blast
next
  case (join i j)
  have "metrics_inv (s\<lparr>pr_tasks := (pr_tasks s)[i := (pr_tasks s ! i)\<lparr>tk_status := Taken j\<rparr>],
      pr_ops := pr_ops s @ []\<rparr>)"
    by (rule calls_step [OF inv join(1)]) simp_all
  then show ?thesis using main_moves_metrics [OF _ join(3)] by simp
next
  case (starts i answer conn_id ops sys)
  have "own_calls (pr_tasks s ! i) = []" using starts(2) by (simp add: own_calls_def split: task.split)
  then show ?thesis
    unfolding starts(5) using begin_calls [OF starts(4)]
    by (intro calls_step [OF inv starts(1)]) (simp_all add: with_sys_def has_name_def)
next
  case (moves i te ops sys)
  let ?r = "pr_tasks s ! i"
  have "task_ok (pr_main s) ?r" using pinv moves(1) by (simp add: process_inv_def list_all_length)
  note ops = move_task_ops [OF this moves(4)]
  have "own_calls (?r\<lparr>tk_sys := sys\<rparr>) = own_calls ?r @ ops"
    using ops by (auto simp: own_calls_def split: task.splits task_sys.splits)
  moreover have "\<forall>op\<in>set ops. \<exists>nm. has_name nm ?r \<and> proxy_op nm op"
    using ops by (auto simp: has_name_def list_all_iff split: task.splits task_sys.splits)
  ultimately show ?thesis
    unfolding moves(5) by (intro calls_step [OF inv moves(1)]) simp_all
next
  case (returns i)
  show ?thesis unfolding returns(5) by (rule calls_step [OF inv returns(1)]) simp_all
qed

lemma start_names_apart:
  assumes "distinct (map cfg_name (set_proxies st))"
  shows "names_apart (pr_tasks (process_start st))"
proof -
  let ?mk = "\<lambda>t. \<lparr>tk_task = t, tk_sys = Spawned, tk_status = Going\<rparr>"
  have "names_apart (map ?mk (map Proxy cs))" if "distinct (map cfg_name cs)" for cs
    using that by (auto simp: names_apart_def has_name_def distinct_conv_nth)
  from this [OF assms] have *: "names_apart (map ?mk (map Proxy (set_proxies st)))" .
  have "names_apart (?mk (Exporter a) # ts)" if "names_apart ts" for a ts
    using that unfolding names_apart_def by (auto simp: nth_Cons has_name_def split: nat.splits)
  with * show ?thesis by (simp add: process_start_def start_tasks_def split: option.split)
qed

definition named_init :: "settings \<Rightarrow> process \<Rightarrow> bool" where
  "named_init st s \<longleftrightarrow> process_init st s \<and> distinct (map cfg_name (set_proxies st))"

interpretation process_calls: invariant_system "named_init st" process_step
    "\<lambda>s. process_inv st s \<and> metrics_inv s" for st
proof unfold_locales
  fix s assume s: "named_init st s"
  then have "names_apart (pr_tasks s)" "pr_ops s = []" "\<forall>t\<in>set (pr_tasks s). tk_sys t = Spawned"
    using start_names_apart by (auto simp: named_init_def process_init_def process_start_def)
  moreover have "process_inv st s" using s process.inv_start by (simp add: named_init_def)
  ultimately show "process_inv st s \<and> metrics_inv s"
    by (auto simp: metrics_inv_def own_calls_def split: task.split)
next
  fix s t :: process and e
  assume "process_inv st s \<and> metrics_inv s" and "process_step e s = Some t"
  then show "process_inv st t \<and> metrics_inv t" using process_step_inv process_step_metrics by blast
qed

section \<open>What the exporter reads\<close>

lemma calls_of_counted: "counted f (nm # ls) (calls_of nm ops) = counted f (nm # ls) ops"
proof (induction ops)
  case (Cons op ops)
  then show ?case by (cases op) (auto simp: calls_of_def)
qed simp

lemma calls_of_gauge: "gauge f (nm # ls) x (calls_of nm ops) = gauge f (nm # ls) x ops"
proof (induction ops arbitrary: x)
  case (Cons op ops)
  then show ?case by (cases op) (auto simp: calls_of_def)
qed simp

lemma calls_of_outcomes: "outcomes nm (calls_of nm ops) = outcomes nm ops"
  by (simp add: outcomes_def calls_of_counted)

lemma publish_calls [simp]:
  "gauge Active ls x (publish_limits cfg) = x" "counted f ls (publish_limits cfg) = 0"
  "outcomes nm (publish_limits cfg) = 0"
  by (simp_all add: publish_limits_def outcomes_def)

section \<open>Properties\<close>

text \<open>
  C8: The proxies of a process share one registry and do not disturb each other: under every interleaving, the
  calls made under a proxy's name are that proxy's own calls in their order, every call names a child
  of its family, and so what the exporter reads for a TCP proxy agrees with its connections, whatever
  the other proxies do: its active gauge is the number of connections it relays, and until the force
  every connection it accepted is open or was counted once as failed, timed out or closed; the gauge of a
  UDP proxy is the number of its sessions as long as its listener runs.
\<close>

theorem process_metrics_isolated:
  assumes "resolve_settings read_to_string from_str args = Inr st"
    and "reach (process_init st) process_step s"
    and "t \<in> set (pr_tasks s)" and "tk_task t = Proxy cfg"
  shows "calls_of (cfg_name cfg) (pr_ops s) = own_calls t \<and> list_all well_labelled (pr_ops s) \<and>
    (case tk_sys t of
       TcpSys p \<Rightarrow>
         gauge Active [cfg_name cfg] 0 (pr_ops s) = int (total relaying (px_conns p)) \<and>
         (m_force (pr_main s) \<or>
          counted ConnectionsTotal [cfg_name cfg, ''tcp''] (pr_ops s) =
            outcomes (cfg_name cfg) (pr_ops s) + total open_conn (px_conns p))
     | UdpSys u \<Rightarrow>
         ud_listener u = LReturned \<or>
         gauge Active [cfg_name cfg] 0 (pr_ops s) = int (length (ud_map u))
     | _ \<Rightarrow> True)"
proof -
  let ?nm = "cfg_name cfg"
  have "reach (named_init st) process_step s"
    by (rule reach_weaken [OF assms(2)]) (use resolved_proxies [OF assms(1)] in \<open>simp add: named_init_def\<close>)
  then have inv: "process_inv st s" "metrics_inv s" using process_calls.inv_reachable by blast+
  have own: "calls_of ?nm (pr_ops s) = own_calls t"
    using inv(2) assms(3,4) by (simp add: metrics_inv_def has_name_def)
  moreover have "list_all well_labelled (pr_ops s)"
    using inv(2) by (simp add: metrics_inv_def list_all_iff)
  moreover have "gauge Active [?nm] 0 (pr_ops s) = int (total relaying (px_conns p)) \<and>
      (m_force (pr_main s) \<or> counted ConnectionsTotal [?nm, ''tcp''] (pr_ops s) =
        outcomes ?nm (pr_ops s) + total open_conn (px_conns p))" if p: "tk_sys t = TcpSys p" for p
  proof -
    have "task_ok (pr_main s) t" using inv(1) assms(3) by (simp add: process_inv_def list_all_iff)
    then have "accounts cfg p" and force: "px_force p = m_force (pr_main s)"
      using p assms(4) by (auto simp: task_ok_def proxy_inv_def)
    moreover have c: "calls_of ?nm (pr_ops s) = publish_limits cfg @ px_ops p"
      using own p assms(4) by (simp add: own_calls_def)
    have "gauge Active [?nm] 0 (pr_ops s) = gauge Active [?nm] 0 (px_ops p)"
      "counted ConnectionsTotal [?nm, ''tcp''] (pr_ops s) = counted ConnectionsTotal [?nm, ''tcp''] (px_ops p)"
      "outcomes ?nm (pr_ops s) = outcomes ?nm (px_ops p)"
      using calls_of_gauge [of Active ?nm "[]" 0 "pr_ops s"] calls_of_outcomes [of ?nm "pr_ops s"]
        calls_of_counted [of ConnectionsTotal ?nm "[''tcp'']" "pr_ops s"]
      by (simp_all add: c)
    ultimately show ?thesis by (auto simp: accounts_def Let_def)
  qed
  moreover have "ud_listener u = LReturned \<or> gauge Active [?nm] 0 (pr_ops s) = int (length (ud_map u))"
    if u: "tk_sys t = UdpSys u" for u
  proof -
    have "task_ok (pr_main s) t" using inv(1) assms(3) by (simp add: process_inv_def list_all_iff)
    then have "books_kept cfg u" using u assms(4) by (auto simp: task_ok_def)
    moreover have c: "calls_of ?nm (pr_ops s) = publish_limits cfg @ ud_ops u"
      using own u assms(4) by (simp add: own_calls_def)
    have "gauge Active [?nm] 0 (pr_ops s) = gauge Active [?nm] 0 (ud_ops u)"
      using calls_of_gauge [of Active ?nm "[]" 0 "pr_ops s"] by (simp add: c)
    ultimately show ?thesis by (auto simp: books_kept_def ledger_def)
  qed
  ultimately show ?thesis by (simp split: task_sys.split)
qed

section \<open>A process with one connection\<close>

text \<open>The proxy of \<open>demo_args\<close> listens, accepts a connection and counts it.\<close>

definition accept_events :: "process_event list" where
  "accept_events =
     [TaskStarts 0 (Inr ()) 1, TaskMoves 0 (TcpMoves (Serve PollStop)),
      TaskMoves 0 (TcpMoves (Serve (Accepted demo_peer)))]"

lemma accept_runs:
  assumes "set_proxies st = [cfg]" "set_metrics_listen st = None" "cfg_protocol cfg = Tcp"
    "max_connections cfg = 32000" "cfg_max_per_ip cfg = 320"
  shows "\<exists>s p. run process_step accept_events (process_start st) = Some s \<and>
    pr_tasks s = [\<lparr>tk_task = Proxy cfg, tk_sys = TcpSys p, tk_status = Going\<rparr>] \<and>
    m_phase (pr_main s) = MRunning \<and> \<not> m_force (pr_main s) \<and> total open_conn (px_conns p) = 1"
  using assms
  by (simp add: accept_events_def process_start_def start_tasks_def main_start_def is_exited_def
      begin_task_cases with_sys_def share_tokens_def token_event_def proxy_eval open_conn_def)

theorem process_metrics_isolated_witness:
  "\<exists>st s t cfg. run process_step accept_events (process_start st) = Some s \<and> t \<in> set (pr_tasks s) \<and>
     tk_task t = Proxy cfg \<and> calls_of (cfg_name cfg) (pr_ops s) = own_calls t \<and>
     counted ConnectionsTotal [cfg_name cfg, ''tcp''] (pr_ops s) = outcomes (cfg_name cfg) (pr_ops s) + 1"
proof -
  obtain st cfg where st: "resolve_settings (\<lambda>_. Inl ''no file'') (\<lambda>_. Inl ''no toml'') demo_args = Inr st"
      and one: "set_proxies st = [cfg]" "set_metrics_listen st = None" "cfg_protocol cfg = Tcp"
        "max_connections cfg = 32000" "cfg_max_per_ip cfg = 320"
    using demo_resolved by blast
  obtain s p where s: "run process_step accept_events (process_start st) = Some s"
      and ts: "pr_tasks s = [\<lparr>tk_task = Proxy cfg, tk_sys = TcpSys p, tk_status = Going\<rparr>]"
      and p: "\<not> m_force (pr_main s)" "total open_conn (px_conns p) = 1"
    using accept_runs [OF one] by blast
  have r: "reach (process_init st) process_step s"
    by (rule run_reach [OF reach_init s]) (simp add: process_init_def)
  let ?t = "\<lparr>tk_task = Proxy cfg, tk_sys = TcpSys p, tk_status = Going\<rparr>"
  have "?t \<in> set (pr_tasks s)" by (simp add: ts)
  note iso = process_metrics_isolated [OF st r this, of cfg]
  show ?thesis
    using iso s p ts by (intro exI [of _ st] exI [of _ s] exI [of _ ?t] exI [of _ cfg]) simp
qed

end
