(* ===== verification/Process_Grace.thy ===== *)
theory Process_Grace
  imports Process_Metrics
begin

text \<open>
  The grace period: between a signal and the force, tasks go on. No connection and no session is told to
  stop before the grace period ran out, and none is counted as closed by the shutdown until then.
\<close>

section \<open>The calls of one step\<close>

abbreviation cuts :: "string \<Rightarrow> metric_op list \<Rightarrow> nat" where
  "cuts nm ops \<equiv> counted ConnectionsClosed [nm, ''shutdown''] ops"

text \<open>A relay that was not told to shut down closes for another reason.\<close>

lemma relay_no_cut:
  assumes inv: "relay_inv cfg r" and token: "\<not> r_shutdown r"
  shows "cuts nm (metric_ops (r_shared r)) = 0"
proof (cases "r_closed r")
  case None
  then show ?thesis using inv by (simp add: relay_inv_def closed_inv_def)
next
  case (Some x)
  obtain u v reason where x: "x = (u, v, reason)" by (cases x)
  then have "reason_holds cfg reason r" and
    "cuts nm (metric_ops (r_shared r)) = (if [nm, ''shutdown''] = [cfg_name cfg, reason] then 1 else 0)"
    using inv Some by (auto simp: relay_inv_def closed_inv_def wd_inv_def)
  then show ?thesis using token by (auto simp: reason_holds_def)
qed

lemma conn_no_cut:
  assumes inv: "conn_inv cfg peer c" and step: "conn_step cfg peer e c = Some c'" and token: "\<not> cn_token c"
  shows "cuts nm (new_ops (cn_ops c) (cn_ops c')) = 0"
proof (cases e)
  case (RelayMoves re)
  then obtain r r' where st: "relay_step cfg re r = Some r'"
    and c': "c' = c\<lparr>cn_phase := InRelay r',
      cn_ops := cn_ops c @ new_ops (metric_ops (r_shared r)) (metric_ops (r_shared r'))\<rparr>"
    using step by (auto split: conn_phase.splits if_splits option.splits)
  have "conn_inv cfg peer c'" by (rule conn.inv_next [OF inv step])
  then have "relay_inv cfg r'" "\<not> r_shutdown r'"
    using c' token relay.inv_reachable [of cfg r'] by (auto simp: conn_inv_def)
  then have "cuts nm (metric_ops (r_shared r')) = 0" by (rule relay_no_cut)
  then show ?thesis using relay_ops_grow [OF st] by (auto simp: c')
next
  case (ConnectEnds r a now)
  then have "c' = connect_ends cfg peer r a now c"
    using step by (auto split: conn_phase.splits)
  then show ?thesis
    by (cases r) (auto simp: connect_ends_def begin_relay_def call_metric_def Let_def)
qed (use step in \<open>auto simp: begin_relay_def call_metric_def Let_def split: conn_phase.splits if_splits\<close>)

lemma tcp_no_cut:
  assumes inv: "proxy_inv cfg s" and step: "proxy_step cfg e s = Some t" and force: "\<not> px_force s"
  shows "cuts nm (new_ops (px_ops s) (px_ops t)) = 0"
proof (cases e)
  case (Serve se)
  then obtain u where st: "serve_step cfg se (px_serve s) = Some u"
    and t: "px_ops t = px_ops s @ new_ops (sv_ops (px_serve s)) (sv_ops u)"
    using step by (auto split: if_splits option.splits)
  have "cuts nm (new_ops (sv_ops (px_serve s)) (sv_ops u)) = 0"
    using serve_step_tasks [OF st] by (cases se) auto
  then show ?thesis by (simp add: t)
next
  case (Conn i ce)
  then obtain p c c' where i: "i < length (px_conns s)" "px_conns s ! i = (p, c)"
    and st: "conn_step cfg p ce c = Some c'" and t: "px_ops t = px_ops s @ new_ops (cn_ops c) (cn_ops c')"
    using step by (auto split: if_splits option.splits prod.splits)
  have "conn_inv cfg p c" "\<not> cn_token c"
    using inv nth_mem [OF i(1)] i(2) force by (auto simp: proxy_inv_def)
  from conn_no_cut [OF this(1) st this(2)] show ?thesis by (simp add: t)
next
  case ForceFires
  then show ?thesis using step by (auto split: if_splits)
qed

text \<open>A UDP proxy counts a shutdown only in the branch on the force token.\<close>

lemma retain_no_cut: "cuts nm (ud_ops (retain cfg now es s)) = cuts nm (ud_ops s)"
proof (induction cfg now es s rule: retain.induct)
  case (2 cfg now k i g es s)
  show ?case
  proof (cases "verdict (idle_timeout_secs cfg) now (ud_pool s ! i)")
    case (Some r)
    then have "r \<noteq> ''shutdown''" by (auto simp: verdict_def split: if_splits)
    then show ?thesis using "2.IH"(2) [OF Some] Some by simp
  qed (use "2.IH"(1) in simp)
qed simp

lemma session_no_cut:
  "session_step cfg force e se = Some (se', ops) \<Longrightarrow> cuts nm ops = 0"
  by (cases e) (auto simp: Let_def split: list.splits option.splits if_splits)

lemma udp_no_cut:
  assumes step: "udp_step cfg e s = Some t" and force: "\<not> ud_force s"
  shows "cuts nm (ud_ops t) = cuts nm (ud_ops s)"
proof -
  have lis: ?thesis if "listener_step cfg le s = Some t" for le
    using that force by (cases le) (auto simp: lookup_session_def mark_pending_def admit_source_def
        set_active_def Let_def split: if_splits listener.splits option.splits prod.splits sum.splits)
  have set: ?thesis if "setup_step cfg n se s = Some t" for n se
    using that by (cases se) (auto simp: set_setup_def insert_session_def set_active_def Let_def
        split: if_splits setup_phase.splits option.splits prod.splits)
  show ?thesis
  proof (cases e)
    case (Sweep now)
    then show ?thesis
      using step retain_no_cut [of nm cfg now "ud_map s" s]
      by (auto simp: sweep_def Let_def set_active_def split: if_splits)
  next
    case (Relay i re)
    then show ?thesis using step session_no_cut by (auto split: if_splits option.splits)
  qed (use step lis set in \<open>auto split: if_splits\<close>)
qed

section \<open>How a UDP session ends before the force\<close>

text \<open>A session that can still take and relay datagrams.\<close>

definition live_session :: "session \<Rightarrow> bool" where
  "live_session se \<longleftrightarrow> \<not> se_cancelled se \<and> se_tx_open se"

text \<open>
  What ends session \<open>j\<close> of a UDP proxy in state \<open>u\<close>, other than the force token: a failed send or
  receive of its own relay tasks, a sweep that finds it idle, a second setup for its source (the race
  of \<open>Udp_Ledger\<close>), or the drop of the map under a listener that has returned.
\<close>

definition own_cause :: "ProxyConfig \<Rightarrow> udp_event \<Rightarrow> nat \<Rightarrow> udp_sys \<Rightarrow> bool" where
  "own_cause cfg e j u =
     (case e of
        Relay i re \<Rightarrow> i = j \<and> (re = UpSent None \<or> re = DownSent None \<or> re = DownError)
      | Sweep now \<Rightarrow> stale (idle_timeout_secs cfg) now (ud_pool u ! j)
      | Setup n se \<Rightarrow>
          se = InsertSession \<and>
          (case map_of (ud_map u) (fst (ud_setups u ! n)) of Some (i, g) \<Rightarrow> i = j | None \<Rightarrow> False)
      | MapDropped \<Rightarrow> ud_listener u = LReturned
      | _ \<Rightarrow> False)"

lemma upd_session_nth:
  "j < length pool \<Longrightarrow> upd_session i f pool ! j = (if i = j then f (pool ! j) else pool ! j)"
  by (auto simp: upd_session_def)

lemma length_upd_session [simp]: "length (upd_session i f pool) = length pool"
  by (simp add: upd_session_def)

lemma length_drop_session [simp]: "length (ud_pool (drop_session i g s)) = length (ud_pool s)"
  by (simp add: drop_session_def)

lemma retain_ends:
  "j < length (ud_pool s) \<Longrightarrow> live_session (ud_pool s ! j) \<Longrightarrow>
   length (ud_pool (retain cfg now es s)) = length (ud_pool s) \<and>
   (live_session (ud_pool (retain cfg now es s) ! j) \<or> stale (idle_timeout_secs cfg) now (ud_pool s ! j))"
proof (induction cfg now es s rule: retain.induct)
  case (2 cfg now k i g es s)
  show ?case
  proof (cases "verdict (idle_timeout_secs cfg) now (ud_pool s ! i)")
    case None
    then show ?thesis using "2.IH"(1) [OF None] "2.prems" by simp
  next
    case (Some r)
    let ?s = "emit [Inc ConnectionsClosed [cfg_name cfg, r]] (drop_session i g
        (s\<lparr>ud_map := del_key k (ud_map s),
           ud_pool := upd_session i (\<lambda>se. se\<lparr>se_cancelled := True\<rparr>) (ud_pool s)\<rparr>))"
    have step: "retain cfg now ((k, i, g) # es) s = retain cfg now es ?s" using Some by simp
    have len: "length (ud_pool (retain cfg now xs u)) = length (ud_pool u)" for xs u
      by (induction cfg now xs u rule: retain.induct) (auto split: option.split)
    show ?thesis
    proof (cases "i = j")
      case True
      then have "stale (idle_timeout_secs cfg) now (ud_pool s ! j)"
        using Some "2.prems"(2) by (auto simp: verdict_def live_session_def split: if_splits)
      then show ?thesis unfolding step by (simp add: len)
    next
      case False
      then have "ud_pool ?s ! j = ud_pool s ! j" "length (ud_pool ?s) = length (ud_pool s)"
        using "2.prems"(1) by (simp_all add: drop_session_def upd_session_nth)
      then show ?thesis unfolding step using "2.IH"(2) [OF Some] "2.prems" by simp
    qed
  qed
qed simp

lemma listener_ends:
  assumes "listener_step cfg e s = Some t" and "\<not> ud_force s" and "j < length (ud_pool s)"
    and "live_session (ud_pool s ! j)"
  shows "length (ud_pool t) = length (ud_pool s) \<and> live_session (ud_pool t ! j)"
  using assms
  by (cases e) (auto simp: lookup_session_def mark_pending_def admit_source_def try_send_def
      drop_session_def session_cancelled_def live_session_def upd_session_nth Let_def
      split: if_splits listener.splits option.splits prod.splits sum.splits)

lemma setup_ends:
  assumes "setup_step cfg n e s = Some t" and "\<not> ud_force s" and "j < length (ud_pool s)"
    and "live_session (ud_pool s ! j)"
  shows "length (ud_pool s) \<le> length (ud_pool t) \<and>
    (live_session (ud_pool t ! j) \<or> own_cause cfg (Setup n e) j s)"
  using assms
  by (cases e) (auto simp: set_setup_def insert_session_def try_send_def own_cause_def
      drop_session_def live_session_def upd_session_nth nth_append Let_def
      split: if_splits setup_phase.splits option.splits prod.splits)

lemma relay_ends:
  assumes "session_step cfg False e se = Some (se', ops)" and "live_session se"
  shows "live_session se' \<or> e = UpSent None \<or> e = DownSent None \<or> e = DownError"
  using assms
  by (cases e) (auto simp: live_session_def Let_def split: list.splits option.splits if_splits)

lemma udp_session_ends:
  assumes step: "udp_step cfg e s = Some t" and force: "\<not> ud_force s"
    and j: "j < length (ud_pool s)" "live_session (ud_pool s ! j)"
  shows "length (ud_pool s) \<le> length (ud_pool t) \<and> (live_session (ud_pool t ! j) \<or> own_cause cfg e j s)"
proof (cases e)
  case (Listener le)
  then show ?thesis using step listener_ends [OF _ force j] by simp
next
  case (Setup n se)
  then show ?thesis using step setup_ends [OF _ force j] by (simp split: if_splits)
next
  case (Sweep now)
  then show ?thesis
    using step retain_ends [OF j, of cfg now "ud_map s"]
    by (auto simp: sweep_def own_cause_def Let_def split: if_splits)
next
  case MapDropped
  have "length (ud_pool (drop_sessions es u)) = length (ud_pool u)" for es u
    by (induction es u rule: drop_sessions.induct) simp_all
  then show ?thesis using step MapDropped by (auto simp: own_cause_def map_unheld_def split: if_splits)
next
  case (Relay i re)
  then obtain se ops where "session_step cfg False re (ud_pool s ! i) = Some (se, ops)"
      and t: "ud_pool t = (ud_pool s)[i := se]"
    using step force by (auto split: if_splits option.splits)
  then show ?thesis
    using relay_ends j Relay by (cases "i = j") (auto simp: own_cause_def)
qed (use step j in \<open>auto split: if_splits\<close>)

text \<open>The session \<open>j\<close> of the task \<open>i\<close>, in the whole process.\<close>

definition session_lives :: "task_rec list \<Rightarrow> nat \<Rightarrow> nat \<Rightarrow> bool" where
  "session_lives ts i j =
     (i < length ts \<and>
      (case tk_sys (ts ! i) of
         UdpSys u \<Rightarrow> j < length (ud_pool u) \<and> live_session (ud_pool u ! j)
       | _ \<Rightarrow> False))"

lemma session_lives_status:
  "n < length ts \<Longrightarrow> session_lives (ts[n := (ts ! n)\<lparr>tk_status := x\<rparr>]) i j = session_lives ts i j"
  by (cases "i = n") (simp_all add: session_lives_def)

lemma session_lives_share: "session_lives (share_all m ts) i j = session_lives ts i j"
  by (auto simp: session_lives_def share_all_def share_tokens_def split: task_sys.split)

lemma main_moves_lives:
  "main_moves f s = Some t \<Longrightarrow> session_lives (pr_tasks t) i j = session_lives (pr_tasks s) i j"
  by (auto simp: main_moves_def session_lives_share simp del: main_step.simps split: option.splits)

lemma session_end_cause:
  assumes inv: "process_inv st s" and step: "process_step e s = Some t"
    and force: "\<not> m_force (pr_main s)"
    and live: "session_lives (pr_tasks s) i j" "\<not> session_lives (pr_tasks t) i j"
  shows "\<exists>cfg u ue. tk_task (pr_tasks s ! i) = Proxy cfg \<and> tk_sys (pr_tasks s ! i) = UdpSys u \<and>
    e = TaskMoves i (UdpMoves ue) \<and> own_cause cfg ue j u"
proof (cases e)
  case (TaskMoves n te)
  then obtain ops sys where n: "n < length (pr_tasks s)"
      and mv: "move_task (tk_task (pr_tasks s ! n)) te (tk_sys (pr_tasks s ! n)) = Some (ops, sys)"
      and t: "pr_tasks t = (pr_tasks s)[n := (pr_tasks s ! n)\<lparr>tk_sys := sys\<rparr>]"
    using step by (auto split: if_splits option.splits)
  have same: "n = i" using live n by (cases "n = i") (auto simp: session_lives_def t)
  obtain u where u: "tk_sys (pr_tasks s ! i) = UdpSys u" "j < length (ud_pool u)" "live_session (ud_pool u ! j)"
    using live(1) by (auto simp: session_lives_def split: task_sys.splits)
  have ok: "task_ok (pr_main s) (pr_tasks s ! i)" using inv n same by (simp add: process_inv_def list_all_length)
  then obtain cfg where cfg: "tk_task (pr_tasks s ! i) = Proxy cfg" and uf: "\<not> ud_force u"
    using u(1) force by (auto simp: task_ok_def)
  obtain ue v where ue: "te = UdpMoves ue" "udp_step cfg ue u = Some v" "sys = UdpSys v"
    using mv same u(1) cfg by (cases te) (auto split: option.splits)
  from udp_session_ends [OF ue(2) uf u(2,3)] have "own_cause cfg ue j u"
    using live(2) n same u(2) by (auto simp: session_lives_def t ue(3))
  then show ?thesis using TaskMoves same u(1) cfg ue(1) by blast
next
  case (TaskStarts n answer conn_id)
  then obtain sys where n: "n < length (pr_tasks s)" "tk_sys (pr_tasks s ! n) = Spawned"
      and t: "pr_tasks t = (pr_tasks s)[n := with_sys sys (pr_tasks s ! n)]"
    using step by (auto split: if_splits prod.splits)
  then show ?thesis using live by (cases "n = i") (auto simp: session_lives_def)
next
  case (JoinNext n)
  then show ?thesis
    using step live by (auto simp: session_lives_status dest!: main_moves_lives split: if_splits task_status.splits)
next
  case (TaskReturns n)
  then show ?thesis using step live by (auto simp: session_lives_status split: if_splits)
qed (use step live in \<open>auto dest: main_moves_lives\<close>)

section \<open>Invariant\<close>

definition uncut :: "process \<Rightarrow> bool" where
  "uncut s \<longleftrightarrow> (m_force (pr_main s) \<or> (\<forall>nm. cuts nm (pr_ops s) = 0))"

lemma move_task_no_cut:
  assumes ok: "task_ok m t" and mv: "move_task (tk_task t) e (tk_sys t) = Some (ops, sys)" and "\<not> m_force m"
  shows "cuts nm ops = 0"
proof (cases "(tk_task t, e, tk_sys t)" rule: move_task.cases)
  case (1 cfg pe p)
  then obtain q where q: "roomy_proxy_step cfg pe p = Some q" "ops = new_ops (px_ops p) (px_ops q)"
    using mv by (auto split: option.splits)
  have "proxy_inv cfg p" "\<not> px_force p" using ok 1 assms(3) by (auto simp: task_ok_def)
  moreover have "proxy_step cfg pe p = Some q" using q(1) by (simp add: roomy_proxy_step_def split: if_splits)
  ultimately show ?thesis using tcp_no_cut [of cfg p pe q nm] q(2) by simp
next
  case (2 cfg ue u)
  then obtain v where v: "udp_step cfg ue u = Some v" "ops = new_ops (ud_ops u) (ud_ops v)"
    using mv by (auto split: option.splits)
  have "\<not> ud_force u" using ok 2 assms(3) by (auto simp: task_ok_def)
  from udp_no_cut [OF v(1) this, of nm] show ?thesis
    using udp_appends [OF v(1)] v(2) by (auto simp: appends_def)
qed (use mv in \<open>auto split: option.splits\<close>)

lemma main_moves_uncut:
  assumes inv: "process_inv st s" and old: "uncut s"
    and ops: "pr_main s' = pr_main s" "pr_ops s' = pr_ops s" and mv: "main_moves f s' = Some t"
  shows "uncut t"
proof -
  obtain m where m: "main_step f (pr_main s) = Some m" and t: "pr_main t = m" "pr_ops t = pr_ops s"
    using mv ops by (auto simp: main_moves_def simp del: main_step.simps split: option.splits)
  have "m_force (pr_main s) \<longrightarrow> m_force m"
    using main_step_tokens [OF m] inv by (auto simp: process_inv_def)
  then show ?thesis using old t by (auto simp: uncut_def)
qed

lemma force_stays:
  assumes inv: "process_inv st s" and step: "process_step e s = Some t" and "m_force (pr_main s)"
  shows "m_force (pr_main t)"
proof -
  have main: "m_force (pr_main t)" if "main_moves f s' = Some t" "pr_main s' = pr_main s" for f s'
    using that assms(3) main_step_tokens [of f "pr_main s"] inv
    by (auto simp: main_moves_def process_inv_def simp del: main_step.simps split: option.splits)
  from step show ?thesis
    by (cases rule: process_step_cases) (use main assms(3) in auto)
qed

lemma process_step_uncut:
  assumes inv: "process_inv st s" and old: "uncut s" and step: "process_step e s = Some t"
  shows "uncut t"
  using step
proof (cases rule: process_step_cases)
  case (main f)
  then show ?thesis using main_moves_uncut [OF inv old] by blast
next
  case (join i j)
  show ?thesis by (rule main_moves_uncut [OF inv old _ _ join(3)]) simp_all
next
  case (starts i answer conn_id ops sys)
  have "ops = [] \<or> (\<exists>cfg. ops = publish_limits cfg)"
    using starts(4) by (cases "tk_task (pr_tasks s ! i)"; cases answer) (auto simp: begin_task_cases)
  then show ?thesis using old by (auto simp: uncut_def starts(5))
next
  case (moves i te ops sys)
  have "task_ok (pr_main s) (pr_tasks s ! i)" using inv moves(1) by (simp add: process_inv_def list_all_length)
  from move_task_no_cut [OF this moves(4)] show ?thesis using old by (auto simp: uncut_def moves(5))
next
  case (returns i)
  then show ?thesis using old by (simp add: uncut_def)
qed

interpretation process_grace: invariant_system "process_init st" process_step
    "\<lambda>s. process_inv st s \<and> uncut s" for st
proof unfold_locales
  fix s assume s: "process_init st s"
  then have "uncut s" by (simp add: process_init_def process_start_def uncut_def)
  then show "process_inv st s \<and> uncut s" using process.inv_start [OF s] by blast
qed (use process_step_inv process_step_uncut in blast)

section \<open>Properties\<close>

lemma uncut_tcp:
  assumes "process_inv st s" and "\<not> m_force (pr_main s)" and "t \<in> set (pr_tasks s)"
    and "tk_sys t = TcpSys p" and "(peer, c) \<in> set (px_conns p)"
  shows "\<not> cn_token c \<and> (case cn_phase c of InRelay r \<Rightarrow> \<not> r_shutdown r | _ \<Rightarrow> True)"
proof -
  have "task_ok (pr_main s) t" using assms(1,3) by (simp add: process_inv_def list_all_iff)
  then obtain cfg where "proxy_inv cfg p" "\<not> px_force p" using assms(2,4) by (auto simp: task_ok_def)
  then have "conn_inv cfg peer c" "\<not> cn_token c" using assms(5) by (auto simp: proxy_inv_def)
  then show ?thesis by (simp add: conn_inv_def split: conn_phase.splits)
qed

text \<open>
  C7: A signal cuts nothing. In every interleaving, as long as the grace period has not run out, no connection
  and no session of any proxy is counted as closed by the shutdown; no TCP connection is told to stop,
  whether it is connecting, writing its header or being relayed; and a step of the process that ends
  a live UDP session, which cancels it or closes its channel, is a move of that session's own proxy
  for a reason of the session's own: its own send or receive has failed, a sweep found it past its idle
  timeout, a second setup of its source replaced it, or the map was dropped under a listener that had
  returned over it. (The last two are the races of \<open>Udp_Ledger\<close>.) No signal, no token and no move of
  another task ends one.
\<close>

theorem grace_cuts_nothing:
  assumes "reach (process_init st) process_step s" and "process_step e s = Some t"
    and "\<not> m_force (pr_main t)"
  shows "counted ConnectionsClosed [nm, ''shutdown''] (pr_ops t) = 0 \<and>
    (\<forall>tk\<in>set (pr_tasks t).
       case tk_sys tk of
         TcpSys p \<Rightarrow> \<forall>(peer, c)\<in>set (px_conns p). \<not> cn_token c \<and>
           (case cn_phase c of InRelay r \<Rightarrow> \<not> r_shutdown r | _ \<Rightarrow> True)
       | UdpSys u \<Rightarrow> \<not> ud_force u
       | _ \<Rightarrow> True) \<and>
    (\<forall>i j. session_lives (pr_tasks s) i j \<and> \<not> session_lives (pr_tasks t) i j \<longrightarrow>
       (\<exists>cfg u ue. tk_task (pr_tasks s ! i) = Proxy cfg \<and> tk_sys (pr_tasks s ! i) = UdpSys u \<and>
          e = TaskMoves i (UdpMoves ue) \<and> own_cause cfg ue j u))"
proof (intro conjI ballI allI impI)
  have r: "reach (process_init st) process_step t" by (rule reach_step [OF assms(1,2)])
  have inv: "process_inv st s" "process_inv st t" "uncut t"
    using process_grace.inv_reachable [OF assms(1)] process_grace.inv_reachable [OF r] by blast+
  show "counted ConnectionsClosed [nm, ''shutdown''] (pr_ops t) = 0"
    using inv(3) assms(3) by (simp add: uncut_def)
  show "case tk_sys tk of
         TcpSys p \<Rightarrow> \<forall>(peer, c)\<in>set (px_conns p). \<not> cn_token c \<and>
           (case cn_phase c of InRelay r \<Rightarrow> \<not> r_shutdown r | _ \<Rightarrow> True)
       | UdpSys u \<Rightarrow> \<not> ud_force u
       | _ \<Rightarrow> True" if "tk \<in> set (pr_tasks t)" for tk
  proof -
    have "task_ok (pr_main t) tk" using inv(2) that by (simp add: process_inv_def list_all_iff)
    then show ?thesis
      using uncut_tcp [OF inv(2) assms(3) that] assms(3)
      by (cases "tk_sys tk") (auto simp: task_ok_def)
  qed
  have "\<not> m_force (pr_main s)" using force_stays [OF inv(1) assms(2)] assms(3) by blast
  from session_end_cause [OF inv(1) assms(2) this]
  show "\<exists>cfg u ue. tk_task (pr_tasks s ! i) = Proxy cfg \<and> tk_sys (pr_tasks s ! i) = UdpSys u \<and>
          e = TaskMoves i (UdpMoves ue) \<and> own_cause cfg ue j u"
    if "session_lives (pr_tasks s) i j \<and> \<not> session_lives (pr_tasks t) i j" for i j
    using that by blast
qed

text \<open>
  A process with one UDP proxy: a first datagram opens a session, a signal arrives, and then the
  session's upstream socket fails.
\<close>

definition udp_demo_settings :: settings where
  "udp_demo_settings =
     \<lparr>set_proxies = [default_config\<lparr>cfg_protocol := Udp\<rparr>], set_metrics_listen = None, set_shutdown_grace = 30\<rparr>"

definition session_events :: "process_event list" where
  "session_events =
     TaskStarts 0 (Inr ()) 1 # map (\<lambda>e. TaskMoves 0 (UdpMoves e)) (first_packet @ finish_setup) @ [SignalArrives]"

definition signalled :: process where
  "signalled = the (run process_step session_events (process_start udp_demo_settings))"

definition signalled_end :: process where
  "signalled_end = the (process_step (TaskMoves 0 (UdpMoves (Relay 0 DownError))) signalled)"

lemmas signalled_eval = session_events_def udp_demo_settings_def process_start_def start_tasks_def main_start_def
  is_exited_def begin_task_cases with_sys_def share_tokens_def share_all_def main_moves_def token_event_def
  new_ops_def udp_eval

lemma signalled:
  "run process_step session_events (process_start udp_demo_settings) = Some signalled"
  "process_step (TaskMoves 0 (UdpMoves (Relay 0 DownError))) signalled = Some signalled_end"
  "m_stop (pr_main signalled)" "\<not> m_force (pr_main signalled_end)"
  "session_lives (pr_tasks signalled) 0 0" "\<not> session_lives (pr_tasks signalled_end) 0 0"
  by (simp_all add: signalled_def signalled_end_def session_lives_def live_session_def down_ends_def signalled_eval)

theorem grace_cuts_nothing_witness:
  "m_stop (pr_main signalled) \<and> session_lives (pr_tasks signalled) 0 0 \<and>
   \<not> session_lives (pr_tasks signalled_end) 0 0 \<and>
   counted ConnectionsClosed [''n'', ''shutdown''] (pr_ops signalled_end) = 0 \<and>
   (\<exists>cfg u. own_cause cfg (Relay 0 DownError) 0 u)"
proof -
  have "reach (process_init udp_demo_settings) process_step signalled"
    by (rule run_reach [OF reach_init signalled(1)]) (simp add: process_init_def)
  from grace_cuts_nothing [OF this signalled(2,4), of "''n''"] show ?thesis
    using signalled(3,5,6) by blast
qed

end
