(* ===== verification/Udp_Cleanup.thy ===== *)
theory Udp_Cleanup
  imports Udp_Order
begin

text \<open>
  The cleanup task of the UDP proxy: what one sweep does to the map, the sessions, the counters and
  the slots, and how long the task sleeps before it.
\<close>

section \<open>One session, one entry\<close>

text \<open>A reachable state of the proxy is the proxy of a reachable observed state.\<close>

lemma observed_lift:
  assumes "reach (udp_init cfg) (udp_roomy_step cfg) s"
  shows "\<exists>b. reach (observed_init cfg) (observed_step cfg) b \<and> ob_sys b = s"
  using assms
proof (induction rule: reach.induct)
  case (reach_init s)
  let ?b = "\<lparr>ob_sys = s, ob_received = [], ob_sent = (\<lambda>_. [])\<rparr>"
  have "reach (observed_init cfg) (observed_step cfg) ?b"
    using reach_init by (intro reach.reach_init) (simp add: observed_init_def udp_init_def)
  then show ?case by force
next
  case (reach_step s e t)
  then obtain b where b: "reach (observed_init cfg) (observed_step cfg) b" "ob_sys b = s" by blast
  then have "observed_step cfg e b =
      Some \<lparr>ob_sys = t, ob_received = ob_received b @ note_received e,
        ob_sent = note_sent e s (ob_sent b)\<rparr>"
    using reach_step.hyps(2) by (simp add: observed_step_def)
  from reach.reach_step [OF b(1) this] show ?case by force
qed

lemma map_entries:
  assumes "reach (udp_init cfg) (udp_roomy_step cfg) s"
  shows "\<forall>(k, i, g)\<in>set (ud_map s). i < length (ud_pool s) \<and> se_src (ud_pool s ! i) = k"
proof -
  obtain b where b: "reach (observed_init cfg) (observed_step cfg) b" "ob_sys b = s"
    using observed_lift [OF assms] by blast
  then obtain D where "order_ok (flow (ud_pool s)) (ud_map s) (ud_setups s) D (ob_sent b)"
    using udp_order.inv_reachable [OF b(1)] by (auto simp: order_inv_def sys_ok_def)
  then show ?thesis using order_okD(3) by (fastforce simp: flow_nth)
qed

definition session_at :: "session list \<Rightarrow> socket_addr \<times> nat \<times> guard \<Rightarrow> session" where
  "session_at pool e = pool ! fst (snd e)"

text \<open>Every entry of the map has a session of its own.\<close>

lemma entries_distinct:
  assumes "distinct (map fst m)"
    and "\<forall>(k, i, g)\<in>set m. i < length pool \<and> se_src (pool ! i) = k"
  shows "distinct (map (\<lambda>e. fst (snd e)) m) \<and> (\<forall>e\<in>set m. fst (snd e) < length pool)"
proof -
  have "\<forall>e\<in>set m. se_src (pool ! fst (snd e)) = fst e" using assms(2) by auto
  then have same: "fst e = fst e'" if "e \<in> set m" "e' \<in> set m" "fst (snd e) = fst (snd e')" for e e'
    using that by metis
  have "inj_on fst (set m)" using assms(1) by (simp add: distinct_map)
  then have "inj_on (\<lambda>e. fst (snd e)) (set m)" by (intro inj_onI) (blast dest: same inj_onD)
  moreover have "\<forall>e\<in>set m. fst (snd e) < length pool" using assms(2) by auto
  ultimately show ?thesis using assms(1) by (simp add: distinct_map)
qed

section \<open>A sweep\<close>

abbreviation evicted_as where
  "evicted_as cfg now pool \<equiv> \<lambda>e. verdict (idle_timeout_secs cfg) now (session_at pool e)"

definition evict :: "session \<Rightarrow> session" where
  "evict se = se\<lparr>se_cancelled := True, se_tx_open := False\<rparr>"

lemma retain_exact:
  assumes "distinct (map (\<lambda>e. fst (snd e)) es)" and "\<forall>e\<in>set es. fst (snd e) < length (ud_pool s)"
  shows "ud_map (retain cfg now es s) =
      filter (\<lambda>e. fst e \<notin> fst ` {x \<in> set es. evicted_as cfg now (ud_pool s) x \<noteq> None}) (ud_map s) \<and>
    closed_as cfg r (retain cfg now es s) =
      closed_as cfg r s + length (filter (\<lambda>e. evicted_as cfg now (ud_pool s) e = Some r) es) \<and>
    (\<forall>e\<in>set es. session_at (ud_pool (retain cfg now es s)) e =
      (if evicted_as cfg now (ud_pool s) e = None then session_at (ud_pool s) e
       else evict (session_at (ud_pool s) e))) \<and>
    (\<forall>j. j \<notin> (\<lambda>e. fst (snd e)) ` set es \<longrightarrow> ud_pool (retain cfg now es s) ! j = ud_pool s ! j)"
  using assms
proof (induction cfg now es s rule: retain.induct)
  case (2 cfg now k i g es s)
  let ?v = "verdict (idle_timeout_secs cfg) now (ud_pool s ! i)"
  have fresh: "i \<notin> (\<lambda>e. fst (snd e)) ` set es" and i: "i < length (ud_pool s)"
    and es: "distinct (map (\<lambda>e. fst (snd e)) es)" "\<forall>e\<in>set es. fst (snd e) < length (ud_pool s)"
    using "2.prems" by auto
  show ?case
  proof (cases ?v)
    case None
    have "{x \<in> set ((k, i, g) # es). evicted_as cfg now (ud_pool s) x \<noteq> None} =
        {x \<in> set es. evicted_as cfg now (ud_pool s) x \<noteq> None}"
      using None by (auto simp: session_at_def)
    moreover have "retain cfg now ((k, i, g) # es) s = retain cfg now es s" using None by simp
    ultimately show ?thesis
      using "2.IH"(1) [OF None es] None fresh by (auto simp: session_at_def)
  next
    case (Some q)
    let ?s = "emit [Inc ConnectionsClosed [cfg_name cfg, q]] (drop_session i g
        (s\<lparr>ud_map := del_key k (ud_map s),
           ud_pool := upd_session i (\<lambda>se. se\<lparr>se_cancelled := True\<rparr>) (ud_pool s)\<rparr>))"
    have pool: "ud_pool ?s = (ud_pool s)[i := evict (ud_pool s ! i)]"
      using i by (simp add: drop_session_def upd_session_def evict_def)
    have at: "session_at (ud_pool ?s) e = session_at (ud_pool s) e" if "e \<in> set es" for e
      using that fresh i unfolding pool session_at_def by (auto simp: nth_list_update)
    have same: "evicted_as cfg now (ud_pool ?s) e = evicted_as cfg now (ud_pool s) e" if "e \<in> set es" for e
      using at [OF that] by simp
    have gone: "{x \<in> set ((k, i, g) # es). evicted_as cfg now (ud_pool s) x \<noteq> None} =
        insert (k, i, g) {x \<in> set es. evicted_as cfg now (ud_pool ?s) x \<noteq> None}"
      using Some same by (auto simp: session_at_def)
    have count: "filter (\<lambda>e. evicted_as cfg now (ud_pool ?s) e = Some r) es =
        filter (\<lambda>e. evicted_as cfg now (ud_pool s) e = Some r) es"
      by (rule filter_cong) (use same in auto)
    have step: "retain cfg now ((k, i, g) # es) s = retain cfg now es ?s" using Some by simp
    have closed: "closed_as cfg r ?s = closed_as cfg r s + (if q = r then 1 else 0)"
      by (simp add: closed_as_def)
    have len: "\<forall>e\<in>set es. fst (snd e) < length (ud_pool ?s)" using es(2) unfolding pool by simp
    note IH = "2.IH"(2) [OF Some es(1) len]
    have "ud_map (retain cfg now es ?s) =
        filter (\<lambda>e. fst e \<notin> fst ` insert (k, i, g) {x \<in> set es. evicted_as cfg now (ud_pool ?s) x \<noteq> None})
          (ud_map s)"
      using IH by (auto simp: del_key_def intro!: filter_cong)
    moreover have "closed_as cfg r (retain cfg now es ?s) =
        closed_as cfg r s + length (filter (\<lambda>e. evicted_as cfg now (ud_pool s) e = Some r) ((k, i, g) # es))"
      using IH count closed Some by (simp add: session_at_def)
    moreover have "ud_pool (retain cfg now es ?s) ! j = ud_pool s ! j"
      if "j \<notin> (\<lambda>e. fst (snd e)) ` set ((k, i, g) # es)" for j
      using IH that unfolding pool by auto
    moreover have "ud_pool (retain cfg now es ?s) ! i = evict (ud_pool s ! i)"
      using IH fresh i unfolding pool by simp
    ultimately show ?thesis
      unfolding step gone using IH at same Some by (auto simp: session_at_def)
  qed
qed (simp add: session_at_def)

text \<open>\<open>stale\<close> and the sleep against the deadlines of \<open>Tcp_Watchdog\<close>.\<close>

lemma stale_exact:
  assumes "unat now < clock_max"
  shows "stale idle now se \<longleftrightarrow> idle_due idle now (se_last se)"
  using assms
  by (auto simp: stale_def idle_due_def deadline_def word_le_nat_alt sat_unat pos_word_unat min_def)

lemma verdict_exact:
  assumes "unat now < clock_max"
  shows "verdict idle now se =
    (if se_cancelled se then Some ''error''
     else if idle_due idle now (se_last se) then Some ''idle_timeout'' else None)"
  by (simp add: verdict_def stale_exact [OF assms])

lemma fold_min_le: "fold min ts (t :: u64) \<le> t \<and> (\<forall>x\<in>set ts. fold min ts t \<le> x)"
proof (induction ts arbitrary: t)
  case (Cons y ts)
  from Cons [of "min y t"] show ?case by auto
qed simp

lemma cleanup_wait_bound:
  assumes "0 < idle" and "se \<in> set ses" and "\<forall>se\<in>set ses. \<not> se_cancelled se"
  shows "cleanup_wait idle now ses \<le> time_left (se_last se) idle now"
proof -
  obtain s0 rest where ses: "ses = s0 # rest" using assms(2) by (cases ses) auto
  let ?f = "\<lambda>se. time_left (se_last se) idle now"
  have "cleanup_wait idle now ses = min (fold min (map ?f rest) (?f s0)) 5000"
    using assms(1,3) by (auto simp: cleanup_wait_def ses time_left_def Let_def)
  moreover have "fold min (map ?f rest) (?f s0) \<le> ?f se"
    using fold_min_le [of "map ?f rest" "?f s0"] assms(2) by (auto simp: ses)
  ultimately show ?thesis by (simp add: min.coboundedI1)
qed

lemma fold_min_in: "fold min ts (t :: u64) \<in> set (t # ts)"
proof (induction ts arbitrary: t)
  case (Cons y ts)
  from Cons [of "min y t"] show ?case by (auto simp: min_def split: if_splits)
qed simp

lemma cleanup_wait_ends:
  assumes now: "unat now + 5000 < clock_max" and live: "\<forall>se\<in>set ses. \<not> se_cancelled se"
    and short: "cleanup_wait idle now ses \<noteq> 5000"
  shows "\<exists>se\<in>set ses. stale idle (now + cleanup_wait idle now ses) se"
proof -
  let ?w = "cleanup_wait idle now ses" and ?f = "\<lambda>se. time_left (se_last se) idle now"
  have idle: "0 < idle" using short live by (auto simp: cleanup_wait_def split: if_splits)
  obtain s0 rest where ses: "ses = s0 # rest"
    using short live idle by (cases ses) (auto simp: cleanup_wait_def)
  have w: "?w = min (fold min (map ?f rest) (?f s0)) 5000"
    using idle live by (auto simp: cleanup_wait_def ses time_left_def Let_def)
  then have fold: "?w = fold min (map ?f rest) (?f s0)" and small: "?w \<le> 5000" "?w \<noteq> 5000"
    using short by (auto simp: min_def split: if_splits)
  then obtain se where se: "se \<in> set ses" "?w = ?f se"
    using fold_min_in [of "map ?f rest" "?f s0"] by (auto simp: ses)
  have less: "unat ?w < 5000"
    using small by (simp add: word_le_nat_alt word_unat_eq_iff le_less)
  have sum: "unat (now + ?w) = unat now + unat ?w"
    using now less unat_u64_bound [of now] by (subst unat_add_lem [THEN iffD1]) auto
  have "deadline (se_last se) idle \<le> unat (now + ?w)"
    using less now unat_time_left [of "se_last se" idle now] unfolding sum se(2) [symmetric]
    by (simp add: deadline_def min_def split: if_splits)
  moreover have "unat (now + ?w) < clock_max" using sum less now by simp
  ultimately have "stale idle (now + ?w) se"
    using idle by (simp add: stale_exact idle_due_def pos_word_unat)
  then show ?thesis using se(1) by blast
qed

lemma cleanup_wait_max: "unat (cleanup_wait idle now ses) \<le> 5000"
proof -
  have "min x 5000 \<le> (5000 :: u64)" for x by simp
  then show ?thesis by (simp add: cleanup_wait_def Let_def sat_unat)
qed

text \<open>What a sweep takes off the limiter.\<close>

lemma evicted_slots:
  "length (filter P m) + size (map_ips (filter (\<lambda>e. \<not> P e) m)) = size (map_ips m)"
  unfolding map_ips_def size_mset length_map by (rule sum_length_filter_compl)

section \<open>Properties\<close>

definition overdue :: "ProxyConfig \<Rightarrow> u64 \<Rightarrow> session \<Rightarrow> bool" where
  "overdue cfg now se \<longleftrightarrow>
     \<not> se_cancelled se \<and> 0 < unat (idle_timeout_secs cfg) \<and>
     deadline (se_last se) (idle_timeout_secs cfg) \<le> unat now"

text \<open>
  C28: A sweep is exact. In every reachable state, below the saturation of the clock, what is left in the
  map are the sessions that are neither dead nor past their idle deadline, in their order; the dead
  ones are counted as \<open>error\<close> and the idle ones as \<open>idle_timeout\<close>, each once; each of them ends up
  cancelled with its channel closed, and its slot is back at the limiter; and the active gauge
  shows what is left.
\<close>

theorem sweep_exact:
  assumes "reach (udp_init cfg) (udp_roomy_step cfg) s" and "unat now < clock_max"
    and "udp_step cfg (Sweep now) s = Some t"
  defines "dead \<equiv> \<lambda>e. se_cancelled (session_at (ud_pool s) e)"
    and "idle \<equiv> \<lambda>e. overdue cfg now (session_at (ud_pool s) e)"
  shows "ud_map t = filter (\<lambda>e. \<not> dead e \<and> \<not> idle e) (ud_map s) \<and>
    closed_as cfg ''error'' t = closed_as cfg ''error'' s + length (filter dead (ud_map s)) \<and>
    closed_as cfg ''idle_timeout'' t = closed_as cfg ''idle_timeout'' s + length (filter idle (ud_map s)) \<and>
    (\<forall>e\<in>set (ud_map s).
       session_at (ud_pool t) e =
         (if dead e \<or> idle e then (session_at (ud_pool s) e)\<lparr>se_cancelled := True, se_tx_open := False\<rparr>
          else session_at (ud_pool s) e)) \<and>
    unat (st_total (lim_state (ud_limits t))) + length (filter (\<lambda>e. dead e \<or> idle e) (ud_map s)) =
      unat (st_total (lim_state (ud_limits s))) \<and>
    gauge Active [cfg_name cfg] 0 (ud_ops t) = int (length (ud_map t))"
proof -
  let ?v = "evicted_as cfg now (ud_pool s)" and ?r = "retain cfg now (ud_map s) s"
  have inv: "udp_inv cfg s" by (rule udp.inv_reachable [OF assms(1)])
  have t: "t = emit [set_active cfg ?r] ?r"
    using assms(3) by (simp add: sweep_def Let_def split: if_splits)
  have keys: "distinct (map fst (ud_map s))" using inv by (simp add: udp_inv_def)
  note ids = entries_distinct [OF keys map_entries [OF assms(1)]]
  note exact = retain_exact [OF ids [THEN conjunct1] ids [THEN conjunct2], of cfg now]
  have v: "(?v e = None) = (\<not> dead e \<and> \<not> idle e)" "(?v e = Some ''error'') = dead e"
      "(?v e = Some ''idle_timeout'') = idle e" for e
    by (auto simp: verdict_exact [OF assms(2)] idle_due_def dead_def idle_def overdue_def)
  have "fst e \<in> fst ` {x \<in> set (ud_map s). ?v x \<noteq> None} \<longleftrightarrow> ?v e \<noteq> None" if "e \<in> set (ud_map s)" for e
    using that keys by (auto simp: distinct_map inj_on_def)
  then have left: "ud_map t = filter (\<lambda>e. \<not> dead e \<and> \<not> idle e) (ud_map s)"
    using exact by (simp add: t v(1) cong: filter_cong)
  have inv_t: "udp_inv cfg t" using sweep_inv [OF inv] t by (simp add: sweep_def Let_def)
  have setups: "ud_setups t = ud_setups s" using retain_quiet [of cfg now "ud_map s" s] by (simp add: t)
  have "length (filter (\<lambda>e. dead e \<or> idle e) (ud_map s)) + size (held t) = size (held s)"
    using evicted_slots [of "\<lambda>e. dead e \<or> idle e" "ud_map s"] by (simp add: held_def left setups)
  then have "unat (st_total (lim_state (ud_limits t))) + length (filter (\<lambda>e. dead e \<or> idle e) (ud_map s)) =
      unat (st_total (lim_state (ud_limits s)))"
    using inv inv_t by (auto simp: udp_inv_def limiter_ok_def dest!: tracks_total)
  then show ?thesis
    using exact left by (auto simp: t v evict_def closed_as_def set_active_def)
qed

text \<open>A first session, and a sweep ten minutes after it was opened.\<close>

definition sweep_events :: "udp_event list" where
  "sweep_events = first_packet @ finish_setup"

definition before_sweep :: udp_sys where
  "before_sweep = the (run (udp_roomy_step default_config) sweep_events (udp_start default_config))"

lemma before_sweep:
  "run (udp_roomy_step default_config) sweep_events (udp_start default_config) = Some before_sweep"
  "ud_map before_sweep = [(demo_src, 0, \<lparr>src_ip = sock_ip demo_src\<rparr>)]" "ud_cleanup_runs before_sweep"
  "session_at (ud_pool before_sweep) (demo_src, 0, \<lparr>src_ip = sock_ip demo_src\<rparr>) =
     (new_session demo_src 0)\<lparr>se_chan := [[1]]\<rparr>"
  by (simp_all add: before_sweep_def sweep_events_def udp_eval session_at_def)

theorem sweep_exact_witness:
  "ud_map (sweep default_config 600000 before_sweep) = [] \<and>
   closed_as default_config ''idle_timeout'' (sweep default_config 600000 before_sweep) =
     Suc (closed_as default_config ''idle_timeout'' before_sweep)"
proof -
  have "udp_step default_config (Sweep 600000) before_sweep =
      Some (sweep default_config 600000 before_sweep)" by (simp add: before_sweep(3))
  from sweep_exact [OF udp_demo_reach [OF before_sweep(1)] _ this]
  show ?thesis
    by (simp add: before_sweep(2,4) overdue_def new_session_def deadline_def default_config_def)
qed

text \<open>
  C39: The sleep before a sweep, over the sessions of the map: at most 5 s, none when a session is dead,
  and never past the idle deadline of a session; and if it is cut short of the 5 s, some session is
  idle when it ends, so the task does not spin.
\<close>

theorem cleanup_sleep:
  fixes now idle :: u64 and ses :: "session list"
  assumes "unat now + 5000 < clock_max"
  defines "wait \<equiv> cleanup_wait idle now ses"
  shows "unat wait \<le> 5000 \<and>
    (if \<exists>se\<in>set ses. se_cancelled se then wait = 0
     else (\<forall>se\<in>set ses. idle = 0 \<or> unat now + unat wait \<le> max (unat now) (deadline (se_last se) idle)) \<and>
       (wait = 5000 \<or> (\<exists>se\<in>set ses. stale idle (now + wait) se)))"
proof (intro conjI)
  show "unat wait \<le> 5000" unfolding wait_def by (rule cleanup_wait_max)
  show "if \<exists>se\<in>set ses. se_cancelled se then wait = 0
     else (\<forall>se\<in>set ses. idle = 0 \<or> unat now + unat wait \<le> max (unat now) (deadline (se_last se) idle)) \<and>
       (wait = 5000 \<or> (\<exists>se\<in>set ses. stale idle (now + wait) se))"
  proof (cases "\<exists>se\<in>set ses. se_cancelled se")
    case True
    then show ?thesis by (simp add: wait_def cleanup_wait_def)
  next
    case False
    have "idle = 0 \<or> unat now + unat wait \<le> max (unat now) (deadline (se_last se) idle)"
      if "se \<in> set ses" for se
      using cleanup_wait_bound [of idle se ses now] time_left_bound [of now "se_last se" idle] that False
      by (cases "idle = 0") (auto simp: wait_def word_le_nat_alt word_gt_0)
    moreover have "wait = 5000 \<or> (\<exists>se\<in>set ses. stale idle (now + wait) se)"
      using cleanup_wait_ends [OF assms(1), of ses idle] False by (auto simp: wait_def)
    ultimately show ?thesis using False by simp
  qed
qed

theorem cleanup_sleep_witness:
  "unat (4000 :: u64) + unat (cleanup_wait 2 4000 [new_session demo_src 3000]) \<le>
     max (unat (4000 :: u64)) (deadline 3000 2)"
  using cleanup_sleep [of 4000 2 "[new_session demo_src 3000]"]
  by (simp add: new_session_def)

end
