(* ===== verification/Toml_Schema.thy ===== *)
theory Toml_Schema
  imports Config
begin

text \<open>
  The shape of a configuration file: what the \<open>Deserialize\<close> declarations of \<open>src/config.rs\<close> (the fields of
  \<open>TomlFile\<close>, \<open>TomlTuning\<close> and \<open>TomlProxy\<close>, \<open>deny_unknown_fields\<close>, \<open>default\<close>, \<open>rename\<close>) make of a parsed TOML
  document. Parsing the text into the document is the toml crate, a parameter.
\<close>

section \<open>Documents\<close>

text \<open>A TOML value; a table lists its keys, all different, in the order of the document.\<close>

datatype toml =
    TString string
  | TInteger int
  | TBoolean bool
  | TArray "toml list"
  | TTable "(string \<times> toml) list"
  | TOther

type_synonym table = "(string \<times> toml) list"

datatype schema_error =
    UnknownField string
  | MissingField string
  | WrongType string
  | UnknownVariant string

section \<open>Fields\<close>

text \<open>
  A document spells a struct as a table and the protocol as a string; it is this form that is modelled.
  The code serde derives also reads an array as a struct, by position, and the toml crate a table
  as an enum: what they make of these forms is a parameter.
\<close>

record serde_forms =
  tuning_seq :: "toml list \<Rightarrow> schema_error + TomlTuning"
  proxy_seq :: "toml list \<Rightarrow> schema_error + TomlProxy"
  protocol_table :: "table \<Rightarrow> schema_error + Protocol"

text \<open>The types of the fields. An integer outside the range of the field's type is refused.\<close>

fun as_string :: "string \<Rightarrow> toml \<Rightarrow> schema_error + string" where
  "as_string k (TString s) = Inr s"
| "as_string k _ = Inl (WrongType k)"

fun as_u64 :: "string \<Rightarrow> toml \<Rightarrow> schema_error + u64" where
  "as_u64 k (TInteger n) = (if 0 \<le> n \<and> n < 2 ^ 64 then Inr (of_int n) else Inl (WrongType k))"
| "as_u64 k _ = Inl (WrongType k)"

fun as_u32 :: "string \<Rightarrow> toml \<Rightarrow> schema_error + u32" where
  "as_u32 k (TInteger n) = (if 0 \<le> n \<and> n < 2 ^ 32 then Inr (of_int n) else Inl (WrongType k))"
| "as_u32 k _ = Inl (WrongType k)"

fun as_bool :: "string \<Rightarrow> toml \<Rightarrow> schema_error + bool" where
  "as_bool k (TBoolean b) = Inr b"
| "as_bool k _ = Inl (WrongType k)"

fun as_protocol :: "serde_forms \<Rightarrow> string \<Rightarrow> toml \<Rightarrow> schema_error + Protocol" where
  "as_protocol forms k (TString s) =
     (if s = ''tcp'' then Inr Tcp else if s = ''udp'' then Inr Udp else Inl (UnknownVariant s))"
| "as_protocol forms k (TTable tbl) = protocol_table forms tbl"
| "as_protocol forms k _ = Inl (WrongType k)"

text \<open>A field that is an \<open>Option\<close>, one with a default, and one that must be there.\<close>

definition optional :: "(string \<Rightarrow> toml \<Rightarrow> schema_error + 'a) \<Rightarrow> table \<Rightarrow> string \<Rightarrow> schema_error + 'a option" where
  "optional as tbl k = (case map_of tbl k of None \<Rightarrow> Inr None | Some v \<Rightarrow> bindE (as k v) (\<lambda>x. Inr (Some x)))"

definition defaulted ::
    "'a \<Rightarrow> (string \<Rightarrow> toml \<Rightarrow> schema_error + 'a) \<Rightarrow> table \<Rightarrow> string \<Rightarrow> schema_error + 'a" where
  "defaulted d as tbl k = (case map_of tbl k of None \<Rightarrow> Inr d | Some v \<Rightarrow> as k v)"

definition required :: "(string \<Rightarrow> toml \<Rightarrow> schema_error + 'a) \<Rightarrow> table \<Rightarrow> string \<Rightarrow> schema_error + 'a" where
  "required as tbl k = (case map_of tbl k of None \<Rightarrow> Inl (MissingField k) | Some v \<Rightarrow> as k v)"

text \<open>
  The keys are visited in the order of the document: an undeclared one is refused
  (\<open>deny_unknown_fields\<close>), a declared one must have its type. Missing fields are noticed after that.
\<close>

definition fits :: "(string \<Rightarrow> toml \<Rightarrow> schema_error + 'a) \<Rightarrow> string \<Rightarrow> toml \<Rightarrow> schema_error + unit" where
  "fits as k v = bindE (as k v) (\<lambda>_. Inr ())"

fun visit :: "(string \<Rightarrow> (toml \<Rightarrow> schema_error + unit) option) \<Rightarrow> table \<Rightarrow> schema_error + unit" where
  "visit field [] = Inr ()"
| "visit field ((k, v) # tbl) =
     (case field k of
        None \<Rightarrow> Inl (UnknownField k)
      | Some check \<Rightarrow> bindE (check v) (\<lambda>_. visit field tbl))"

section \<open>The tables\<close>

text \<open>The tuning knobs, declared once by \<open>tuning_knobs!\<close> with their types.\<close>

definition u64_knobs :: "string list" where
  "u64_knobs =
     [''connect_timeout'', ''keepalive_idle'', ''keepalive_interval'', ''idle_timeout'', ''half_close_timeout'']"

definition u32_knobs :: "string list" where
  "u32_knobs = [''keepalive_retries'', ''user_timeout_ms'', ''max_connections'', ''max_per_ip'']"

definition tuning_field :: "string \<Rightarrow> (toml \<Rightarrow> schema_error + unit) option" where
  "tuning_field k =
     (if k \<in> set u64_knobs then Some (fits as_u64 k)
      else if k \<in> set u32_knobs then Some (fits as_u32 k)
      else if k = ''proxy_protocol'' then Some (fits as_bool k) else None)"

definition proxy_field :: "serde_forms \<Rightarrow> string \<Rightarrow> (toml \<Rightarrow> schema_error + unit) option" where
  "proxy_field forms k =
     (if k \<in> {''name'', ''listen'', ''target''} then Some (fits as_string k)
      else if k = ''protocol'' then Some (fits (as_protocol forms) k) else tuning_field k)"

definition decode_tuning :: "table \<Rightarrow> schema_error + TomlTuning" where
  "decode_tuning tbl =
     bindE (visit tuning_field tbl) (\<lambda>_.
     bindE (optional as_u64 tbl ''connect_timeout'') (\<lambda>ct.
     bindE (optional as_u64 tbl ''keepalive_idle'') (\<lambda>ki.
     bindE (optional as_u64 tbl ''keepalive_interval'') (\<lambda>kv.
     bindE (optional as_u32 tbl ''keepalive_retries'') (\<lambda>kr.
     bindE (optional as_u32 tbl ''user_timeout_ms'') (\<lambda>ut.
     bindE (optional as_u64 tbl ''idle_timeout'') (\<lambda>it.
     bindE (optional as_u64 tbl ''half_close_timeout'') (\<lambda>hc.
     bindE (optional as_u32 tbl ''max_connections'') (\<lambda>mc.
     bindE (optional as_u32 tbl ''max_per_ip'') (\<lambda>mp.
     bindE (optional as_bool tbl ''proxy_protocol'') (\<lambda>pp.
       Inr \<lparr>d_connect_timeout = ct, d_keepalive_idle = ki, d_keepalive_interval = kv,
            d_keepalive_retries = kr, d_user_timeout_ms = ut, d_idle_timeout = it,
            d_half_close_timeout = hc, d_max_connections = mc, d_max_per_ip = mp,
            d_proxy_protocol = pp\<rparr>)))))))))))"

definition decode_proxy :: "serde_forms \<Rightarrow> table \<Rightarrow> schema_error + TomlProxy" where
  "decode_proxy forms tbl =
     bindE (visit (proxy_field forms) tbl) (\<lambda>_.
     bindE (optional as_string tbl ''name'') (\<lambda>nm.
     bindE (required as_string tbl ''listen'') (\<lambda>l.
     bindE (required as_string tbl ''target'') (\<lambda>t.
     bindE (defaulted Tcp (as_protocol forms) tbl ''protocol'') (\<lambda>p.
     bindE (optional as_u64 tbl ''connect_timeout'') (\<lambda>ct.
     bindE (optional as_u64 tbl ''keepalive_idle'') (\<lambda>ki.
     bindE (optional as_u64 tbl ''keepalive_interval'') (\<lambda>kv.
     bindE (optional as_u32 tbl ''keepalive_retries'') (\<lambda>kr.
     bindE (optional as_u32 tbl ''user_timeout_ms'') (\<lambda>ut.
     bindE (optional as_u64 tbl ''idle_timeout'') (\<lambda>it.
     bindE (optional as_u64 tbl ''half_close_timeout'') (\<lambda>hc.
     bindE (optional as_u32 tbl ''max_connections'') (\<lambda>mc.
     bindE (optional as_u32 tbl ''max_per_ip'') (\<lambda>mp.
     bindE (optional as_bool tbl ''proxy_protocol'') (\<lambda>pp.
       Inr \<lparr>p_name = nm, p_listen = l, p_target = t, p_protocol = p, p_connect_timeout = ct,
            p_keepalive_idle = ki, p_keepalive_interval = kv, p_keepalive_retries = kr,
            p_user_timeout_ms = ut, p_idle_timeout = it, p_half_close_timeout = hc,
            p_max_connections = mc, p_max_per_ip = mp, p_proxy_protocol = pp\<rparr>)))))))))))))))"

text \<open>A \<open>Vec\<close> of structs: the first element that is none decides.\<close>

fun as_proxy :: "serde_forms \<Rightarrow> string \<Rightarrow> toml \<Rightarrow> schema_error + TomlProxy" where
  "as_proxy forms k (TTable tbl) = decode_proxy forms tbl"
| "as_proxy forms k (TArray vs) = proxy_seq forms vs"
| "as_proxy forms k _ = Inl (WrongType k)"

fun decode_all :: "serde_forms \<Rightarrow> string \<Rightarrow> toml list \<Rightarrow> schema_error + TomlProxy list" where
  "decode_all forms k [] = Inr []"
| "decode_all forms k (v # vs) =
     bindE (as_proxy forms k v) (\<lambda>p. bindE (decode_all forms k vs) (\<lambda>ps. Inr (p # ps)))"

fun as_proxies :: "serde_forms \<Rightarrow> string \<Rightarrow> toml \<Rightarrow> schema_error + TomlProxy list" where
  "as_proxies forms k (TArray vs) = decode_all forms k vs"
| "as_proxies forms k _ = Inl (WrongType k)"

fun as_tuning :: "serde_forms \<Rightarrow> string \<Rightarrow> toml \<Rightarrow> schema_error + TomlTuning" where
  "as_tuning forms k (TTable tbl) = decode_tuning tbl"
| "as_tuning forms k (TArray vs) = tuning_seq forms vs"
| "as_tuning forms k _ = Inl (WrongType k)"

definition no_tuning :: TomlTuning where
  "no_tuning =
     \<lparr>d_connect_timeout = None, d_keepalive_idle = None, d_keepalive_interval = None,
      d_keepalive_retries = None, d_user_timeout_ms = None, d_idle_timeout = None,
      d_half_close_timeout = None, d_max_connections = None, d_max_per_ip = None,
      d_proxy_protocol = None\<rparr>"

definition file_field :: "serde_forms \<Rightarrow> string \<Rightarrow> (toml \<Rightarrow> schema_error + unit) option" where
  "file_field forms k =
     (if k = ''defaults'' then Some (fits (as_tuning forms) k)
      else if k = ''metrics_listen'' then Some (fits as_string k)
      else if k = ''shutdown_grace'' then Some (fits as_u64 k)
      else if k = ''proxy'' then Some (fits (as_proxies forms) k) else None)"

definition decode_file :: "serde_forms \<Rightarrow> table \<Rightarrow> schema_error + TomlFile" where
  "decode_file forms tbl =
     bindE (visit (file_field forms) tbl) (\<lambda>_.
     bindE (defaulted no_tuning (as_tuning forms) tbl ''defaults'') (\<lambda>d.
     bindE (optional as_string tbl ''metrics_listen'') (\<lambda>m.
     bindE (optional as_u64 tbl ''shutdown_grace'') (\<lambda>g.
     bindE (required (as_proxies forms) tbl ''proxy'') (\<lambda>ps.
       Inr \<lparr>f_defaults = d, f_metrics_listen = m, f_shutdown_grace = g, f_proxies = ps\<rparr>)))))"

text \<open>\<open>toml::from_str\<close>: the crate's parser, then the declarations; it renders an error as a message.\<close>

definition toml_from_str ::
    "(string \<Rightarrow> string + table) \<Rightarrow> serde_forms \<Rightarrow> (schema_error \<Rightarrow> string) \<Rightarrow> string \<Rightarrow> string + TomlFile" where
  "toml_from_str parse forms show_error txt =
     bindE (parse txt) (\<lambda>tbl. map_err show_error (decode_file forms tbl))"

section \<open>Lemmas\<close>

lemma visit_ok:
  "visit field tbl = Inr () \<longleftrightarrow>
     (\<forall>(k, v)\<in>set tbl. \<exists>check. field k = Some check \<and> check v = Inr ())"
  by (induction field tbl rule: visit.induct) (auto simp: bindE_eq_Inr split: option.splits)

lemma visit_keys: "visit field tbl = Inr () \<Longrightarrow> k \<in> fst ` set tbl \<Longrightarrow> field k \<noteq> None"
  by (force simp: visit_ok)

definition file_keys :: "string set" where
  "file_keys = {''defaults'', ''metrics_listen'', ''shutdown_grace'', ''proxy''}"

definition tuning_keys :: "string set" where
  "tuning_keys = insert ''proxy_protocol'' (set u64_knobs \<union> set u32_knobs)"

definition proxy_keys :: "string set" where
  "proxy_keys = {''name'', ''listen'', ''target'', ''protocol''} \<union> tuning_keys"

lemma declared_file: "file_field forms k \<noteq> None \<longleftrightarrow> k \<in> file_keys"
  unfolding file_field_def file_keys_def by (simp split: if_split)

lemma declared_tuning: "tuning_field k \<noteq> None \<longleftrightarrow> k \<in> tuning_keys"
  unfolding tuning_field_def tuning_keys_def by (simp split: if_split)

lemma declared_proxy: "proxy_field forms k \<noteq> None \<longleftrightarrow> k \<in> proxy_keys"
  unfolding proxy_field_def proxy_keys_def Un_iff declared_tuning [symmetric] by (simp split: if_split)

lemma bindE_unit: "bindE r (\<lambda>_. k) = Inr x \<Longrightarrow> r = Inr ()"
  by (cases r) simp_all

lemma decode_tuning_visits: "decode_tuning tbl = Inr x \<Longrightarrow> visit tuning_field tbl = Inr ()"
  unfolding decode_tuning_def by (rule bindE_unit)

lemma decode_proxy_visits: "decode_proxy forms tbl = Inr x \<Longrightarrow> visit (proxy_field forms) tbl = Inr ()"
  unfolding decode_proxy_def by (rule bindE_unit)

lemma decode_file_visits: "decode_file forms tbl = Inr x \<Longrightarrow> visit (file_field forms) tbl = Inr ()"
  unfolding decode_file_def by (rule bindE_unit)

lemma visit_known:
  assumes "visit field tbl = Inr ()" and "\<And>k. field k \<noteq> None \<longleftrightarrow> k \<in> ks"
  shows "fst ` set tbl \<subseteq> ks"
  using visit_keys [OF assms(1)] assms(2) by (intro subsetI) simp

lemma decode_tuning_keys: "decode_tuning tbl = Inr x \<Longrightarrow> fst ` set tbl \<subseteq> tuning_keys"
  by (rule visit_known [OF decode_tuning_visits declared_tuning])

lemma decode_proxy_keys: "decode_proxy forms tbl = Inr p \<Longrightarrow> fst ` set tbl \<subseteq> proxy_keys"
  by (rule visit_known [OF decode_proxy_visits declared_proxy])

lemma decode_file_keys: "decode_file forms tbl = Inr f \<Longrightarrow> fst ` set tbl \<subseteq> file_keys"
  by (rule visit_known [OF decode_file_visits declared_file])

text \<open>Once every key has its type, only a missing field can fail.\<close>

lemma visited_field:
  assumes "visit field tbl = Inr ()" and "map_of tbl k = Some v" and "field k = Some (fits as k)"
  shows "\<exists>x. as k v = Inr x"
proof -
  have "(k, v) \<in> set tbl" using assms(2) by (rule map_of_SomeD)
  then have "fits as k v = Inr ()" using assms(1, 3) by (auto simp: visit_ok)
  then show ?thesis by (auto simp: fits_def bindE_eq_Inr)
qed

lemma optional_visited:
  "visit field tbl = Inr () \<Longrightarrow> field k = Some (fits as k) \<Longrightarrow> \<exists>x. optional as tbl k = Inr x"
  using visited_field [of field tbl k _ as] by (force simp: optional_def split: option.split)

lemma defaulted_visited:
  "visit field tbl = Inr () \<Longrightarrow> field k = Some (fits as k) \<Longrightarrow> \<exists>x. defaulted d as tbl k = Inr x"
  using visited_field [of field tbl k _ as] by (force simp: defaulted_def split: option.split)

lemma required_visited:
  "visit field tbl = Inr () \<Longrightarrow> field k = Some (fits as k) \<Longrightarrow>
     (\<exists>x. required as tbl k = Inr x) \<longleftrightarrow> map_of tbl k \<noteq> None"
  using visited_field [of field tbl k _ as] by (force simp: required_def split: option.split)

lemma bindE_optional:
  assumes "visit field tbl = Inr ()" and "field k = Some (fits as k)"
    and "\<And>x. (\<exists>y. f x = Inr y) \<longleftrightarrow> P"
  shows "(\<exists>y. bindE (optional as tbl k) f = Inr y) \<longleftrightarrow> P"
  using optional_visited [OF assms(1, 2)] assms(3) by force

lemma bindE_defaulted:
  assumes "visit field tbl = Inr ()" and "field k = Some (fits as k)"
    and "\<And>x. (\<exists>y. f x = Inr y) \<longleftrightarrow> P"
  shows "(\<exists>y. bindE (defaulted d as tbl k) f = Inr y) \<longleftrightarrow> P"
  using defaulted_visited [OF assms(1, 2), of d] assms(3) by force

lemma bindE_required:
  assumes "visit field tbl = Inr ()" and "field k = Some (fits as k)"
    and "\<And>x. (\<exists>y. f x = Inr y) \<longleftrightarrow> P"
  shows "(\<exists>y. bindE (required as tbl k) f = Inr y) \<longleftrightarrow> map_of tbl k \<noteq> None \<and> P"
proof (cases "required as tbl k")
  case (Inl e)
  then show ?thesis using required_visited [OF assms(1, 2)] by auto
next
  case (Inr x)
  then show ?thesis using required_visited [OF assms(1, 2)] assms(3) by auto
qed

lemma tuning_field_knobs:
  "k \<in> set u64_knobs \<Longrightarrow> tuning_field k = Some (fits as_u64 k)"
  "k \<in> set u32_knobs \<Longrightarrow> tuning_field k = Some (fits as_u32 k)"
  "tuning_field ''proxy_protocol'' = Some (fits as_bool ''proxy_protocol'')"
  by (auto simp: tuning_field_def u64_knobs_def u32_knobs_def)

lemma proxy_field_fields:
  "k \<in> set u64_knobs \<Longrightarrow> proxy_field forms k = Some (fits as_u64 k)"
  "k \<in> set u32_knobs \<Longrightarrow> proxy_field forms k = Some (fits as_u32 k)"
  "proxy_field forms ''proxy_protocol'' = Some (fits as_bool ''proxy_protocol'')"
  "proxy_field forms ''name'' = Some (fits as_string ''name'')"
  "proxy_field forms ''listen'' = Some (fits as_string ''listen'')"
  "proxy_field forms ''target'' = Some (fits as_string ''target'')"
  "proxy_field forms ''protocol'' = Some (fits (as_protocol forms) ''protocol'')"
  by (auto simp: proxy_field_def tuning_field_def u64_knobs_def u32_knobs_def)

lemma u64_names:
  "''connect_timeout'' \<in> set u64_knobs" "''keepalive_idle'' \<in> set u64_knobs"
  "''keepalive_interval'' \<in> set u64_knobs" "''idle_timeout'' \<in> set u64_knobs"
  "''half_close_timeout'' \<in> set u64_knobs"
  by (simp_all add: u64_knobs_def)

lemma u32_names:
  "''keepalive_retries'' \<in> set u32_knobs" "''user_timeout_ms'' \<in> set u32_knobs"
  "''max_connections'' \<in> set u32_knobs" "''max_per_ip'' \<in> set u32_knobs"
  by (simp_all add: u32_knobs_def)

lemmas tuning_fields =
  u64_names [THEN tuning_field_knobs(1)] u32_names [THEN tuning_field_knobs(2)] tuning_field_knobs(3)

lemmas proxy_fields =
  u64_names [THEN proxy_field_fields(1)] u32_names [THEN proxy_field_fields(2)] proxy_field_fields(3-7)

lemma visit_decides: "(visit field tbl = Inr () \<Longrightarrow> (\<exists>y. r = Inr y) \<longleftrightarrow> P) \<Longrightarrow>
    (\<exists>y. bindE (visit field tbl) (\<lambda>_. r) = Inr y) \<longleftrightarrow> visit field tbl = Inr () \<and> P"
  by (cases "visit field tbl") auto

lemma decode_tuning_reads: "(\<exists>t. decode_tuning tbl = Inr t) \<longleftrightarrow> visit tuning_field tbl = Inr ()"
proof -
  have "(\<exists>t. decode_tuning tbl = Inr t) \<longleftrightarrow> visit tuning_field tbl = Inr () \<and> True"
    unfolding decode_tuning_def
    by (rule visit_decides) ((rule bindE_optional, assumption, rule tuning_fields)+, simp)
  then show ?thesis by simp
qed

lemma decode_proxy_reads:
  "(\<exists>p. decode_proxy forms tbl = Inr p) \<longleftrightarrow>
     visit (proxy_field forms) tbl = Inr () \<and> map_of tbl ''listen'' \<noteq> None \<and> map_of tbl ''target'' \<noteq> None"
proof -
  have "(\<exists>p. decode_proxy forms tbl = Inr p) \<longleftrightarrow>
      visit (proxy_field forms) tbl = Inr () \<and> map_of tbl ''listen'' \<noteq> None \<and> map_of tbl ''target'' \<noteq> None \<and> True"
    unfolding decode_proxy_def
    by (rule visit_decides)
      ((rule bindE_optional bindE_required bindE_defaulted, assumption, rule proxy_fields)+, simp)
  then show ?thesis by simp
qed

text \<open>
  The shape, declaratively: which keys each table may have, with values of which form, and which it
  must have.
\<close>

definition is_u64 :: "toml \<Rightarrow> bool" where
  "is_u64 v \<longleftrightarrow> (\<exists>n. v = TInteger n \<and> 0 \<le> n \<and> n < 2 ^ 64)"

definition is_u32 :: "toml \<Rightarrow> bool" where
  "is_u32 v \<longleftrightarrow> (\<exists>n. v = TInteger n \<and> 0 \<le> n \<and> n < 2 ^ 32)"

definition tuning_entry :: "string \<Rightarrow> toml \<Rightarrow> bool" where
  "tuning_entry k v \<longleftrightarrow>
     k \<in> {''connect_timeout'', ''keepalive_idle'', ''keepalive_interval'', ''idle_timeout'',
          ''half_close_timeout''} \<and> is_u64 v \<or>
     k \<in> {''keepalive_retries'', ''user_timeout_ms'', ''max_connections'', ''max_per_ip''} \<and> is_u32 v \<or>
     k = ''proxy_protocol'' \<and> (\<exists>b. v = TBoolean b)"

definition proxy_entry :: "string \<Rightarrow> toml \<Rightarrow> bool" where
  "proxy_entry k v \<longleftrightarrow>
     k \<in> {''name'', ''listen'', ''target''} \<and> (\<exists>s. v = TString s) \<or>
     k = ''protocol'' \<and> v \<in> {TString ''tcp'', TString ''udp''} \<or> tuning_entry k v"

definition proxy_table :: "toml \<Rightarrow> bool" where
  "proxy_table v \<longleftrightarrow>
     (\<exists>p. v = TTable p \<and> list_all (\<lambda>(k, v). proxy_entry k v) p \<and> {''listen'', ''target''} \<subseteq> fst ` set p)"

definition file_entry :: "string \<Rightarrow> toml \<Rightarrow> bool" where
  "file_entry k v \<longleftrightarrow>
     k = ''defaults'' \<and> (\<exists>d. v = TTable d \<and> list_all (\<lambda>(k, v). tuning_entry k v) d) \<or>
     k = ''metrics_listen'' \<and> (\<exists>s. v = TString s) \<or>
     k = ''shutdown_grace'' \<and> is_u64 v \<or>
     k = ''proxy'' \<and> (\<exists>vs. v = TArray vs \<and> list_all proxy_table vs)"

text \<open>
  A document in table form: no array where a struct is declared, no table where the protocol is. This is
  every document written in the documented syntax, well-typed or not.
\<close>

fun is_array :: "toml \<Rightarrow> bool" where
  "is_array (TArray vs) = True"
| "is_array _ = False"

fun is_table :: "toml \<Rightarrow> bool" where
  "is_table (TTable tbl) = True"
| "is_table _ = False"

definition proxy_form :: "toml \<Rightarrow> bool" where
  "proxy_form v =
     (case v of
        TArray vs \<Rightarrow> False
      | TTable tbl \<Rightarrow> list_all (\<lambda>(k, x). k = ''protocol'' \<longrightarrow> \<not> is_table x) tbl
      | _ \<Rightarrow> True)"

definition table_form :: "table \<Rightarrow> bool" where
  "table_form tbl =
     list_all (\<lambda>(k, v).
       (k = ''defaults'' \<longrightarrow> \<not> is_array v) \<and>
       (case v of TArray vs \<Rightarrow> k = ''proxy'' \<longrightarrow> list_all proxy_form vs | _ \<Rightarrow> True)) tbl"

lemma visit_entries:
  assumes "\<And>k v. (k, v) \<in> set tbl \<Longrightarrow> (\<exists>check. field k = Some check \<and> check v = Inr ()) \<longleftrightarrow> P k v"
  shows "visit field tbl = Inr () \<longleftrightarrow> list_all (\<lambda>(k, v). P k v) tbl"
proof -
  have "(\<exists>check. field (fst e) = Some check \<and> check (snd e) = Inr ()) \<longleftrightarrow> P (fst e) (snd e)" if "e \<in> set tbl" for e
    using assms [of "fst e" "snd e"] that by simp
  then show ?thesis by (simp add: visit_ok list_all_iff split_def)
qed

lemma fits_iff: "fits as k v = Inr () \<longleftrightarrow> (\<exists>x. as k v = Inr x)"
  by (auto simp: fits_def bindE_eq_Inr)

lemma as_string_reads: "(\<exists>x. as_string k v = Inr x) \<longleftrightarrow> (\<exists>s. v = TString s)"
  by (cases v) auto

lemma as_u64_reads: "(\<exists>x. as_u64 k v = Inr x) \<longleftrightarrow> is_u64 v"
  by (cases v) (auto simp: is_u64_def)

lemma as_u32_reads: "(\<exists>x. as_u32 k v = Inr x) \<longleftrightarrow> is_u32 v"
  by (cases v) (auto simp: is_u32_def)

lemma as_bool_reads: "(\<exists>x. as_bool k v = Inr x) \<longleftrightarrow> (\<exists>b. v = TBoolean b)"
  by (cases v) auto

lemma as_protocol_reads:
  "\<not> is_table v \<Longrightarrow> (\<exists>x. as_protocol forms k v = Inr x) \<longleftrightarrow> v \<in> {TString ''tcp'', TString ''udp''}"
  by (cases v) auto

lemmas reads = as_string_reads as_u64_reads as_u32_reads as_bool_reads as_protocol_reads

lemma u32_not_u64: "k \<in> set u32_knobs \<Longrightarrow> k \<notin> set u64_knobs"
  by (auto simp: u64_knobs_def u32_knobs_def)

lemma proxy_protocol_no_number: "''proxy_protocol'' \<notin> set u64_knobs" "''proxy_protocol'' \<notin> set u32_knobs"
  by (simp_all add: u64_knobs_def u32_knobs_def)

lemma tuning_entry_knobs:
  "tuning_entry k v \<longleftrightarrow>
     k \<in> set u64_knobs \<and> is_u64 v \<or> k \<in> set u32_knobs \<and> is_u32 v \<or>
     k = ''proxy_protocol'' \<and> (\<exists>b. v = TBoolean b)"
  by (simp only: tuning_entry_def u64_knobs_def u32_knobs_def list.set)

lemma tuning_entry_iff:
  "(\<exists>check. tuning_field k = Some check \<and> check v = Inr ()) \<longleftrightarrow> tuning_entry k v"
proof -
  consider "k \<in> set u64_knobs" | "k \<notin> set u64_knobs" "k \<in> set u32_knobs"
    | "k \<notin> set u64_knobs" "k \<notin> set u32_knobs" by blast
  then show ?thesis
    by cases (auto simp: tuning_field_def tuning_entry_knobs fits_iff reads u32_not_u64
        proxy_protocol_no_number)
qed

lemma tuning_names_apart: "tuning_entry k v \<Longrightarrow> k \<notin> {''name'', ''listen'', ''target'', ''protocol''}"
  by (auto simp: tuning_entry_def)

lemma proxy_entry_iff:
  assumes "k = ''protocol'' \<Longrightarrow> \<not> is_table v"
  shows "(\<exists>check. proxy_field forms k = Some check \<and> check v = Inr ()) \<longleftrightarrow> proxy_entry k v"
proof -
  consider (string) "k \<in> {''name'', ''listen'', ''target''}"
    | (protocol) "k \<notin> {''name'', ''listen'', ''target''}" "k = ''protocol''"
    | (knob) "k \<notin> {''name'', ''listen'', ''target''}" "k \<noteq> ''protocol''" by blast
  then show ?thesis
  proof cases
    case string
    then have "\<not> tuning_entry k v" "k \<noteq> ''protocol''" using tuning_names_apart by auto
    with string show ?thesis
      unfolding proxy_field_def proxy_entry_def
      by (simp only: if_True option.inject simp_thms ex_simps fits_iff reads)
  next
    case protocol
    then have "\<not> tuning_entry k v" using tuning_names_apart by auto
    with protocol show ?thesis
      unfolding proxy_field_def proxy_entry_def using assms by (simp add: fits_iff reads)
  next
    case knob
    then show ?thesis
      unfolding proxy_field_def proxy_entry_def
      by (simp only: if_False tuning_entry_iff) blast
  qed
qed

lemma decode_tuning_table:
  "(\<exists>t. decode_tuning tbl = Inr t) \<longleftrightarrow> list_all (\<lambda>(k, v). tuning_entry k v) tbl"
  unfolding decode_tuning_reads by (rule visit_entries) (rule tuning_entry_iff)

lemma decode_proxy_table:
  assumes "proxy_form (TTable tbl)"
  shows "(\<exists>p. decode_proxy forms tbl = Inr p) \<longleftrightarrow> proxy_table (TTable tbl)"
proof -
  have key: "k \<in> fst ` set tbl \<longleftrightarrow> map_of tbl k \<noteq> None" for k
    by (simp add: map_of_eq_None_iff)
  have "visit (proxy_field forms) tbl = Inr () \<longleftrightarrow> list_all (\<lambda>(k, v). proxy_entry k v) tbl"
    using assms by (intro visit_entries proxy_entry_iff) (auto simp: proxy_form_def list_all_iff)
  then show ?thesis
    unfolding decode_proxy_reads proxy_table_def using key by simp
qed

lemma as_proxy_reads: "proxy_form v \<Longrightarrow> (\<exists>p. as_proxy forms k v = Inr p) \<longleftrightarrow> proxy_table v"
  by (cases v) (simp_all add: decode_proxy_table, simp_all add: proxy_table_def proxy_form_def)

lemma decode_all_reads:
  "list_all proxy_form vs \<Longrightarrow> (\<exists>ps. decode_all forms k vs = Inr ps) \<longleftrightarrow> list_all proxy_table vs"
proof (induction vs)
  case (Cons v vs)
  have "(\<exists>ps. decode_all forms k (v # vs) = Inr ps) \<longleftrightarrow>
      (\<exists>p. as_proxy forms k v = Inr p) \<and> (\<exists>ps. decode_all forms k vs = Inr ps)"
    by (auto simp: bindE_eq_Inr)
  then show ?case using Cons as_proxy_reads [of v forms k] by simp
qed simp

lemma file_entry_iff:
  assumes "k = ''defaults'' \<Longrightarrow> \<not> is_array v"
    and "\<And>vs. k = ''proxy'' \<Longrightarrow> v = TArray vs \<Longrightarrow> list_all proxy_form vs"
  shows "(\<exists>check. file_field forms k = Some check \<and> check v = Inr ()) \<longleftrightarrow> file_entry k v"
proof -
  have tuning: "(\<exists>t. as_tuning forms k v = Inr t) \<longleftrightarrow> (\<exists>d. v = TTable d \<and> list_all (\<lambda>(k, v). tuning_entry k v) d)"
    if "k = ''defaults''"
    using assms(1) that by (cases v) (simp_all add: decode_tuning_table)
  have proxies: "(\<exists>t. as_proxies forms k v = Inr t) \<longleftrightarrow> (\<exists>vs. v = TArray vs \<and> list_all proxy_table vs)"
    if "k = ''proxy''"
    using assms(2) that by (cases v) (simp_all add: decode_all_reads)
  have apart: "''metrics_listen'' \<noteq> ''defaults''" "''shutdown_grace'' \<noteq> ''defaults''" "''proxy'' \<noteq> ''defaults''"
    "''shutdown_grace'' \<noteq> ''metrics_listen''" "''proxy'' \<noteq> ''metrics_listen''" "''proxy'' \<noteq> ''shutdown_grace''"
    by simp_all
  show ?thesis
    unfolding file_field_def file_entry_def
    using tuning proxies apart by (simp add: fits_iff reads del: list.inject split: if_split)
qed

lemma file_fields:
  "file_field forms ''defaults'' = Some (fits (as_tuning forms) ''defaults'')"
  "file_field forms ''metrics_listen'' = Some (fits as_string ''metrics_listen'')"
  "file_field forms ''shutdown_grace'' = Some (fits as_u64 ''shutdown_grace'')"
  "file_field forms ''proxy'' = Some (fits (as_proxies forms) ''proxy'')"
  by (simp_all add: file_field_def)

lemma decode_file_reads:
  assumes "table_form tbl"
  shows "(\<exists>f. decode_file forms tbl = Inr f) \<longleftrightarrow>
     list_all (\<lambda>(k, v). file_entry k v) tbl \<and> ''proxy'' \<in> fst ` set tbl"
proof -
  have "(\<exists>f. decode_file forms tbl = Inr f) \<longleftrightarrow>
      visit (file_field forms) tbl = Inr () \<and> map_of tbl ''proxy'' \<noteq> None \<and> True"
    unfolding decode_file_def
    by (rule visit_decides)
      ((rule bindE_optional bindE_required bindE_defaulted, assumption, rule file_fields)+, simp)
  moreover have "visit (file_field forms) tbl = Inr () \<longleftrightarrow> list_all (\<lambda>(k, v). file_entry k v) tbl"
    using assms by (intro visit_entries file_entry_iff) (fastforce simp: table_form_def list_all_iff)+
  ultimately show ?thesis
    by (simp add: map_of_eq_None_iff)
qed

section \<open>A writer\<close>

text \<open>
  The document that spells out a configuration, one entry per field that is set. The program has no
  writer; this one is the specification of the reader.
\<close>

definition set_field :: "('a \<Rightarrow> toml) \<Rightarrow> string \<Rightarrow> 'a option \<Rightarrow> table" where
  "set_field as k x = (case x of None \<Rightarrow> [] | Some v \<Rightarrow> [(k, as v)])"

definition TWord :: "'a::len word \<Rightarrow> toml" where
  "TWord w = TInteger (uint w)"

definition protocol_name :: "Protocol \<Rightarrow> toml" where
  "protocol_name p = TString (case p of Tcp \<Rightarrow> ''tcp'' | Udp \<Rightarrow> ''udp'')"

definition write_tuning :: "TomlTuning \<Rightarrow> table" where
  "write_tuning t =
     set_field TWord ''connect_timeout'' (d_connect_timeout t) @
     set_field TWord ''keepalive_idle'' (d_keepalive_idle t) @
     set_field TWord ''keepalive_interval'' (d_keepalive_interval t) @
     set_field TWord ''keepalive_retries'' (d_keepalive_retries t) @
     set_field TWord ''user_timeout_ms'' (d_user_timeout_ms t) @
     set_field TWord ''idle_timeout'' (d_idle_timeout t) @
     set_field TWord ''half_close_timeout'' (d_half_close_timeout t) @
     set_field TWord ''max_connections'' (d_max_connections t) @
     set_field TWord ''max_per_ip'' (d_max_per_ip t) @
     set_field TBoolean ''proxy_protocol'' (d_proxy_protocol t)"

definition write_proxy :: "TomlProxy \<Rightarrow> table" where
  "write_proxy p =
     set_field TString ''name'' (p_name p) @
     [(''listen'', TString (p_listen p)), (''target'', TString (p_target p)),
      (''protocol'', protocol_name (p_protocol p))] @
     set_field TWord ''connect_timeout'' (p_connect_timeout p) @
     set_field TWord ''keepalive_idle'' (p_keepalive_idle p) @
     set_field TWord ''keepalive_interval'' (p_keepalive_interval p) @
     set_field TWord ''keepalive_retries'' (p_keepalive_retries p) @
     set_field TWord ''user_timeout_ms'' (p_user_timeout_ms p) @
     set_field TWord ''idle_timeout'' (p_idle_timeout p) @
     set_field TWord ''half_close_timeout'' (p_half_close_timeout p) @
     set_field TWord ''max_connections'' (p_max_connections p) @
     set_field TWord ''max_per_ip'' (p_max_per_ip p) @
     set_field TBoolean ''proxy_protocol'' (p_proxy_protocol p)"

definition write_file :: "TomlFile \<Rightarrow> table" where
  "write_file f =
     [(''defaults'', TTable (write_tuning (f_defaults f)))] @
     set_field TString ''metrics_listen'' (f_metrics_listen f) @
     set_field TWord ''shutdown_grace'' (f_shutdown_grace f) @
     [(''proxy'', TArray (map (TTable \<circ> write_proxy) (f_proxies f)))]"

lemma visit_append: "visit field (xs @ ys) = bindE (visit field xs) (\<lambda>_. visit field ys)"
  by (induction field xs rule: visit.induct) (auto simp: bindE_def split: option.split sum.split)

lemma visit_set_field:
  "field k = Some check \<Longrightarrow> (\<And>x. check (wr x) = Inr ()) \<Longrightarrow> visit field (set_field wr k x) = Inr ()"
  by (cases x) (simp_all add: set_field_def)

lemma map_of_set_field:
  "map_of (set_field wr k x @ rest) k' =
     (if k = k' \<and> x \<noteq> None then Some (wr (the x)) else map_of rest k')"
  "map_of (set_field wr k x) k' = (if k = k' \<and> x \<noteq> None then Some (wr (the x)) else None)"
  by (auto simp: set_field_def split: option.split)

lemma map_of_app_one: "map_of ([(k, v)] @ rest) k' = (if k = k' then Some v else map_of rest k')"
  by simp

lemma read_words [simp]:
  "as_u64 k (TWord w) = Inr w" "as_u32 k (TWord w') = Inr w'"
  using uint_lt2p [of w] uint_lt2p [of w'] by (simp_all add: TWord_def)

lemma read_protocol [simp]: "as_protocol forms k (protocol_name p) = Inr p"
  by (cases p) (simp_all add: protocol_name_def)

lemma optional_written:
  assumes "map_of tbl k = (if x = None then None else Some (wr (the x)))" and "\<And>x. as k (wr x) = Inr x"
  shows "optional as tbl k = Inr x"
  using assms by (cases x) (simp_all add: optional_def)

lemma write_tuning_fits: "visit tuning_field (write_tuning t) = Inr ()"
  unfolding write_tuning_def visit_append by (simp add: visit_set_field tuning_fields fits_def)

lemma tuning_written:
  "optional as_u64 (write_tuning t) ''connect_timeout'' = Inr (d_connect_timeout t)"
  "optional as_u64 (write_tuning t) ''keepalive_idle'' = Inr (d_keepalive_idle t)"
  "optional as_u64 (write_tuning t) ''keepalive_interval'' = Inr (d_keepalive_interval t)"
  "optional as_u32 (write_tuning t) ''keepalive_retries'' = Inr (d_keepalive_retries t)"
  "optional as_u32 (write_tuning t) ''user_timeout_ms'' = Inr (d_user_timeout_ms t)"
  "optional as_u64 (write_tuning t) ''idle_timeout'' = Inr (d_idle_timeout t)"
  "optional as_u64 (write_tuning t) ''half_close_timeout'' = Inr (d_half_close_timeout t)"
  "optional as_u32 (write_tuning t) ''max_connections'' = Inr (d_max_connections t)"
  "optional as_u32 (write_tuning t) ''max_per_ip'' = Inr (d_max_per_ip t)"
  "optional as_bool (write_tuning t) ''proxy_protocol'' = Inr (d_proxy_protocol t)"
  by (rule optional_written [where wr = TWord] optional_written [where wr = TBoolean],
      simp add: write_tuning_def map_of_set_field del: map_of_append, simp)+

lemma tuning_roundtrip: "decode_tuning (write_tuning t) = Inr t"
  by (simp add: decode_tuning_def write_tuning_fits tuning_written)

lemma write_proxy_fits: "visit (proxy_field forms) (write_proxy p) = Inr ()"
  unfolding write_proxy_def visit_append by (simp add: visit_set_field proxy_fields fits_def)

lemma proxy_written:
  "optional as_string (write_proxy p) ''name'' = Inr (p_name p)"
  "required as_string (write_proxy p) ''listen'' = Inr (p_listen p)"
  "required as_string (write_proxy p) ''target'' = Inr (p_target p)"
  "defaulted Tcp (as_protocol forms) (write_proxy p) ''protocol'' = Inr (p_protocol p)"
  "optional as_u64 (write_proxy p) ''connect_timeout'' = Inr (p_connect_timeout p)"
  "optional as_u64 (write_proxy p) ''keepalive_idle'' = Inr (p_keepalive_idle p)"
  "optional as_u64 (write_proxy p) ''keepalive_interval'' = Inr (p_keepalive_interval p)"
  "optional as_u32 (write_proxy p) ''keepalive_retries'' = Inr (p_keepalive_retries p)"
  "optional as_u32 (write_proxy p) ''user_timeout_ms'' = Inr (p_user_timeout_ms p)"
  "optional as_u64 (write_proxy p) ''idle_timeout'' = Inr (p_idle_timeout p)"
  "optional as_u64 (write_proxy p) ''half_close_timeout'' = Inr (p_half_close_timeout p)"
  "optional as_u32 (write_proxy p) ''max_connections'' = Inr (p_max_connections p)"
  "optional as_u32 (write_proxy p) ''max_per_ip'' = Inr (p_max_per_ip p)"
  "optional as_bool (write_proxy p) ''proxy_protocol'' = Inr (p_proxy_protocol p)"
proof -
  show "required as_string (write_proxy p) ''listen'' = Inr (p_listen p)"
    "required as_string (write_proxy p) ''target'' = Inr (p_target p)"
    "defaulted Tcp (as_protocol forms) (write_proxy p) ''protocol'' = Inr (p_protocol p)"
    by (simp_all add: required_def defaulted_def write_proxy_def map_of_set_field del: map_of_append)
qed (rule optional_written [where wr = TWord] optional_written [where wr = TBoolean]
      optional_written [where wr = TString], simp add: write_proxy_def map_of_set_field del: map_of_append, simp)+

lemma proxy_roundtrip: "decode_proxy forms (write_proxy p) = Inr p"
  by (simp add: decode_proxy_def write_proxy_fits proxy_written)

lemma proxies_roundtrip: "decode_all forms k (map (TTable \<circ> write_proxy) ps) = Inr ps"
  by (induction ps) (simp_all add: proxy_roundtrip)

lemma write_file_fits: "visit (file_field forms) (write_file f) = Inr ()"
  unfolding write_file_def visit_append
  by (simp add: visit_set_field file_fields fits_def tuning_roundtrip proxies_roundtrip)

lemma file_written:
  "defaulted no_tuning (as_tuning forms) (write_file f) ''defaults'' = Inr (f_defaults f)"
  "optional as_string (write_file f) ''metrics_listen'' = Inr (f_metrics_listen f)"
  "optional as_u64 (write_file f) ''shutdown_grace'' = Inr (f_shutdown_grace f)"
  "required (as_proxies forms) (write_file f) ''proxy'' = Inr (f_proxies f)"
proof -
  show "defaulted no_tuning (as_tuning forms) (write_file f) ''defaults'' = Inr (f_defaults f)"
    "required (as_proxies forms) (write_file f) ''proxy'' = Inr (f_proxies f)"
    by (simp_all add: required_def defaulted_def write_file_def map_of_set_field tuning_roundtrip
        proxies_roundtrip del: map_of_append)
qed (rule optional_written [where wr = TWord] optional_written [where wr = TString],
    simp add: write_file_def map_of_set_field del: map_of_append, simp)+

section \<open>Properties\<close>

text \<open>
  C37: A document in table form is read as a configuration exactly when it has the declared shape: each key
  of the file, of \<open>[defaults]\<close> and of every \<open>[[proxy]]\<close> entry is a declared one with a value of its type and
  range, there is a \<open>proxy\<close> array, and each entry names a \<open>listen\<close> and a \<open>target\<close>. Anything else, a
  misspelt or misplaced key included, is refused. (What serde makes of an array in the place of a
  struct, or of a table in the place of the protocol, is left open.)
\<close>

theorem schema_exact:
  assumes "table_form tbl"
  shows "(\<exists>f. decode_file forms tbl = Inr f) \<longleftrightarrow>
     list_all (\<lambda>(k, v). file_entry k v) tbl \<and> ''proxy'' \<in> fst ` set tbl"
  using assms by (rule decode_file_reads)

text \<open>A small file is read; the same one with a knob spelt as on the command line is not.\<close>

theorem schema_exact_witness:
  "\<forall>forms. (\<exists>f. decode_file forms
      [(''defaults'', TTable [(''idle_timeout'', TInteger 5)]),
       (''proxy'', TArray [TTable [(''listen'', TString ''1''), (''target'', TString ''a:2'')]])] = Inr f) \<and>
   \<not> (\<exists>f. decode_file forms
      [(''defaults'', TTable [(''idle-timeout'', TInteger 5)]),
       (''proxy'', TArray [TTable [(''listen'', TString ''1''), (''target'', TString ''a:2'')]])] = Inr f)"
  by (intro allI, subst (1 2) schema_exact)
    (auto simp: table_form_def proxy_form_def file_entry_def tuning_entry_def proxy_table_def proxy_entry_def is_u64_def)

text \<open>
  C38: Reading back: the document that spells out any configuration, every knob and address of every
  proxy, is read as exactly that configuration.
\<close>

theorem config_roundtrip: "decode_file forms (write_file f) = Inr f"
  by (simp add: decode_file_def write_file_fits file_written)

end
