(* ===== verification/Config_Tests.thy ===== *)
theory Config_Tests
  imports Toml_Schema Cli_Args
begin

text \<open>
  The unit tests of \<open>src/config.rs\<close> and \<open>src/cli.rs\<close> as executable scenarios of the model, each a boolean
  with the inputs and the assertions of the test. A configuration text is given as the document it
  denotes, since parsing it is the toml crate; \<open>show_error\<close> is that crate's rendering of an error.
\<close>

section \<open>Helpers of the tests\<close>

definition ok_and :: "'e + 'a \<Rightarrow> ('a \<Rightarrow> bool) \<Rightarrow> bool" where
  "ok_and r P = (case r of Inl _ \<Rightarrow> False | Inr x \<Rightarrow> P x)"

definition err_and :: "'e + 'a \<Rightarrow> ('e \<Rightarrow> bool) \<Rightarrow> bool" where
  "err_and r P = (case r of Inl e \<Rightarrow> P e | Inr _ \<Rightarrow> False)"

definition is_err :: "'e + 'a \<Rightarrow> bool" where
  "is_err r = err_and r (\<lambda>_. True)"

definition args_with :: "string option \<Rightarrow> string option \<Rightarrow> Protocol \<Rightarrow> Args" where
  "args_with listen target protocol =
     \<lparr>arg_config = None, arg_listen = listen, arg_target = target, arg_protocol = protocol,
      arg_connect_timeout = CONNECT_TIMEOUT_SECS,
      arg_keepalive_idle = KEEPALIVE_IDLE_SECS,
      arg_keepalive_interval = KEEPALIVE_INTERVAL_SECS,
      arg_keepalive_retries = KEEPALIVE_RETRIES,
      arg_user_timeout_ms = USER_TIMEOUT_MS,
      arg_idle_timeout = IDLE_TIMEOUT_SECS,
      arg_half_close_timeout = HALF_CLOSE_TIMEOUT_SECS,
      arg_max_connections = MAX_CONNECTIONS,
      arg_max_per_ip = MAX_PER_IP,
      arg_proxy_protocol = False,
      arg_shutdown_grace = None,
      arg_metrics_listen = None,
      arg_log_level = ''info''\<rparr>"

text \<open>The documents of the tests are in table form, so it does not matter what other forms are read as.\<close>

definition other_forms :: serde_forms where
  "other_forms =
     \<lparr>tuning_seq = \<lambda>_. Inl (WrongType ''defaults''), proxy_seq = \<lambda>_. Inl (WrongType ''proxy''),
      protocol_table = \<lambda>_. Inl (WrongType ''protocol'')\<rparr>"

text \<open>The temporary file of a test holds the text; reading it succeeds.\<close>

definition load_doc :: "(schema_error \<Rightarrow> string) \<Rightarrow> table \<Rightarrow> config_error + LoadedConfig" where
  "load_doc show_error doc = load (\<lambda>_. Inr []) (toml_from_str (\<lambda>_. Inr doc) other_forms show_error) ''config.toml''"

definition load_str :: "(schema_error \<Rightarrow> string) \<Rightarrow> table \<Rightarrow> config_error + ProxyConfig list" where
  "load_str show_error doc = bindE (load_doc show_error doc) (\<lambda>c. Inr (lc_proxies c))"

definition entry :: "string \<Rightarrow> string \<Rightarrow> table \<Rightarrow> toml" where
  "entry listen target knobs = TTable ([(''listen'', TString listen), (''target'', TString target)] @ knobs)"

section \<open>Command line to configuration\<close>

definition from_cli_full :: bool where
  "from_cli_full = ok_and (from_cli (args_with (Some ''587'') (Some ''mail.example.com:587'') Tcp))
     (\<lambda>cfg. cfg_listen cfg = ''0.0.0.0:587'' \<and> cfg_target cfg = ''mail.example.com:587'' \<and>
            cfg_protocol cfg = Tcp \<and> connect_timeout_secs cfg = CONNECT_TIMEOUT_SECS \<and>
            keepalive_idle_secs cfg = KEEPALIVE_IDLE_SECS \<and> user_timeout_ms cfg = USER_TIMEOUT_MS \<and>
            str_contains (cfg_name cfg) ''0.0.0.0:587'' \<and>
            str_contains (cfg_name cfg) ''mail.example.com:587'')"

definition from_cli_udp :: bool where
  "from_cli_udp = ok_and (from_cli (args_with (Some ''5353'') (Some ''1.1.1.1:53'') Udp))
     (\<lambda>cfg. cfg_protocol cfg = Udp)"

definition from_cli_missing_listen_errors :: bool where
  "from_cli_missing_listen_errors = is_err (from_cli (args_with None (Some ''a:1'') Tcp))"

definition from_cli_missing_target_errors :: bool where
  "from_cli_missing_target_errors = is_err (from_cli (args_with (Some ''1'') None Tcp))"

definition from_cli_zero_connect_timeout_errors :: bool where
  "from_cli_zero_connect_timeout_errors =
     is_err (from_cli ((args_with (Some ''1'') (Some ''a:1'') Tcp)\<lparr>arg_connect_timeout := 0\<rparr>))"

definition check_host_port_shapes :: bool where
  "check_host_port_shapes \<longleftrightarrow>
     \<not> is_err (check_host_port ''example.com:25'') \<and>
     \<not> is_err (check_host_port ''127.0.0.1:8080'') \<and>
     \<not> is_err (check_host_port ''[::1]:80'') \<and>
     is_err (check_host_port ''no-port'') \<and>
     is_err (check_host_port '':80'') \<and>
     is_err (check_host_port ''host:'') \<and>
     is_err (check_host_port ''host:99999'')"

section \<open>Loading\<close>

definition load_metrics_listen_present :: "(schema_error \<Rightarrow> string) \<Rightarrow> bool" where
  "load_metrics_listen_present show_error = ok_and (load_doc show_error
     [(''metrics_listen'', TString ''127.0.0.1:9090''),
      (''proxy'', TArray [entry ''127.0.0.1:1'' ''a:1'' []])])
     (\<lambda>loaded. lc_metrics_listen loaded = Some ''127.0.0.1:9090'' \<and> length (lc_proxies loaded) = 1)"

definition load_metrics_listen_absent :: "(schema_error \<Rightarrow> string) \<Rightarrow> bool" where
  "load_metrics_listen_absent show_error = ok_and (load_doc show_error
     [(''proxy'', TArray [entry ''127.0.0.1:1'' ''a:1'' []])])
     (\<lambda>loaded. lc_metrics_listen loaded = None)"

definition unknown_top_level_field_rejected :: "(schema_error \<Rightarrow> string) \<Rightarrow> bool" where
  "unknown_top_level_field_rejected show_error = err_and (load_doc show_error
     [(''bogus_field'', TString (CHR ''o'' # ''ops'')),
      (''proxy'', TArray [entry ''127.0.0.1:1'' ''a:1'' []])])
     (\<lambda>e. str_contains (show_config_error e) ''bogus_field'')"

definition metrics_listen_inside_defaults_rejected :: "(schema_error \<Rightarrow> string) \<Rightarrow> bool" where
  "metrics_listen_inside_defaults_rejected show_error = err_and (load_doc show_error
     [(''defaults'', TTable [(''keepalive_idle'', TInteger 60), (''metrics_listen'', TString ''127.0.0.1:9090'')]),
      (''proxy'', TArray [entry ''127.0.0.1:1'' ''a:1'' []])])
     (\<lambda>e. str_contains (show_config_error e) ''metrics_listen'')"

definition unknown_proxy_field_rejected :: "(schema_error \<Rightarrow> string) \<Rightarrow> bool" where
  "unknown_proxy_field_rejected show_error = err_and (load_doc show_error
     [(''proxy'', TArray [entry ''127.0.0.1:1'' ''a:1'' [(''typo_here'', TInteger 42)]])])
     (\<lambda>e. str_contains (show_config_error e) ''typo_here'')"

definition load_minimal_tcp :: "(schema_error \<Rightarrow> string) \<Rightarrow> bool" where
  "load_minimal_tcp show_error = ok_and (load_str show_error
     [(''proxy'', TArray [entry ''127.0.0.1:8080'' ''127.0.0.1:80'' []])])
     (\<lambda>cfgs. length cfgs = 1 \<and> cfg_listen (cfgs ! 0) = ''127.0.0.1:8080'' \<and>
        cfg_target (cfgs ! 0) = ''127.0.0.1:80'' \<and> cfg_protocol (cfgs ! 0) = Tcp \<and>
        connect_timeout_secs (cfgs ! 0) = CONNECT_TIMEOUT_SECS \<and>
        keepalive_idle_secs (cfgs ! 0) = KEEPALIVE_IDLE_SECS \<and>
        user_timeout_ms (cfgs ! 0) = USER_TIMEOUT_MS \<and>
        idle_timeout_secs (cfgs ! 0) = IDLE_TIMEOUT_SECS \<and>
        half_close_timeout_secs (cfgs ! 0) = HALF_CLOSE_TIMEOUT_SECS)"

definition load_multiple_proxies :: "(schema_error \<Rightarrow> string) \<Rightarrow> bool" where
  "load_multiple_proxies show_error = ok_and (load_str show_error
     [(''proxy'', TArray [entry ''127.0.0.1:1'' ''a:1'' [],
        entry ''127.0.0.1:2'' ''b:2'' [(''protocol'', TString ''udp'')]])])
     (\<lambda>cfgs. length cfgs = 2 \<and> cfg_protocol (cfgs ! 0) = Tcp \<and> cfg_protocol (cfgs ! 1) = Udp)"

definition load_with_defaults_section :: "(schema_error \<Rightarrow> string) \<Rightarrow> bool" where
  "load_with_defaults_section show_error = ok_and (load_str show_error
     [(''defaults'', TTable [(''connect_timeout'', TInteger 7), (''keepalive_idle'', TInteger 120),
        (''idle_timeout'', TInteger 0), (''half_close_timeout'', TInteger 0)]), (''proxy'', TArray [
        entry ''127.0.0.1:1'' ''a:1'' []])])
     (\<lambda>cfgs. connect_timeout_secs (cfgs ! 0) = 7 \<and> keepalive_idle_secs (cfgs ! 0) = 120 \<and>
        idle_timeout_secs (cfgs ! 0) = 0 \<and> half_close_timeout_secs (cfgs ! 0) = 0 \<and>
        keepalive_interval_secs (cfgs ! 0) = KEEPALIVE_INTERVAL_SECS)"

definition load_per_proxy_override_beats_defaults :: "(schema_error \<Rightarrow> string) \<Rightarrow> bool" where
  "load_per_proxy_override_beats_defaults show_error = ok_and (load_str show_error
     [(''defaults'', TTable [(''connect_timeout'', TInteger 5)]), (''proxy'', TArray [
        entry ''127.0.0.1:1'' ''a:1'' [(''connect_timeout'', TInteger 99)]])])
     (\<lambda>cfgs. connect_timeout_secs (cfgs ! 0) = 99)"

definition proxy_protocol_defaults_false :: "(schema_error \<Rightarrow> string) \<Rightarrow> bool" where
  "proxy_protocol_defaults_false show_error = ok_and (load_str show_error
     [(''proxy'', TArray [entry ''127.0.0.1:1'' ''a:1'' []])])
     (\<lambda>cfgs. \<not> cfg_proxy_protocol (cfgs ! 0))"

definition proxy_protocol_per_proxy_true :: "(schema_error \<Rightarrow> string) \<Rightarrow> bool" where
  "proxy_protocol_per_proxy_true show_error = ok_and (load_str show_error
     [(''proxy'', TArray [entry ''127.0.0.1:1'' ''a:1'' [(''proxy_protocol'', TBoolean True)]])])
     (\<lambda>cfgs. cfg_proxy_protocol (cfgs ! 0))"

definition proxy_protocol_from_defaults_section :: "(schema_error \<Rightarrow> string) \<Rightarrow> bool" where
  "proxy_protocol_from_defaults_section show_error = ok_and (load_str show_error
     [(''defaults'', TTable [(''proxy_protocol'', TBoolean True)]),
      (''proxy'', TArray [entry ''127.0.0.1:1'' ''a:1'' []])])
     (\<lambda>cfgs. cfg_proxy_protocol (cfgs ! 0))"

definition proxy_protocol_per_proxy_false_beats_defaults_true :: "(schema_error \<Rightarrow> string) \<Rightarrow> bool" where
  "proxy_protocol_per_proxy_false_beats_defaults_true show_error = ok_and (load_str show_error
     [(''defaults'', TTable [(''proxy_protocol'', TBoolean True)]), (''proxy'', TArray [
        entry ''127.0.0.1:1'' ''a:1'' [(''proxy_protocol'', TBoolean False)]])])
     (\<lambda>cfgs. \<not> cfg_proxy_protocol (cfgs ! 0))"

definition load_empty_proxies_errors :: "(schema_error \<Rightarrow> string) \<Rightarrow> bool" where
  "load_empty_proxies_errors show_error \<longleftrightarrow>
     is_err (load_str show_error [(''defaults'', TTable [])]) \<and> is_err (load_str show_error [])"

definition load_missing_required_field_errors :: "(schema_error \<Rightarrow> string) \<Rightarrow> bool" where
  "load_missing_required_field_errors show_error \<longleftrightarrow>
     is_err (load_str show_error [(''proxy'', TArray [TTable [(''listen'', TString ''127.0.0.1:1'')]])]) \<and>
     is_err (load_str show_error [(''proxy'', TArray [TTable [(''target'', TString ''a:1'')]])])"

definition load_unknown_protocol_errors :: "(schema_error \<Rightarrow> string) \<Rightarrow> bool" where
  "load_unknown_protocol_errors show_error = is_err (load_str show_error
     [(''proxy'', TArray [entry ''127.0.0.1:1'' ''a:1'' [(''protocol'', TString ''icmp'')]])])"

definition load_bare_port_expansion :: "(schema_error \<Rightarrow> string) \<Rightarrow> bool" where
  "load_bare_port_expansion show_error = ok_and (load_str show_error
     [(''proxy'', TArray [entry ''8080'' ''a:1'' []])])
     (\<lambda>cfgs. cfg_listen (cfgs ! 0) = ''0.0.0.0:8080'')"

definition load_explicit_name_preserved :: "(schema_error \<Rightarrow> string) \<Rightarrow> bool" where
  "load_explicit_name_preserved show_error = ok_and (load_str show_error
     [(''proxy'', TArray [TTable [(''name'', TString ''my-proxy''), (''listen'', TString ''127.0.0.1:1''),
        (''target'', TString ''a:1'')]])])
     (\<lambda>cfgs. cfg_name (cfgs ! 0) = ''my-proxy'')"

definition load_auto_name_when_unset :: "(schema_error \<Rightarrow> string) \<Rightarrow> bool" where
  "load_auto_name_when_unset show_error = ok_and (load_str show_error
     [(''proxy'', TArray [entry ''127.0.0.1:1'' ''a:1'' []])])
     (\<lambda>cfgs. str_contains (cfg_name (cfgs ! 0)) ''127.0.0.1:1'' \<and> str_contains (cfg_name (cfgs ! 0)) ''a:1'')"

section \<open>Validation\<close>

definition load_shutdown_grace_top_level :: "(schema_error \<Rightarrow> string) \<Rightarrow> bool" where
  "load_shutdown_grace_top_level show_error = ok_and (load_doc show_error
     [(''shutdown_grace'', TInteger 42), (''proxy'', TArray [entry ''127.0.0.1:1'' ''a:1'' []])])
     (\<lambda>loaded. lc_shutdown_grace loaded = Some 42)"

definition load_shutdown_grace_absent_is_none :: "(schema_error \<Rightarrow> string) \<Rightarrow> bool" where
  "load_shutdown_grace_absent_is_none show_error = ok_and (load_doc show_error
     [(''proxy'', TArray [entry ''127.0.0.1:1'' ''a:1'' []])])
     (\<lambda>loaded. lc_shutdown_grace loaded = None)"

definition validate_rejects_zero_connect_timeout :: "(schema_error \<Rightarrow> string) \<Rightarrow> bool" where
  "validate_rejects_zero_connect_timeout show_error = err_and (load_str show_error
     [(''proxy'', TArray [entry ''127.0.0.1:1'' ''a:1'' [(''connect_timeout'', TInteger 0)]])])
     (\<lambda>e. str_contains (show_config_error e) ''connect_timeout'')"

definition validate_rejects_out_of_range_keepalive :: "(schema_error \<Rightarrow> string) \<Rightarrow> bool" where
  "validate_rejects_out_of_range_keepalive show_error \<longleftrightarrow>
     list_all (\<lambda>(key, v). err_and (load_str show_error
         [(''proxy'', TArray [entry ''127.0.0.1:1'' ''a:1'' [(key, TInteger v)]])])
         (\<lambda>e. str_contains (show_config_error e) key))
       [(''keepalive_idle'', 32768), (''keepalive_interval'', 32768), (''keepalive_retries'', 128)]"

definition validate_allows_keepalive_at_kernel_maximum :: "(schema_error \<Rightarrow> string) \<Rightarrow> bool" where
  "validate_allows_keepalive_at_kernel_maximum show_error \<longleftrightarrow> \<not> is_err (load_str show_error
     [(''proxy'', TArray [entry ''127.0.0.1:1'' ''a:1''
        [(''keepalive_idle'', TInteger 32767), (''keepalive_interval'', TInteger 32767),
         (''keepalive_retries'', TInteger 127)]])])"

definition validate_rejects_target_without_port :: "(schema_error \<Rightarrow> string) \<Rightarrow> bool" where
  "validate_rejects_target_without_port show_error = is_err (load_str show_error
     [(''proxy'', TArray [entry ''127.0.0.1:1'' ''example.com'' []])])"

definition validate_rejects_target_port_zero :: "(schema_error \<Rightarrow> string) \<Rightarrow> bool" where
  "validate_rejects_target_port_zero show_error = is_err (load_str show_error
     [(''proxy'', TArray [entry ''127.0.0.1:1'' ''example.com:0'' []])])"

definition validate_rejects_bad_listen :: "(schema_error \<Rightarrow> string) \<Rightarrow> bool" where
  "validate_rejects_bad_listen show_error = is_err (load_str show_error
     [(''proxy'', TArray [entry ''foobar'' ''a:1'' []])])"

definition validate_allows_listen_port_zero :: "(schema_error \<Rightarrow> string) \<Rightarrow> bool" where
  "validate_allows_listen_port_zero show_error \<longleftrightarrow> \<not> is_err (load_str show_error
     [(''proxy'', TArray [entry ''127.0.0.1:0'' ''a:1'' []])])"

definition validate_rejects_duplicate_names :: "(schema_error \<Rightarrow> string) \<Rightarrow> bool" where
  "validate_rejects_duplicate_names show_error = err_and (load_str show_error
     [(''proxy'', TArray [
        TTable [(''name'', TString ''same''), (''listen'', TString ''127.0.0.1:1''), (''target'', TString ''a:1'')],
        TTable [(''name'', TString ''same''), (''listen'', TString ''127.0.0.1:2''), (''target'', TString ''b:2'')]])])
     (\<lambda>e. str_contains (show_config_error e) ''duplicate proxy name'')"

definition validate_rejects_duplicate_listen :: "(schema_error \<Rightarrow> string) \<Rightarrow> bool" where
  "validate_rejects_duplicate_listen show_error = err_and (load_str show_error
     [(''proxy'', TArray [entry ''127.0.0.1:9'' ''a:1'' [], entry ''127.0.0.1:9'' ''b:2'' []])])
     (\<lambda>e. str_contains (show_config_error e) ''duplicate listen address'')"

definition validate_allows_tcp_and_udp_on_same_listen_address :: "(schema_error \<Rightarrow> string) \<Rightarrow> bool" where
  "validate_allows_tcp_and_udp_on_same_listen_address show_error = ok_and (load_str show_error
     [(''proxy'', TArray [
        entry ''127.0.0.1:53'' ''a:53'' [(''protocol'', TString ''tcp'')],
        entry ''127.0.0.1:53'' ''b:53'' [(''protocol'', TString ''udp'')]])])
     (\<lambda>cfgs. length cfgs = 2)"

text \<open>A text that is no TOML, and a file that cannot be read.\<close>

definition load_garbage_toml_errors :: "string \<Rightarrow> (schema_error \<Rightarrow> string) \<Rightarrow> bool" where
  "load_garbage_toml_errors msg show_error =
     is_err (load (\<lambda>_. Inr ''this is not toml'') (toml_from_str (\<lambda>_. Inl msg) other_forms show_error) ''config.toml'')"

definition load_nonexistent_file_errors ::
    "string \<Rightarrow> (string \<Rightarrow> string + table) \<Rightarrow> (schema_error \<Rightarrow> string) \<Rightarrow> bool" where
  "load_nonexistent_file_errors msg parse show_error =
     is_err (load (\<lambda>_. Inl msg) (toml_from_str parse other_forms show_error) ''/nonexistent/oxiduct/test/file.toml'')"

text \<open>\<open>contrib/example.toml\<close>.\<close>

definition example_toml :: table where
  "example_toml =
     [(''metrics_listen'', TString ''127.0.0.1:9090''),
      (''shutdown_grace'', TInteger 10),
      (''defaults'', TTable
        [(''connect_timeout'', TInteger 3), (''keepalive_idle'', TInteger 60),
         (''keepalive_interval'', TInteger 10), (''keepalive_retries'', TInteger 6),
         (''user_timeout_ms'', TInteger 90000), (''idle_timeout'', TInteger 300),
         (''half_close_timeout'', TInteger 30), (''max_connections'', TInteger 32000),
         (''max_per_ip'', TInteger 320), (''proxy_protocol'', TBoolean False)]),
      (''proxy'', TArray
        [TTable [(''name'', TString ''smtp-submission''), (''listen'', TString ''0.0.0.0:587''),
           (''target'', TString ''mail.example.com:587''), (''protocol'', TString ''tcp'')],
         TTable [(''name'', TString ''dns-relay''), (''listen'', TString ''0.0.0.0:5353''),
           (''target'', TString ''1.1.1.1:53''), (''protocol'', TString ''udp'')],
         TTable [(''name'', TString ''git-ssh''), (''listen'', TString ''22''),
           (''target'', TString ''github.com:22''), (''protocol'', TString ''tcp''),
           (''idle_timeout'', TInteger 3600), (''half_close_timeout'', TInteger 60)],
         TTable [(''name'', TString ''smtp-inbound''), (''listen'', TString ''0.0.0.0:25''),
           (''target'', TString ''mailserver.internal:25''), (''protocol'', TString ''tcp''),
           (''proxy_protocol'', TBoolean True)]])]"

definition contrib_example_parses :: "(schema_error \<Rightarrow> string) \<Rightarrow> bool" where
  "contrib_example_parses show_error = ok_and (load_doc show_error example_toml)
     (\<lambda>loaded. length (lc_proxies loaded) = 4 \<and> lc_metrics_listen loaded = Some ''127.0.0.1:9090'' \<and>
        list_ex cfg_proxy_protocol (lc_proxies loaded))"

section \<open>The command line\<close>

text \<open>
  A parser that does what the declarations on \<open>Args\<close> say: clap, as far as the tests observe it. The two
  parsers of the tracing crates stay parameters.
\<close>

datatype parse_error = NotAllowed | BadLogLevel log_level_error

definition try_parse ::
    "(string \<Rightarrow> bool) \<Rightarrow> (string \<Rightarrow> string option) \<Rightarrow> string option \<Rightarrow> given_args \<Rightarrow> parse_error + Args" where
  "try_parse level_ok filter_err env g =
     (if allowed g then
        bindE (map_err BadLogLevel (parse_log_level level_ok filter_err (arg_log_level (fill_args env g))))
          (\<lambda>_. Inr (fill_args env g))
      else Inl NotAllowed)"

definition nothing_given :: given_args where
  "nothing_given =
     \<lparr>g_config = None, g_listen = None, g_target = None, g_protocol = None, g_connect_timeout = None,
      g_keepalive_idle = None, g_keepalive_interval = None, g_keepalive_retries = None,
      g_user_timeout_ms = None, g_idle_timeout = None, g_half_close_timeout = None,
      g_max_connections = None, g_max_per_ip = None, g_proxy_protocol = False, g_shutdown_grace = None,
      g_metrics_listen = None, g_log_level = None\<rparr>"

definition log_level_accepts_levels_and_scoped_directives ::
    "(string \<Rightarrow> bool) \<Rightarrow> (string \<Rightarrow> string option) \<Rightarrow> bool" where
  "log_level_accepts_levels_and_scoped_directives level_ok filter_err =
     list_all (\<lambda>ok. parse_log_level level_ok filter_err ok = Inr ok)
       [''info'', ''DEBUG'', ''off'', ''warn,oxiduct=trace'', ''oxiduct::proxy=debug'']"

definition log_level_rejects_unknown_bare_words ::
    "(string \<Rightarrow> bool) \<Rightarrow> (string \<Rightarrow> string option) \<Rightarrow> bool" where
  "log_level_rejects_unknown_bare_words level_ok filter_err =
     list_all (\<lambda>bad. is_err (parse_log_level level_ok filter_err bad)) [''verbose'', ''infoo'', ''info,bogus'']"

definition config_rejects_per_proxy_tuning_flags ::
    "(string \<Rightarrow> bool) \<Rightarrow> (string \<Rightarrow> string option) \<Rightarrow> string option \<Rightarrow> bool" where
  "config_rejects_per_proxy_tuning_flags level_ok filter_err env =
     (let argv = nothing_given\<lparr>g_config := Some ''c.toml''\<rparr> in
      list_all (\<lambda>g. is_err (try_parse level_ok filter_err env g))
        [argv\<lparr>g_connect_timeout := Some 1\<rparr>, argv\<lparr>g_keepalive_idle := Some 1\<rparr>,
         argv\<lparr>g_keepalive_interval := Some 1\<rparr>, argv\<lparr>g_keepalive_retries := Some 1\<rparr>,
         argv\<lparr>g_user_timeout_ms := Some 1\<rparr>, argv\<lparr>g_idle_timeout := Some 1\<rparr>,
         argv\<lparr>g_half_close_timeout := Some 1\<rparr>, argv\<lparr>g_max_connections := Some 1\<rparr>,
         argv\<lparr>g_max_per_ip := Some 1\<rparr>, argv\<lparr>g_proxy_protocol := True\<rparr>])"

definition config_allows_global_flags ::
    "(string \<Rightarrow> bool) \<Rightarrow> (string \<Rightarrow> string option) \<Rightarrow> string option \<Rightarrow> bool" where
  "config_allows_global_flags level_ok filter_err env =
     ok_and (try_parse level_ok filter_err env
       (nothing_given\<lparr>g_config := Some ''c.toml'', g_shutdown_grace := Some 5,
          g_metrics_listen := Some ''127.0.0.1:9090'', g_log_level := Some ''debug''\<rparr>))
       (\<lambda>args. arg_shutdown_grace args = Some 5)"

definition expand_bare_ports :: bool where
  "expand_bare_ports \<longleftrightarrow>
     expand_listen ''587'' = ''0.0.0.0:587'' \<and> expand_listen ''1'' = ''0.0.0.0:1'' \<and>
     expand_listen ''65535'' = ''0.0.0.0:65535''"

definition expand_passes_through_full_addr :: bool where
  "expand_passes_through_full_addr \<longleftrightarrow>
     expand_listen ''127.0.0.1:80'' = ''127.0.0.1:80'' \<and> expand_listen ''0.0.0.0:443'' = ''0.0.0.0:443'' \<and>
     expand_listen ''[::1]:80'' = ''[::1]:80''"

definition expand_passes_through_non_port_input :: bool where
  "expand_passes_through_non_port_input \<longleftrightarrow>
     expand_listen ''65536'' = ''65536'' \<and> expand_listen ''-1'' = ''-1'' \<and> expand_listen [] = [] \<and>
     expand_listen ''foobar'' = ''foobar''"

definition expand_zero_port :: bool where
  "expand_zero_port \<longleftrightarrow> expand_listen ''0'' = ''0.0.0.0:0''"

lemmas test_outcomes = ok_and_def err_and_def is_err_def

named_theorems evaluates \<open>evaluating strings, addresses and numbers\<close>

declare parse_u16_def [evaluates] strip_plus_def [evaluates] digit_val_def [evaluates]
  checked_mul_def [evaluates] checked_add_def [evaluates] rsplit_once_def [evaluates]
  check_host_port_def [evaluates] expand_listen_def [evaluates] Let_def [evaluates]

declare validate_def [evaluates] default_consts [evaluates] MAX_KEEPALIVE_SECS_def [evaluates]
  MAX_KEEPALIVE_RETRIES_def [evaluates] args_with_def [evaluates] from_cli_def [evaluates]

lemma from_cli_tests:
  "from_cli_full" "from_cli_udp" "from_cli_missing_listen_errors" "from_cli_missing_target_errors"
  "from_cli_zero_connect_timeout_errors" "check_host_port_shapes"
  by (simp_all add: from_cli_full_def from_cli_udp_def from_cli_missing_listen_errors_def
      from_cli_missing_target_errors_def from_cli_zero_connect_timeout_errors_def
      check_host_port_shapes_def test_outcomes evaluates)

lemma expand_tests:
  "expand_bare_ports" "expand_passes_through_full_addr" "expand_passes_through_non_port_input"
  "expand_zero_port"
  by (simp_all add: expand_bare_ports_def expand_passes_through_full_addr_def
      expand_passes_through_non_port_input_def expand_zero_port_def evaluates)

declare load_doc_def [evaluates] load_str_def [evaluates] load_def [evaluates] toml_from_str_def [evaluates]
  decode_file_def [evaluates] decode_tuning_def [evaluates] decode_proxy_def [evaluates]
  file_field_def [evaluates] tuning_field_def [evaluates] proxy_field_def [evaluates]
  u64_knobs_def [evaluates] u32_knobs_def [evaluates] fits_def [evaluates] optional_def [evaluates]
  defaulted_def [evaluates] required_def [evaluates] no_tuning_def [evaluates] entry_def [evaluates]
  resolve_proxies_def [evaluates] from_toml_def [evaluates] knob_def [evaluates]

lemma show_nat_digit [evaluates]: "n < 10 \<Longrightarrow> show_nat n = [char_of (48 + n)]"
  by (subst show_nat.simps) simp

declare show_config_error_def [evaluates] show_addr_error_def [evaluates] quoted_def [evaluates]

lemma loading_tests:
  "load_metrics_listen_present show_error" "load_metrics_listen_absent show_error"
  "load_minimal_tcp show_error" "load_multiple_proxies show_error"
  "load_with_defaults_section show_error" "load_per_proxy_override_beats_defaults show_error"
  by (simp_all add:
      load_metrics_listen_present_def load_metrics_listen_absent_def load_minimal_tcp_def
      load_multiple_proxies_def load_with_defaults_section_def
      load_per_proxy_override_beats_defaults_def test_outcomes evaluates)

lemma proxy_protocol_tests:
  "proxy_protocol_defaults_false show_error" "proxy_protocol_per_proxy_true show_error"
  "proxy_protocol_from_defaults_section show_error"
  "proxy_protocol_per_proxy_false_beats_defaults_true show_error"
  by (simp_all add:
      proxy_protocol_defaults_false_def proxy_protocol_per_proxy_true_def
      proxy_protocol_from_defaults_section_def proxy_protocol_per_proxy_false_beats_defaults_true_def test_outcomes evaluates)

lemma shape_tests:
  "load_empty_proxies_errors show_error" "load_missing_required_field_errors show_error"
  "load_unknown_protocol_errors show_error" "load_bare_port_expansion show_error"
  "load_explicit_name_preserved show_error" "load_auto_name_when_unset show_error"
  "load_shutdown_grace_top_level show_error" "load_shutdown_grace_absent_is_none show_error"
  by (simp_all add:
      load_empty_proxies_errors_def load_missing_required_field_errors_def
      load_unknown_protocol_errors_def load_bare_port_expansion_def load_explicit_name_preserved_def
      load_auto_name_when_unset_def load_shutdown_grace_top_level_def
      load_shutdown_grace_absent_is_none_def test_outcomes evaluates)

lemma validation_tests:
  "validate_rejects_zero_connect_timeout show_error"
  "validate_rejects_out_of_range_keepalive show_error"
  "validate_allows_keepalive_at_kernel_maximum show_error"
  "validate_rejects_target_without_port show_error" "validate_rejects_target_port_zero show_error"
  "validate_rejects_bad_listen show_error" "validate_allows_listen_port_zero show_error"
  "validate_rejects_duplicate_names show_error" "validate_rejects_duplicate_listen show_error"
  "validate_allows_tcp_and_udp_on_same_listen_address show_error"
  by (simp_all add:
      validate_rejects_zero_connect_timeout_def validate_rejects_out_of_range_keepalive_def
      validate_allows_keepalive_at_kernel_maximum_def validate_rejects_target_without_port_def
      validate_rejects_target_port_zero_def validate_rejects_bad_listen_def
      validate_allows_listen_port_zero_def validate_rejects_duplicate_names_def
      validate_rejects_duplicate_listen_def validate_allows_tcp_and_udp_on_same_listen_address_def test_outcomes evaluates)

text \<open>The TOML crate names the key it does not know, and the context keeps its message.\<close>

definition names_field :: "(schema_error \<Rightarrow> string) \<Rightarrow> bool" where
  "names_field show_error \<longleftrightarrow> (\<forall>k. str_contains (show_error (UnknownField k)) k)"

lemma unknown_key_reported:
  assumes "names_field show_error" and "decode_file other_forms doc = Inl (UnknownField k)"
  shows "err_and (load_doc show_error doc) (\<lambda>e. str_contains (show_config_error e) k)"
proof -
  have "str_contains (''parsing config.toml: '' @ show_error (UnknownField k)) k"
    using assms(1) by (intro str_contains_later) (simp add: names_field_def)
  then show ?thesis
    by (simp add: load_doc_def load_def toml_from_str_def assms(2) err_and_def show_config_error_def)
qed

lemma unknown_field_tests:
  assumes "names_field show_error"
  shows "unknown_top_level_field_rejected show_error" "metrics_listen_inside_defaults_rejected show_error"
    "unknown_proxy_field_rejected show_error"
proof -
  show "unknown_top_level_field_rejected show_error"
    unfolding unknown_top_level_field_rejected_def
    by (rule unknown_key_reported [OF assms]) (simp add: evaluates)
  show "metrics_listen_inside_defaults_rejected show_error"
    unfolding metrics_listen_inside_defaults_rejected_def
    by (rule unknown_key_reported [OF assms]) (simp add: evaluates)
  show "unknown_proxy_field_rejected show_error"
    unfolding unknown_proxy_field_rejected_def
    by (rule unknown_key_reported [OF assms]) (simp add: evaluates)
qed

lemma file_tests:
  "load_garbage_toml_errors msg show_error" "load_nonexistent_file_errors msg parse show_error"
  by (simp_all add: load_garbage_toml_errors_def load_nonexistent_file_errors_def load_def toml_from_str_def
      test_outcomes)

lemma example_test: "contrib_example_parses show_error"
  by (simp add: contrib_example_parses_def example_toml_def test_outcomes evaluates)

text \<open>
  What the tests rely on of the level parser: the names the tests call levels are levels, the others
  are not. The filter parser accepts the well-formed values.
\<close>

definition knows_levels :: "(string \<Rightarrow> bool) \<Rightarrow> bool" where
  "knows_levels level_ok \<longleftrightarrow>
     list_all level_ok [''info'', ''DEBUG'', ''debug'', ''off'', ''warn''] \<and>
     list_all (\<lambda>d. \<not> level_ok d) [''verbose'', ''infoo'', ''bogus'']"

definition accepts_filters :: "(string \<Rightarrow> string option) \<Rightarrow> bool" where
  "accepts_filters filter_err \<longleftrightarrow>
     list_all (\<lambda>s. filter_err s = None)
       [''info'', ''DEBUG'', ''debug'', ''off'', ''warn,oxiduct=trace'', ''oxiduct::proxy=debug'']"

lemma cli_tests:
  assumes "knows_levels level_ok" and "accepts_filters filter_err"
  shows "log_level_accepts_levels_and_scoped_directives level_ok filter_err"
    "log_level_rejects_unknown_bare_words level_ok filter_err"
    "config_rejects_per_proxy_tuning_flags level_ok filter_err env"
    "config_allows_global_flags level_ok filter_err env"
proof -
  note facts = assms [unfolded knows_levels_def accepts_filters_def, simplified]
  show "log_level_accepts_levels_and_scoped_directives level_ok filter_err"
    "log_level_rejects_unknown_bare_words level_ok filter_err"
    by (simp_all add: log_level_accepts_levels_and_scoped_directives_def
        log_level_rejects_unknown_bare_words_def parse_log_level_def test_outcomes facts)
  show "config_rejects_per_proxy_tuning_flags level_ok filter_err env"
    by (simp add: config_rejects_per_proxy_tuning_flags_def Let_def try_parse_def nothing_given_def
        allowed_iff config_only_def test_outcomes)
  show "config_allows_global_flags level_ok filter_err env"
    by (simp add: config_allows_global_flags_def try_parse_def nothing_given_def allowed_iff
        config_only_def fill_args_def or_default_def parse_log_level_def test_outcomes facts)
qed

section \<open>All of them\<close>

definition config_tests ::
    "(schema_error \<Rightarrow> string) \<Rightarrow> (string \<Rightarrow> string + table) \<Rightarrow> string \<Rightarrow> bool list" where
  "config_tests show_error parse msg =
     [
      from_cli_full, from_cli_udp, from_cli_missing_listen_errors, from_cli_missing_target_errors,
      from_cli_zero_connect_timeout_errors, check_host_port_shapes,
      load_metrics_listen_present show_error, load_metrics_listen_absent show_error,
      unknown_top_level_field_rejected show_error,
      metrics_listen_inside_defaults_rejected show_error, unknown_proxy_field_rejected show_error,
      load_minimal_tcp show_error, load_multiple_proxies show_error,
      load_with_defaults_section show_error, load_per_proxy_override_beats_defaults show_error,
      proxy_protocol_defaults_false show_error, proxy_protocol_per_proxy_true show_error,
      proxy_protocol_from_defaults_section show_error,
      proxy_protocol_per_proxy_false_beats_defaults_true show_error,
      load_empty_proxies_errors show_error, load_missing_required_field_errors show_error,
      load_unknown_protocol_errors show_error, load_bare_port_expansion show_error,
      load_explicit_name_preserved show_error, load_auto_name_when_unset show_error,
      load_shutdown_grace_top_level show_error, load_shutdown_grace_absent_is_none show_error,
      validate_rejects_zero_connect_timeout show_error,
      validate_rejects_out_of_range_keepalive show_error,
      validate_allows_keepalive_at_kernel_maximum show_error,
      validate_rejects_target_without_port show_error,
      validate_rejects_target_port_zero show_error, validate_rejects_bad_listen show_error,
      validate_allows_listen_port_zero show_error, validate_rejects_duplicate_names show_error,
      validate_rejects_duplicate_listen show_error,
      validate_allows_tcp_and_udp_on_same_listen_address show_error,
      load_garbage_toml_errors msg show_error, load_nonexistent_file_errors msg parse show_error,
      contrib_example_parses show_error
     ]"

definition command_line_tests ::
    "(string \<Rightarrow> bool) \<Rightarrow> (string \<Rightarrow> string option) \<Rightarrow> string option \<Rightarrow> bool list" where
  "command_line_tests level_ok filter_err env =
     [
      log_level_accepts_levels_and_scoped_directives level_ok filter_err,
      log_level_rejects_unknown_bare_words level_ok filter_err,
      config_rejects_per_proxy_tuning_flags level_ok filter_err env,
      config_allows_global_flags level_ok filter_err env, expand_bare_ports,
      expand_passes_through_full_addr, expand_passes_through_non_port_input, expand_zero_port
     ]"

lemma configuration_tests_hold:
  assumes "names_field show_error" and "knows_levels level_ok" and "accepts_filters filter_err"
  shows "list_all (\<lambda>passed. passed)
    (config_tests show_error parse msg @ command_line_tests level_ok filter_err env)"
  unfolding config_tests_def command_line_tests_def
  by (simp add: from_cli_tests loading_tests proxy_protocol_tests shape_tests validation_tests
      unknown_field_tests [OF assms(1)] file_tests example_test expand_tests cli_tests [OF assms(2, 3)])

text \<open>Parsers and a renderer as the tests expect them.\<close>

definition demo_message :: "schema_error \<Rightarrow> string" where
  "demo_message e = (case e of UnknownField k \<Rightarrow> ''unknown field '' @ k | _ \<Rightarrow> ''invalid'')"

definition demo_level :: "string \<Rightarrow> bool" where
  "demo_level d \<longleftrightarrow> d \<in> set [''info'', ''DEBUG'', ''debug'', ''off'', ''warn'']"

lemma demo_parsers: "names_field demo_message" "knows_levels demo_level" "accepts_filters (\<lambda>_. None)"
proof -
  have self: "str_contains k k" for k :: string
    using str_contains_app [of "[]" k "[]"] by simp
  show "names_field demo_message"
    unfolding names_field_def demo_message_def schema_error.case
    by (intro allI str_contains_later self)
  show "knows_levels demo_level"
    by (simp add: knows_levels_def demo_level_def)
  show "accepts_filters (\<lambda>_. None)"
    by (simp add: accepts_filters_def)
qed

end
