(* ===== verification/Runtime_Tests.thy ===== *)
theory Runtime_Tests
  imports Limits Proxy_Protocol Socket_Opts Tcp_Copy Metrics_Http
begin

text \<open>
  The unit tests of \<open>src/limits.rs\<close>, \<open>src/proxy/proxy_protocol.rs\<close>, \<open>src/proxy/tcp.rs\<close>,
  \<open>src/socket_opts.rs\<close> and the exporter's in \<open>src/metrics.rs\<close> as executable scenarios of the model: the
  calls of a test in their order, then its assertions. What a test awaits is given as the events the
  awaited sockets deliver in it.
\<close>

section \<open>The limiter\<close>

text \<open>The two accessors for tests, an acquisition that succeeds, and one that is refused.\<close>

definition total_used :: "conn_limits \<Rightarrow> u32" where
  "total_used l = st_total (lim_state l)"

definition per_ip_used :: "conn_limits \<Rightarrow> ip_addr \<Rightarrow> u32" where
  "per_ip_used l ip = (case st_per_ip (lim_state l) ip of Some st \<Rightarrow> stat_count st | None \<Rightarrow> 0)"

definition acquired :: "ip_addr \<Rightarrow> conn_limits \<Rightarrow> (guard \<Rightarrow> conn_limits \<Rightarrow> bool) \<Rightarrow> bool" where
  "acquired ip l k = (case try_acquire ip l of (Inr g, _, l') \<Rightarrow> k g l' | (Inl _, _, _) \<Rightarrow> False)"

definition refused :: "Reject \<Rightarrow> ip_addr \<Rightarrow> conn_limits \<Rightarrow> bool" where
  "refused r ip l \<longleftrightarrow> fst (try_acquire ip l) = Inl r"

definition ten :: "u8 \<Rightarrow> ip_addr" where
  "ten d = V4 (Ipv4 10 0 0 d)"

text \<open>\<open>n\<close> turns of a loop whose body acquires a slot and drops the guard at once.\<close>

fun acquire_and_drop :: "nat \<Rightarrow> ip_addr \<Rightarrow> conn_limits \<Rightarrow> bool" where
  "acquire_and_drop 0 ip l \<longleftrightarrow> True"
| "acquire_and_drop (Suc n) ip l \<longleftrightarrow> acquired ip l (\<lambda>g l'. acquire_and_drop n ip (guard_drop g l'))"

definition unlimited_when_zero :: bool where
  "unlimited_when_zero = acquire_and_drop 1000 (ten 1) (new_limits 0 0)"

definition enforces_total_cap :: bool where
  "enforces_total_cap =
     acquired (ten 1) (new_limits 3 0) (\<lambda>g1 l.
     acquired (ten 2) l (\<lambda>g2 l.
     acquired (ten 3) l (\<lambda>g3 l. refused Total (ten 4) l)))"

definition enforces_per_ip_cap :: bool where
  "enforces_per_ip_cap =
     acquired (ten 1) (new_limits 0 2) (\<lambda>g1 l.
     acquired (ten 1) l (\<lambda>g2 l.
       refused PerIp (ten 1) l \<and> acquired (ten 2) l (\<lambda>g3 l. True)))"

definition slot_released_on_guard_drop :: bool where
  "slot_released_on_guard_drop =
     acquired (ten 1) (new_limits 1 0) (\<lambda>g l.
       refused Total (ten 1) l \<and> acquired (ten 1) (guard_drop g l) (\<lambda>g2 l. True))"

definition per_ip_entry_cleaned_on_release :: bool where
  "per_ip_entry_cleaned_on_release =
     acquired (ten 1) (new_limits 0 5) (\<lambda>g l.
       per_ip_used l (ten 1) = 1 \<and> per_ip_used (guard_drop g l) (ten 1) = 0)"

definition total_count_correct :: bool where
  "total_count_correct =
     acquired (ten 1) (new_limits 0 0) (\<lambda>g1 l.
     acquired (ten 2) l (\<lambda>g2 l.
     acquired (ten 2) l (\<lambda>g3 l.
       total_used l = 3 \<and>
       total_used (guard_drop g2 l) = 2 \<and>
       total_used (guard_drop g3 (guard_drop g1 (guard_drop g2 l))) = 0)))"

definition reached_90pct_threshold :: bool where
  "reached_90pct_threshold \<longleftrightarrow>
     \<not> reached_90pct 89 100 \<and> reached_90pct 90 100 \<and> reached_90pct 100 100 \<and>
     \<not> reached_90pct 8 10 \<and> reached_90pct 9 10 \<and>
     reached_90pct (4294967295 div 10 * 9) (4294967295 div 10 * 10)"

lemmas limiter_evaluates = acquired_def refused_def try_acquire_def admit_slot_def guard_drop_def
  new_limits_def ten_def sat_sub_def total_used_def per_ip_used_def Let_def

lemma unlimited_slot:
  "acquired ip (new_limits 0 0) (\<lambda>g l. k (guard_drop g l)) \<longleftrightarrow> k (new_limits 0 0)"
  by (simp add: limiter_evaluates)

lemma unlimited_loop: "acquire_and_drop n ip (new_limits 0 0)"
  by (induction n) (simp_all add: unlimited_slot)

lemma limiter_tests:
  "unlimited_when_zero" "enforces_total_cap" "enforces_per_ip_cap" "slot_released_on_guard_drop"
  "per_ip_entry_cleaned_on_release" "total_count_correct" "reached_90pct_threshold"
proof -
  show unlimited_when_zero
    unfolding unlimited_when_zero_def by (rule unlimited_loop)
  show "enforces_total_cap" "enforces_per_ip_cap" "slot_released_on_guard_drop"
    "per_ip_entry_cleaned_on_release" "total_count_correct"
    by (simp_all add: enforces_total_cap_def enforces_per_ip_cap_def slot_released_on_guard_drop_def
        per_ip_entry_cleaned_on_release_def total_count_correct_def limiter_evaluates
        word_le_nat_alt)
  show reached_90pct_threshold
    by (simp add: reached_90pct_threshold_def reached_90pct_exact)
qed

section \<open>The PROXY protocol header\<close>

definition sa4 :: "u8 \<Rightarrow> u8 \<Rightarrow> u8 \<Rightarrow> u8 \<Rightarrow> u16 \<Rightarrow> socket_addr" where
  "sa4 a b c d port = SockV4 (Ipv4 a b c d) port"

definition sa6 :: "ipv6_addr \<Rightarrow> u16 \<Rightarrow> socket_addr" where
  "sa6 addr port = SockV6 addr port 0 0"

definition slice :: "nat \<Rightarrow> nat \<Rightarrow> 'a list \<Rightarrow> 'a list" where
  "slice i j xs = take (j - i) (drop i xs)"

definition signature_always_present :: bool where
  "signature_always_present =
     (let h = v2_header (sa4 1 2 3 4 1) (sa4 5 6 7 8 2) in slice 0 12 h = SIGNATURE)"

definition ipv4_layout_is_exact :: bool where
  "ipv4_layout_is_exact =
     (let h = v2_header (sa4 192 0 2 1 51000) (sa4 198 51 100 2 25) in
      length h = 28 \<and> h ! 12 = VER_CMD_PROXY \<and> h ! 13 = TP_TCP4 \<and> slice 14 16 h = u16_to_be 12 \<and>
      slice 16 20 h = [192, 0, 2, 1] \<and> slice 20 24 h = [198, 51, 100, 2] \<and>
      slice 24 26 h = u16_to_be 51000 \<and> slice 26 28 h = u16_to_be 25)"

definition ipv6_layout_is_exact :: bool where
  "ipv6_layout_is_exact =
     (let s = Ipv6 0x2001 0xDB8 0 0 0 0 0 1; d = Ipv6 0x2001 0xDB8 0 0 0 0 0 2;
          h = v2_header (sa6 s 40000) (sa6 d 587) in
      length h = 52 \<and> h ! 12 = VER_CMD_PROXY \<and> h ! 13 = TP_TCP6 \<and> slice 14 16 h = u16_to_be 36 \<and>
      slice 16 32 h = octets6 s \<and> slice 32 48 h = octets6 d \<and>
      slice 48 50 h = u16_to_be 40000 \<and> slice 50 52 h = u16_to_be 587)"

definition ipv4_mapped_v6_collapses_to_v4 :: bool where
  "ipv4_mapped_v6_collapses_to_v4 =
     (let mapped = Ipv6 0 0 0 0 0 0xFFFF 0xC000 0x0201;
          h = v2_header (sa6 mapped 1234) (sa4 198 51 100 2 25) in
      length h = 28 \<and> h ! 13 = TP_TCP4 \<and> slice 16 20 h = [192, 0, 2, 1])"

definition family_mismatch_emits_local :: bool where
  "family_mismatch_emits_local =
     (let s = Ipv6 0x2001 0xDB8 0 0 0 0 0 1; h = v2_header (sa6 s 1234) (sa4 198 51 100 2 25) in
      length h = 16 \<and> h ! 12 = VER_CMD_LOCAL \<and> h ! 13 = TP_UNSPEC \<and> slice 14 16 h = u16_to_be 0)"

lemma header_tests:
  "signature_always_present" "ipv4_layout_is_exact" "ipv6_layout_is_exact"
  "ipv4_mapped_v6_collapses_to_v4" "family_mismatch_emits_local"
  by (simp_all add: signature_always_present_def ipv4_layout_is_exact_def ipv6_layout_is_exact_def
      ipv4_mapped_v6_collapses_to_v4_def family_mismatch_emits_local_def v2_header_def header_consts
      sa4_def sa6_def slice_def u16_to_be_def Let_def)

section \<open>Socket options\<close>

text \<open>These tests have no assertion but that the call returns; a scenario is what the call does.\<close>

definition base_cfg :: ProxyConfig where
  "base_cfg =
     \<lparr>cfg_name = ''test'', cfg_listen = ''127.0.0.1:0'', cfg_target = ''127.0.0.1:0'', cfg_protocol = Tcp,
      connect_timeout_secs = 3, keepalive_idle_secs = 0, keepalive_interval_secs = 0,
      keepalive_retries = 0, user_timeout_ms = 0, idle_timeout_secs = 0, half_close_timeout_secs = 0,
      max_connections = 0, cfg_max_per_ip = 0, cfg_proxy_protocol = False\<rparr>"

type_synonym applied = "setter list \<times> opt_warning list"

definition apply_all_disabled :: "bool \<Rightarrow> (setter \<Rightarrow> string option) \<Rightarrow> applied" where
  "apply_all_disabled linux result = apply_tcp linux result base_cfg"

definition apply_with_keepalive :: "bool \<Rightarrow> (setter \<Rightarrow> string option) \<Rightarrow> applied" where
  "apply_with_keepalive linux result = apply_tcp linux result
     (base_cfg\<lparr>keepalive_idle_secs := 60, keepalive_interval_secs := 10, keepalive_retries := 6\<rparr>)"

definition apply_with_user_timeout :: "bool \<Rightarrow> (setter \<Rightarrow> string option) \<Rightarrow> applied" where
  "apply_with_user_timeout linux result = apply_tcp linux result (base_cfg\<lparr>user_timeout_ms := 30000\<rparr>)"

definition apply_all_options :: "bool \<Rightarrow> (setter \<Rightarrow> string option) \<Rightarrow> applied" where
  "apply_all_options linux result = apply_tcp linux result
     (base_cfg\<lparr>keepalive_idle_secs := 60, keepalive_interval_secs := 10, keepalive_retries := 6,
        user_timeout_ms := 90000\<rparr>)"

lemma option_tests:
  "fst (apply_all_disabled True result) = []"
  "fst (apply_with_keepalive True result) = [SetTcpKeepalive 60 (Some 10) (Some 6)]"
  "fst (apply_with_user_timeout True result) = [SetTcpUserTimeout 30000]"
  "fst (apply_all_options True result) = [SetTcpKeepalive 60 (Some 10) (Some 6), SetTcpUserTimeout 90000]"
  by (simp_all add: apply_all_disabled_def apply_with_keepalive_def apply_with_user_timeout_def
      apply_all_options_def base_cfg_def apply_tcp_def keepalive_calls_def user_timeout_calls_def
      word_less_nat_alt)

section \<open>Cancelling a copy whose writer is blocked\<close>

text \<open>
  The reader has a full buffer of one letter, the writer room for one byte. \<open>Took 1\<close> is the byte the
  test observes; then the writer is blocked, the token is cancelled, and the task runs on its own.
\<close>

definition test_shared :: "u64 \<Rightarrow> shared" where
  "test_shared now =
     \<lparr>cancelled = False, last_activity = now, done_chan = [], rx_dropped = False, metric_ops = []\<rparr>"

definition cancellation_interrupts_backpressured_write :: "u64 \<Rightarrow> u64 \<Rightarrow> bool" where
  "cancellation_interrupts_backpressured_write t0 now =
     (case run (copy_step ''test'' Up) [Poll, ReadOk (replicate BUF_SIZE 0x78) now, Poll, Took 1, Pending]
             (copy_start, test_shared t0) of
        None \<Rightarrow> False
      | Some (c, sh) \<Rightarrow>
          bytes_out c = [0x78] \<and>
          (case run (copy_step ''test'' Up) [Poll, Report] (c, sh\<lparr>cancelled := True\<rparr>) of
             None \<Rightarrow> False
           | Some (c', sh') \<Rightarrow> phase c' = Finished))"

lemma copy_test: "cancellation_interrupts_backpressured_write t0 now"
proof -
  have size: "1 < BUF_SIZE" "replicate BUF_SIZE x \<noteq> []" for x :: u8
    by (simp_all add: BUF_SIZE_def)
  have one: "take (Suc 0) (replicate BUF_SIZE x) = [x]" for x :: u8
    using size(1) by (cases BUF_SIZE) simp_all
  show ?thesis
    using size
    by (simp add: cancellation_interrupts_backpressured_write_def copy_start_def test_shared_def one
        Let_def del: take_replicate)
qed

section \<open>The exporter\<close>

text \<open>
  The client dribbles the request line in two chunks, which arrive one by one; \<open>rendered\<close> is what the
  registry of the test renders. The text it looks for is ASCII, so it is looked for in the bytes.
\<close>

definition request_line_split_across_reads_still_served :: "u8 list \<Rightarrow> bool" where
  "request_line_split_across_reads_still_served rendered =
     (case handle_request rendered (None :: string option)
             [Inr (bytes_of ''GET /met''), Inr (bytes_of (''rics HTTP/1.1'' @ crlf @ crlf))] of
        Inr (Some out) \<Rightarrow>
          take 15 out = bytes_of ''HTTP/1.1 200 OK'' \<and>
          str_contains out (bytes_of ''oxiduct_connections_total'')
      | _ \<Rightarrow> False)"

lemma exporter_test:
  assumes "str_contains rendered (bytes_of ''oxiduct_connections_total'')"
  shows "request_line_split_across_reads_still_served rendered"
proof -
  let ?reads = "[Inr (bytes_of ''GET /met''), Inr (bytes_of (''rics HTTP/1.1'' @ crlf @ crlf))] :: (string + u8 list) list"
  let ?head = "bytes_of (''GET /metrics HTTP/1.1'' @ crlf @ crlf)"
  have "read_head [] ?reads = Inr (Some ?head)"
    by (simp add: bytes_of_def crlf_def REQUEST_BUF_def Let_def)
  moreover have "is_metrics (first_line (from_utf8_lossy ?head))"
    by (simp add: bytes_of_def crlf_def from_utf8_lossy_def utf8_next_def utf8_begin_def first_line_def
        is_metrics_def is_whitespace_def word_at_def codes_def Let_def)
  moreover obtain rest where
    "response rendered line = bytes_of (''HTTP/1.1 200 OK'' @ rest) @ rendered" if "is_metrics line" for line
  proof
    fix line
    assume "is_metrics line"
    then show "response rendered line = bytes_of (''HTTP/1.1 200 OK'' @ (crlf @ ''Content-Type: '' @
        ''text/plain; version=0.0.4'' @ crlf @ ''Content-Length: '' @ show_nat (length rendered) @ crlf @
        ''Connection: close'' @ crlf @ crlf)) @ rendered"
      by (simp add: response_def)
  qed
  ultimately have "handle_request rendered (None :: string option) ?reads =
      Inr (Some (bytes_of (''HTTP/1.1 200 OK'' @ rest) @ rendered))"
    by (simp add: handle_request_def)
  moreover have "take 15 (bytes_of (''HTTP/1.1 200 OK'' @ rest) @ rendered) = bytes_of ''HTTP/1.1 200 OK''"
    by (simp add: bytes_of_def)
  ultimately show ?thesis
    unfolding request_line_split_across_reads_still_served_def using str_contains_later [OF assms] by simp
qed

section \<open>All of them\<close>

definition runtime_tests :: "u64 \<Rightarrow> u64 \<Rightarrow> u8 list \<Rightarrow> bool list" where
  "runtime_tests t0 now rendered =
     [unlimited_when_zero, enforces_total_cap, enforces_per_ip_cap, slot_released_on_guard_drop,
      per_ip_entry_cleaned_on_release, total_count_correct, reached_90pct_threshold,
      signature_always_present, ipv4_layout_is_exact, ipv6_layout_is_exact,
      ipv4_mapped_v6_collapses_to_v4, family_mismatch_emits_local,
      cancellation_interrupts_backpressured_write t0 now,
      request_line_split_across_reads_still_served rendered]"

lemma runtime_tests_hold:
  "str_contains rendered (bytes_of ''oxiduct_connections_total'') \<Longrightarrow>
     list_all (\<lambda>passed. passed) (runtime_tests t0 now rendered)"
  by (simp add: runtime_tests_def limiter_tests header_tests copy_test exporter_test)

end
