(* ===== verification/Spec2Isabelle.thy ===== *)
theory Spec2Isabelle
  imports Process_Shutdown Process_Grace Udp_Cleanup Config_Tests Runtime_Tests
begin

text \<open>
  A verification development of oxiduct, a TCP and UDP proxy in Rust: the program as Isabelle functions
  and step functions, and the theorems that make it correct.

  \<^bold>\<open>The program.\<close> \<open>main\<close> (\<open>src/main.rs\<close>) parses the command line (\<open>src/cli.rs\<close>), loads or builds the proxy
  configurations (\<open>src/config.rs\<close>), and runs one task per proxy and one for the metrics exporter
  (\<open>src/metrics.rs\<close>) until a signal. A TCP proxy (\<open>src/proxy/tcp.rs\<close>) accepts connections under the caps
  of its limiter (\<open>src/limits.rs\<close>), connects each to the target, may write a PROXY header
  (\<open>src/proxy/proxy_protocol.rs\<close>), and relays both directions under a watchdog. A UDP proxy
  (\<open>src/proxy/udp.rs\<close>) keeps one session per source, opened by a setup task, served by two relay tasks,
  evicted by a cleanup task, under the same limiter.

  \<^bold>\<open>Theories.\<close> In the order they build on each other:
  \<^item> \<open>Prelude\<close>: integers and saturating operations, errors as sums with \<open>bindE\<close> for the \<open>?\<close> operator,
    \<open>run\<close> and \<open>reach\<close> of a step function, and three interfaces as locales: \<open>invariant_system\<close> (what every
    step keeps holds in every reachable state), \<open>refining_system\<close> (every step is a run of an
    abstract system, so reachable states abstract to reachable states) and \<open>progress_system\<close> (a
    system's own moves lower a rank until it is final, so it completes within the rank).
  \<^item> \<open>Net\<close> and \<open>Rust_Str\<close>: the parts of \<open>std::net\<close> and \<open>str\<close> the program uses.
  \<^item> \<open>Limits\<close>: \<open>ConnLimits\<close>, \<open>try_acquire\<close>, \<open>Guard::drop\<close>; the locales \<open>slot_pool\<close> and \<open>capped_pool\<close> state
    what its clients rely on, and are interpreted on the code's definitions.
  \<^item> \<open>Proxy_Protocol\<close>: \<open>v2_header\<close> and a reader of the protocol for its round trip.
  \<^item> \<open>Cli\<close>, \<open>Config\<close>, \<open>Cli_Args\<close>: log filters and listen addresses; \<open>from_cli\<close>, \<open>from_toml\<close>, \<open>validate\<close>,
    \<open>load\<close> and their messages; the declarations on \<open>Args\<close> that clap reads. \<open>Toml_Schema\<close>: what the
    \<open>Deserialize\<close> declarations make of a parsed document, and a writer as their specification.
  \<^item> \<open>Socket_Opts\<close>: \<open>apply_tcp\<close>. \<open>Metrics\<close>: the families, their registration, a log of metric calls.
  \<^item> \<open>Tcp_Watchdog\<close>: \<open>watchdog\<close> as a function of what its turns see, and its deadlines.
  \<^item> \<open>Tcp_Copy\<close>, \<open>Tcp_Relay\<close>, \<open>Relay_Watchdog\<close>: \<open>copy_dir\<close>, one poll per step; \<open>relay\<close> as the interleaving of
    both directions and the watchdog; the projection of a run of the relay to the watchdog's loop, and the
    occasions on which a relay closes.
  \<^item> \<open>Tcp_Handle\<close>, \<open>Tcp_Serve\<close>: \<open>handle\<close> on every path as its list of effects; \<open>serve_graceful\<close> with its
    limiter, join set, back-off and drain.
  \<^item> \<open>Tcp_Conn\<close>, \<open>Tcp_Proxy\<close>: the connection task poll by poll, with the relay it awaits; the accept loop
    together with the tasks it spawns, their relays and both tokens.
  \<^item> \<open>Udp\<close> (the model), \<open>Udp_Slots\<close> (invariant and refinement), \<open>Udp_Ledger\<close> (accounting, drain,
    schedules), \<open>Udp_Open\<close> (\<open>open_session\<close> up to the connected socket), \<open>Udp_Order\<close> (which datagrams a
    session carries, in which order), \<open>Udp_Cleanup\<close> (what a sweep does, how long the cleanup task
    sleeps), \<open>Udp_Shutdown\<close> (every task ends after a forced shutdown, an idle listener after the stop).
  \<^item> \<open>Proxy_Start\<close>: binding, the published limits, the dispatch on the protocol, the one-token variants.
  \<^item> \<open>Metrics_Http\<close>: one request of the exporter and its accept loop.
  \<^item> \<open>Oxiduct_Main\<close>: settings, tasks, supervision and the exit code, with a task reduced to its result.
  \<^item> \<open>Oxiduct_Process\<close>: the composition of everything that runs: \<open>main\<close> with the TCP proxies, the UDP proxies
    and the exporter as entries of its join set, which share its two tokens and one registry; it refines
    \<open>Oxiduct_Main\<close>. \<open>Process_Shutdown\<close>: from a signal to the exit. \<open>Process_Metrics\<close>: whose call is
    whose in the shared registry. \<open>Process_Grace\<close>: what a signal leaves alone.
  \<^item> \<open>Config_Tests\<close>, \<open>Runtime_Tests\<close>: unit tests of the source as executable scenarios, a regression check of
    the definitions.
  \<^item> This theory: what spans the components.

  \<^bold>\<open>How state corresponds.\<close> A struct is a record with the source's fields, an enum a datatype, a machine
  integer a word of its width. A \<open>HashMap\<close> is a map or, where its iteration or size matters, an
  association list with distinct keys. An asynchronous function is a step function: its phase is the
  await it is at, an event is the outcome of one poll (of a biased \<open>select!\<close>, the polls in their
  order), and tasks interleave freely between their critical sections. The state carries logs of what
  the world sees: bytes read and written, metric calls, log lines.

  \<^bold>\<open>What is shown.\<close>
  \<^item> Relay: bytes arrive in order and, when the reason is \<open>eof\<close>, all of them; totals and counters agree;
    every close happens on a true occasion for its reason; once the watchdog returned the connection closes within a bounded number
    of polls; the watchdog closes idle and half-open connections in time and spares active ones,
    under every interleaving.
  \<^item> TCP as a whole: a connection task, whatever the polls, amounts to one run of the sequential
    handler; the active gauge and the outcome counters agree with the connections at every moment;
    after a forced shutdown the proxy's own moves lead to its return, whatever the peers do (shown for
    the UDP proxy too).
  \<^item> Limiter and listeners: \<open>try_acquire\<close> decides as the multiset of live guards does; the caps hold in
    every reachable state of the TCP listener and of the UDP proxy, both of which refine the limiter's
    own system; slots, pending marks and gauges are released on every path; drains end.
  \<^item> UDP sessions: the ledger of opened, closed and replaced sessions while the listener runs; a sweep
    evicts and counts exactly the dead and the idle sessions, and the cleanup task neither oversleeps nor
    spins; a session carries its own source's datagrams in order. Three schedules show sessions replaced,
    lost with the map, or counted twice.
  \<^item> Data: the header round trip, exact characterisations of \<open>validate\<close>, \<open>load\<close>, the resolution of
    knobs and the shape of a configuration file in table form, the round trip of a configuration,
    independence of the exporter's answer from how a request is split.
  \<^item> Process: the proxies started are validated and distinct, every accepted flag reaches the settings.
    Of the whole process in any interleaving: before the grace period ran out no connection is told to stop,
    and a live UDP session ends only for a reason of its own; after a signal its own moves lead to the exit with every task joined, within a bound
    that adds up those of the proxies, and without waiting for the grace period once nothing is left to
    serve; the exit code is 1 exactly if a joined task could not bind its
    address; the calls under a proxy's name are its own, so its gauges and counters agree with its
    connections or sessions whatever the other proxies do, and no metric call panics.

  \<^bold>\<open>Bounds.\<close> The counters of the limiter are \<open>u32\<close>. With a cap they cannot wrap; without one the theorems
  assume fewer than \<open>2 ^ 32\<close> tasks in the process (\<open>task_room\<close>, \<open>slot_room\<close>, \<open>counter_room\<close>). Byte totals
  are modulo \<open>2 ^ 64\<close>, as in the code. Clocks are \<open>u64\<close> milliseconds; deadlines saturate, and where a
  theorem needs the clock below the saturation it says so. No fuel is used: loops that wait on the
  world consume one event per poll, so a run is a list of events, and termination is a bound on it.

  \<^bold>\<open>Wider than the code.\<close> A step that the code's scheduler could not take in some state is harmless for
  the safety theorems, which hold of every run. Timers may fire at any time unless a theorem assumes
  their pace (\<open>paced\<close>), the order of a map's iteration is that of the list, and relay tasks of UDP may
  poll their sockets although a token is set (the race a biased \<open>select!\<close> has anyway). The map of UDP
  sessions is dropped by an event of its own (\<open>MapDropped\<close>) at any time after its last holder (listener,
  cleanup, setups) has ended, where the code drops it at once. A UDP send is awaited to its end with no
  look at a token; when it ends is up to the environment.

  \<^bold>\<open>Not modelled.\<close> Third-party and system code is a parameter or an event: clap's parsing of \<open>argv\<close> (its
  contract on the declarations is \<open>clap_contract\<close>), the TOML parser from a text to its document, the log-filter parsers, the metrics
  registry and its text encoder, tokio's scheduler, timers and channels, sockets and name resolution.
  The installation of the tracing subscriber and of the signal handlers is I/O. \<open>src/lib.rs\<close> only
  declares modules. What serde makes of an array in the place of a struct, or of a table in the place of
  the protocol, is a parameter (\<open>serde_forms\<close>). Which values the kernel takes for a socket option is not
  modelled; the program bounds the keepalive values and leaves \<open>user_timeout_ms\<close> as it is. In \<open>Tcp_Proxy\<close> a connection task does not panic (\<open>Tcp_Serve\<close> alone
  allows it), and in \<open>Oxiduct_Process\<close> no task of \<open>main\<close> does (\<open>Oxiduct_Main\<close> alone allows it); there the first
  poll of a task runs up to the answer to its bind. Of the unit tests, the two on the rendered registry are
  left out, since they assert the text of the metrics encoder; those of \<open>src/socket_opts.rs\<close> assert
  nothing, so the calls they make are stated instead; a text that is no TOML and a file that is missing are
  given by the error of the parser or the reader. The integration tests drive real sockets. Debug and info lines that carry
  no decision are left out.
\<close>

section \<open>Across the components\<close>

text \<open>
  C33: Whatever the command line and the file say, \<open>main\<close> starts at least one proxy, and every proxy it
  starts has passed validation; no two share a name (so their metric series and log lines never
  mix) or a protocol and listen address; and the keepalive values that reach a socket are within
  the bounds that validation names, and no setter is called with 0.
\<close>

theorem started_proxies_workable:
  assumes "resolve_settings read_to_string from_str args = Inr st"
  shows "set_proxies st \<noteq> [] \<and>
    list_all (\<lambda>c. validate c = Inr () \<and> list_all setter_bounded (fst (apply_tcp linux result c)))
      (set_proxies st) \<and>
    distinct (map cfg_name (set_proxies st)) \<and>
    distinct (map (\<lambda>c. (cfg_protocol c, cfg_listen c)) (set_proxies st))"
  using assms
proof (cases rule: resolve_settings_cases)
  case (config path lc)
  note ok = load_ok [OF config(2)]
  have "\<forall>p\<in>set (lc_proxies lc). validate p = Inr ()"
    using ok check_proxies_iff [of "{}" "{}" "lc_proxies lc"] by (simp add: validate_iff)
  moreover from this have "\<forall>p\<in>set (lc_proxies lc). list_all setter_bounded (fst (apply_tcp linux result p))"
    using validated_calls_bounded by blast
  ultimately show ?thesis
    using ok check_proxies_iff [of "{}" "{}" "lc_proxies lc"] by (simp add: config list_all_iff)
next
  case (flags cfg)
  then show ?thesis using from_cli_ok [OF flags(2)] validated_calls_bounded by simp
qed

theorem started_proxies_workable_witness:
  "\<exists>st. resolve_settings (\<lambda>_. Inl ''no file'') (\<lambda>_. Inl ''no toml'') demo_args = Inr st \<and>
     map cfg_listen (set_proxies st) = [''0.0.0.0:8''] \<and> list_all (\<lambda>c. validate c = Inr ()) (set_proxies st)"
proof -
  obtain st cfg where st: "resolve_settings (\<lambda>_. Inl ''no file'') (\<lambda>_. Inl ''no toml'') demo_args = Inr st"
      "set_proxies st = [cfg]" "cfg_listen cfg = ''0.0.0.0:8''"
    using demo_resolved by blast
  from started_proxies_workable [OF st(1)] show ?thesis
    using st by (simp add: list_all_iff)
qed

text \<open>A flag, if it was given, is what the setting says.\<close>

definition reaches :: "'a option \<Rightarrow> 'a \<Rightarrow> bool" where
  "reaches flag value = (case flag of Some x \<Rightarrow> value = x | None \<Rightarrow> True)"

text \<open>The proxy of a command line without \<open>--config\<close>, flag by flag.\<close>

definition proxy_of_flags :: "given_args \<Rightarrow> ProxyConfig \<Rightarrow> bool" where
  "proxy_of_flags g c \<longleftrightarrow>
     reaches (map_option expand_listen (g_listen g)) (cfg_listen c) \<and> reaches (g_target g) (cfg_target c) \<and>
     reaches (g_protocol g) (cfg_protocol c) \<and>
     reaches (g_connect_timeout g) (connect_timeout_secs c) \<and>
     reaches (g_keepalive_idle g) (keepalive_idle_secs c) \<and>
     reaches (g_keepalive_interval g) (keepalive_interval_secs c) \<and>
     reaches (g_keepalive_retries g) (keepalive_retries c) \<and>
     reaches (g_user_timeout_ms g) (user_timeout_ms c) \<and>
     reaches (g_idle_timeout g) (idle_timeout_secs c) \<and>
     reaches (g_half_close_timeout g) (half_close_timeout_secs c) \<and>
     reaches (g_max_connections g) (max_connections c) \<and> reaches (g_max_per_ip g) (cfg_max_per_ip c) \<and>
     cfg_proxy_protocol c = g_proxy_protocol g"

lemma reaches_default [simp]: "reaches flag (or_default flag d)"
  by (simp add: reaches_def or_default_def split: option.split)

lemma reaches_knob [simp]: "reaches flag (knob flag base d)"
  by (simp add: reaches_def knob_def split: option.split)

lemma reaches_or_else [simp]: "reaches (map_option Some flag) (or_else flag x)"
  by (simp add: reaches_def or_else_def split: option.split)

lemma from_cli_flags:
  assumes "from_cli (fill_args env g) = Inr c"
  shows "proxy_of_flags g c"
  using assms
  by (auto simp: from_cli_def fill_args_def proxy_of_flags_def bindE_eq_Inr Let_def)
    (simp_all add: reaches_def)

lemma settings_reached:
  assumes "resolve_settings read_to_string from_str (fill_args env g) = Inr st"
  shows "reaches (g_shutdown_grace g) (set_shutdown_grace st) \<and>
    reaches (map_option Some (g_metrics_listen g)) (set_metrics_listen st) \<and>
    (case g_config g of
       Some path \<Rightarrow> \<exists>lc. load read_to_string from_str path = Inr lc \<and> set_proxies st = lc_proxies lc
     | None \<Rightarrow> \<exists>c. set_proxies st = [c] \<and> proxy_of_flags g c)"
  using assms
proof (cases rule: resolve_settings_cases)
  case (config path lc)
  then show ?thesis by (simp add: fill_args_def)
next
  case (flags c)
  moreover have "reaches (map_option Some x) x" for x :: "'b option"
    by (simp add: reaches_def split: option.split)
  ultimately show ?thesis using from_cli_flags by (simp add: fill_args_def)
qed

text \<open>
  C34: No flag is silently ignored. A command line that the declarations on \<open>Args\<close> accept names one mode
  completely: either it names a configuration file and gives no flag that only the file may set,
  or it names both addresses, and then \<open>main\<close> never fails for a missing \<open>--listen\<close> or \<open>--target\<close>. And
  every flag it gives is what \<open>main\<close> then uses: the log level, the grace and the exporter's address
  in both modes, the file's proxies with \<open>--config\<close>, and every per-proxy flag in the one proxy of a
  command line without it. (What a UDP proxy makes of \<open>--proxy-protocol\<close> is not part of this.)
\<close>

theorem accepted_flags_effective:
  assumes "clap_contract level_ok filter_err env clap" and "clap g = Inr a"
  shows "(case arg_config a of
      Some path \<Rightarrow> g_config g = Some path \<and> config_only g
    | None \<Rightarrow> g_config g = None \<and> arg_listen a \<noteq> None \<and> arg_target a \<noteq> None) \<and>
    resolve_settings read_to_string from_str a \<noteq> Inl ListenRequired \<and>
    resolve_settings read_to_string from_str a \<noteq> Inl TargetRequired \<and>
    reaches (g_log_level g) (arg_log_level a) \<and>
    (case resolve_settings read_to_string from_str a of
       Inl e \<Rightarrow> True
     | Inr st \<Rightarrow>
         reaches (g_shutdown_grace g) (set_shutdown_grace st) \<and>
         reaches (map_option Some (g_metrics_listen g)) (set_metrics_listen st) \<and>
         (case g_config g of
            Some path \<Rightarrow> \<exists>lc. load read_to_string from_str path = Inr lc \<and> set_proxies st = lc_proxies lc
          | None \<Rightarrow> \<exists>c. set_proxies st = [c] \<and> proxy_of_flags g c))"
proof -
  have a: "allowed g" "a = fill_args env g"
    using assms by (auto simp: clap_contract_def)
  have mode: "case arg_config a of
      Some path \<Rightarrow> g_config g = Some path \<and> config_only g
    | None \<Rightarrow> g_config g = None \<and> arg_listen a \<noteq> None \<and> arg_target a \<noteq> None"
    using a by (cases "g_config g") (simp_all add: allowed_iff fill_args_def)
  have "\<not> missing_flag e" if "resolve_settings read_to_string from_str a = Inl e" for e
    using that mode from_cli_flag [of a e]
    by (auto simp: resolve_settings_def bindE_eq_Inl dest: load_flag split: option.splits)
  moreover have "reaches (g_log_level g) (arg_log_level a)" by (simp add: a(2) fill_args_def)
  moreover note settings_reached [of read_to_string from_str env g]
  ultimately show ?thesis
    using mode unfolding a(2) missing_flag_def
    by (cases "resolve_settings read_to_string from_str (fill_args env g)") auto
qed

text \<open>The command line behind \<open>demo_args\<close>, with every flag of a proxy given but the exporter's.\<close>

definition demo_given :: given_args where
  "demo_given =
     \<lparr>g_config = None, g_listen = Some ''8'', g_target = Some ''a:1'', g_protocol = None,
      g_connect_timeout = Some 3, g_keepalive_idle = Some 60, g_keepalive_interval = Some 10,
      g_keepalive_retries = Some 6, g_user_timeout_ms = Some 90000, g_idle_timeout = Some 300,
      g_half_close_timeout = Some 30, g_max_connections = Some 32000, g_max_per_ip = Some 320,
      g_proxy_protocol = True, g_shutdown_grace = Some 4, g_metrics_listen = None,
      g_log_level = None\<rparr>"

definition demo_clap :: "given_args \<Rightarrow> string + Args" where
  "demo_clap g =
     (let a = fill_args None g in
      if allowed g \<and> parse_log_level (\<lambda>d. d = ''info'') (\<lambda>_. None) (arg_log_level a) = Inr (arg_log_level a)
      then Inr a else Inl ''usage'')"

theorem accepted_flags_effective_witness:
  "demo_clap demo_given = Inr demo_args \<and>
   (\<exists>st c. resolve_settings (\<lambda>_. Inl ''no file'') (\<lambda>_. Inl ''no toml'') demo_args = Inr st \<and>
      set_proxies st = [c] \<and> idle_timeout_secs c = 300 \<and> cfg_proxy_protocol c \<and> set_shutdown_grace st = 4)"
proof -
  have contract: "clap_contract (\<lambda>d. d = ''info'') (\<lambda>_. None) None demo_clap"
    by (auto simp: clap_contract_def demo_clap_def Let_def split: if_splits)
  have fill: "fill_args None demo_given = demo_args"
    by (simp add: fill_args_def demo_given_def demo_args_def or_default_def)
  have "parse_log_level (\<lambda>d. d = ''info'') (\<lambda>_. None) ''info'' = Inr ''info''"
    by (simp add: parse_log_level_def)
  then have acc: "demo_clap demo_given = Inr demo_args"
    by (simp add: demo_clap_def Let_def allowed_iff demo_given_def fill [unfolded demo_given_def])
      (simp add: demo_args_def)
  obtain st where st: "resolve_settings (\<lambda>_. Inl ''no file'') (\<lambda>_. Inl ''no toml'') demo_args = Inr st"
    using demo_resolved by blast
  have given: "g_config demo_given = None" "g_idle_timeout demo_given = Some 300" "g_proxy_protocol demo_given"
      "g_shutdown_grace demo_given = Some 4"
    by (simp_all add: demo_given_def)
  show ?thesis
    using accepted_flags_effective [OF contract acc, of "\<lambda>_. Inl ''no file''" "\<lambda>_. Inl ''no toml''"]
    by (auto simp: acc st given reaches_def proxy_of_flags_def)
qed

end
